(* ===== verification/Nexus_Prelude.thy ===== *)
theory Nexus_Prelude
  imports
    Main
    "HOL-Library.Word"
    "HOL-Library.Sublist"
    "HOL-Library.List_Lexorder"
    "HOL-Library.Char_ord"
begin

text \<open>
  The vocabulary the component theories share: the machine types of the Rust
  sources, the string operations of the standard library that they call
  (strings are the list of their UTF-8 bytes, so the order of
  \<^verbatim>\<open>BTreeMap<String, _>\<close> is the lexicographic order of this type), the ordered
  map that stands for \<^verbatim>\<open>BTreeMap\<close> and for the ordered key-value tables of the
  storage engine, and the two generic interfaces (a key-value map, a
  transition system with an invariant) that the components interpret.
\<close>

named_theorems om_simps "lookups in an ordered map after an update"
named_theorems om_wf "operations that keep an ordered map well formed"
named_theorems str_simps "string operations of the standard library"

type_synonym u8 = "8 word"
type_synonym u32 = "32 word"
type_synonym u64 = "64 word"
type_synonym bytes = "8 word list"

section \<open>Machine integers\<close>

definition saturating_add :: "'a::len word \<Rightarrow> 'a word \<Rightarrow> 'a word" where
  "saturating_add a b = (if a + b < a then - 1 else a + b)"

lemma unat_u32_lt: "unat (w :: u32) < 2 ^ 32"
  using unsigned_less [of w, where 'a = nat] by simp

lemma unat_u64_lt: "unat (w :: u64) < 2 ^ 64"
  using unsigned_less [of w, where 'a = nat] by simp

lemma unat_ucast_u32 [simp]: "unat (ucast (w :: u32) :: u64) = unat w"
  using unat_u32_lt [of w] by (simp add: unsigned_ucast_eq take_bit_eq_mod)

lemma word_less_inc:
  fixes w :: "'a::len word"
  assumes "w \<noteq> - 1"
  shows "w < w + 1"
proof -
  have "w + 1 \<noteq> 0"
    using assms by (metis add_eq_0_iff2)
  then show ?thesis
    using unatSuc [of w] by (simp add: word_less_nat_alt add.commute)
qed

lemma mod_wrap_once:
  fixes x y n :: nat
  assumes "\<not> x + y < n" and "x < n" and "y < n"
  shows "(x + y) mod n = x + y - n"
  using assms by (simp add: le_mod_geq not_less)

lemma unat_saturating_add:
  fixes a b :: "'a::len word"
  shows "unat (saturating_add a b) = min (unat a + unat b) (2 ^ LENGTH('a) - 1)"
proof (cases "unat a + unat b < 2 ^ LENGTH('a)")
  case True
  then have *: "unat (a + b) = unat a + unat b"
    by (simp add: unat_word_ariths)
  then have "\<not> a + b < a"
    by (simp add: word_less_nat_alt)
  moreover have "unat a + unat b \<le> 2 ^ LENGTH('a) - 1"
    using True by linarith
  ultimately show ?thesis
    using * by (simp only: saturating_add_def min_def if_True if_False)
next
  case False
  have a: "unat a < 2 ^ LENGTH('a)" and b: "unat b < 2 ^ LENGTH('a)"
    by (rule unsigned_less)+
  have "unat (a + b) = (unat a + unat b) mod 2 ^ LENGTH('a)"
    by (simp add: unat_word_ariths)
  also have "\<dots> = unat a + unat b - 2 ^ LENGTH('a)"
    using False a b by (rule mod_wrap_once)
  finally have "unat (a + b) < unat a"
    using False a b by linarith
  then have "a + b < a"
    by (simp only: word_less_nat_alt)
  then have "unat (saturating_add a b) = 2 ^ LENGTH('a) - 1"
    by (simp add: saturating_add_def unsigned_minus_1_eq_mask mask_eq_exp_minus_1)
  moreover have "2 ^ LENGTH('a) - 1 \<le> unat a + unat b"
    using False by linarith
  ultimately show ?thesis
    by (simp only: min_absorb2)
qed

lemma saturating_add_ge [simp]:
  fixes a b :: "'a::len word"
  shows "a \<le> saturating_add a b"
proof -
  have "unat a < 2 ^ LENGTH('a)"
    by (rule unsigned_less)
  then have "unat a \<le> 2 ^ LENGTH('a) - 1"
    by linarith
  then show ?thesis
    by (simp add: word_le_nat_alt unat_saturating_add)
qed

section \<open>Strings\<close>

text \<open>Position of the last occurrence of a character, as \<^verbatim>\<open>str::rfind\<close> gives it.\<close>

fun rfind :: "'a \<Rightarrow> 'a list \<Rightarrow> nat option" where
  "rfind c [] = None"
| "rfind c (x # xs) =
     (case rfind c xs of
        Some i \<Rightarrow> Some (Suc i)
      | None \<Rightarrow> if x = c then Some 0 else None)"

text \<open>The parts of \<^verbatim>\<open>s.split(c)\<close>; there is always at least one.\<close>

fun split_on :: "'a \<Rightarrow> 'a list \<Rightarrow> 'a list list" where
  "split_on c [] = [[]]"
| "split_on c (x # xs) =
     (if x = c then [] # split_on c xs
      else (case split_on c xs of
              [] \<Rightarrow> [[x]]
            | p # ps \<Rightarrow> (x # p) # ps))"

fun join_with :: "'a list \<Rightarrow> 'a list list \<Rightarrow> 'a list" where
  "join_with sep [] = []"
| "join_with sep [p] = p"
| "join_with sep (p # q # ps) = p @ sep @ join_with sep (q # ps)"

definition starts_with :: "'a list \<Rightarrow> 'a list \<Rightarrow> bool" where
  "starts_with s p \<longleftrightarrow> take (length p) s = p"

definition ends_with :: "'a list \<Rightarrow> 'a list \<Rightarrow> bool" where
  "ends_with s p \<longleftrightarrow> starts_with (rev s) (rev p)"

definition strip_prefix :: "'a list \<Rightarrow> 'a list \<Rightarrow> 'a list option" where
  "strip_prefix p s = (if starts_with s p then Some (drop (length p) s) else None)"

definition trim_start_matches :: "'a \<Rightarrow> 'a list \<Rightarrow> 'a list" where
  "trim_start_matches c s = dropWhile (\<lambda>x. x = c) s"

definition trim_end_matches :: "'a \<Rightarrow> 'a list \<Rightarrow> 'a list" where
  "trim_end_matches c s = rev (dropWhile (\<lambda>x. x = c) (rev s))"

text \<open>The parts before and after the first occurrence, as \<^verbatim>\<open>str::split_once\<close> gives them.\<close>

definition split_once :: "'a \<Rightarrow> 'a list \<Rightarrow> ('a list \<times> 'a list) option" where
  "split_once c s =
     (case dropWhile (\<lambda>x. x \<noteq> c) s of
        [] \<Rightarrow> None
      | _ # r \<Rightarrow> Some (takeWhile (\<lambda>x. x \<noteq> c) s, r))"

lemma split_once_append [simp]: "c \<notin> set p \<Longrightarrow> split_once c (p @ c # r) = Some (p, r)"
proof -
  assume "c \<notin> set p"
  then have "dropWhile (\<lambda>x. x \<noteq> c) (p @ c # r) = c # r" "takeWhile (\<lambda>x. x \<noteq> c) (p @ c # r) = p"
    by (subst dropWhile_append2 takeWhile_append2; auto)+
  then show ?thesis by (simp add: split_once_def)
qed

lemma split_once_SomeD:
  assumes "split_once c s = Some (p, r)"
  shows "s = p @ c # r \<and> c \<notin> set p"
proof -
  obtain y where y: "dropWhile (\<lambda>x. x \<noteq> c) s = y # r" and p: "p = takeWhile (\<lambda>x. x \<noteq> c) s"
    using assms by (cases "dropWhile (\<lambda>x. x \<noteq> c) s") (auto simp: split_once_def)
  have "y = c"
    using hd_dropWhile [of "\<lambda>x. x \<noteq> c" s] y by simp
  moreover have "c \<notin> set p"
    using p by (auto dest: set_takeWhileD)
  ultimately show ?thesis
    using y p takeWhile_dropWhile_id [of "\<lambda>x. x \<noteq> c" s] by simp
qed

lemma rfind_None [str_simps]: "rfind c s = None \<longleftrightarrow> c \<notin> set s"
  by (induction s) (auto split: option.splits)

lemma rfind_SomeD:
  "rfind c s = Some i \<Longrightarrow> i < length s \<and> s ! i = c \<and> c \<notin> set (drop (Suc i) s)"
proof (induction s arbitrary: i)
  case (Cons x xs)
  show ?case
  proof (cases "rfind c xs")
    case None
    then have "c \<notin> set xs"
      using rfind_None by metis
    with None show ?thesis
      using Cons.prems by (simp split: if_splits)
  next
    case (Some j)
    then show ?thesis
      using Cons by auto
  qed
qed simp

lemma rfind_append [simp]: "c \<notin> set q \<Longrightarrow> rfind c (p @ c # q) = Some (length p)"
proof (induction p)
  case Nil
  then have "rfind c q = None"
    by (simp add: rfind_None)
  then show ?case by simp
qed simp

lemma rfind_lt: "rfind c s = Some i \<Longrightarrow> i < length s"
  by (blast dest: rfind_SomeD)

lemma starts_with_iff [str_simps]: "starts_with s p \<longleftrightarrow> (\<exists>r. s = p @ r)"
  by (metis append_eq_conv_conj append_take_drop_id starts_with_def)

lemma starts_with_append [simp]: "starts_with (p @ r) p"
  by (simp add: starts_with_def)

lemma starts_with_refl [simp]: "starts_with p p"
  by (simp add: starts_with_def)

lemma starts_with_Nil [simp]: "starts_with s []"
  by (simp add: starts_with_def)

lemma starts_with_trans: "starts_with s p \<Longrightarrow> starts_with p q \<Longrightarrow> starts_with s q"
  by (auto simp: starts_with_iff)

lemma ends_with_iff [str_simps]: "ends_with s p \<longleftrightarrow> (\<exists>r. s = r @ p)"
  unfolding ends_with_def starts_with_iff
  by (metis rev_append rev_rev_ident)

lemma strip_prefix_Some [str_simps]: "strip_prefix p s = Some r \<longleftrightarrow> s = p @ r"
  by (auto simp: strip_prefix_def starts_with_iff)

lemma strip_prefix_None [str_simps]: "strip_prefix p s = None \<longleftrightarrow> \<not> starts_with s p"
  by (simp add: strip_prefix_def)

lemma split_on_ne [simp]: "split_on c s \<noteq> []"
  by (induction s) (auto split: list.splits)

lemma split_on_append:
  "c \<notin> set p \<Longrightarrow> split_on c (p @ c # s) = p # split_on c s"
  by (induction p) auto

lemma split_on_fresh [simp]: "c \<notin> set p \<Longrightarrow> split_on c p = [p]"
  by (induction p) auto

lemma split_on_join:
  "ps \<noteq> [] \<Longrightarrow> \<forall>p \<in> set ps. c \<notin> set p \<Longrightarrow> split_on c (join_with [c] ps) = ps"
  by (induction "[c]" ps rule: join_with.induct) (auto simp: split_on_append)

lemma join_split_on: "join_with [c] (split_on c s) = s"
proof (induction s)
  case (Cons x xs)
  then show ?case
    by (cases "split_on c xs"; cases "tl (split_on c xs)") auto
qed simp

lemma split_on_fresh_parts: "p \<in> set (split_on c s) \<Longrightarrow> c \<notin> set p"
proof (induction s arbitrary: p)
  case (Cons x xs)
  then show ?case
    by (auto split: if_splits list.splits)
qed simp

section \<open>Lists\<close>

text \<open>\<^verbatim>\<open>iter_mut().find(p)\<close> followed by a write through the reference found.\<close>

fun update_first :: "('a \<Rightarrow> bool) \<Rightarrow> ('a \<Rightarrow> 'a) \<Rightarrow> 'a list \<Rightarrow> 'a list" where
  "update_first P f [] = []"
| "update_first P f (x # xs) = (if P x then f x # xs else x # update_first P f xs)"

lemma length_update_first [simp]: "length (update_first P f xs) = length xs"
  by (induction xs) auto

lemma update_first_map:
  "(\<And>x. g (f x) = g x) \<Longrightarrow> map g (update_first P f xs) = map g xs"
  by (induction xs) auto

lemma set_update_first: "set (update_first P f xs) \<subseteq> set xs \<union> f ` set xs"
  by (induction xs) auto

lemma update_first_hit:
  "\<exists>x \<in> set xs. P x \<Longrightarrow> \<exists>x \<in> set xs. P x \<and> f x \<in> set (update_first P f xs)"
  by (induction xs) auto

lemma update_first_Nil_iff [simp]: "update_first P f xs = [] \<longleftrightarrow> xs = []"
  by (cases xs) auto

text \<open>
  The half-open interval from \<^verbatim>\<open>p c\<close> to \<^verbatim>\<open>p d\<close>, where \<^verbatim>\<open>d\<close> is the character after
  \<^verbatim>\<open>c\<close>, holds exactly the strings that start with \<^verbatim>\<open>p c\<close>.
\<close>

lemma prefix_interval:
  fixes c d :: "'a::linorder"
  assumes cd: "c < d" and gap: "\<forall>x. \<not> (c < x \<and> x < d)"
  shows "p @ [c] \<le> k \<and> k < p @ [d] \<longleftrightarrow> starts_with k (p @ [c])"
proof (induction p arbitrary: k)
  case Nil
  show ?case
  proof (cases k)
    case (Cons x r)
    have "c < x \<or> x = c \<or> x < c" by (auto simp: not_less_iff_gr_or_eq)
    then show ?thesis
      using Cons cd gap spec [OF gap, of x]
      by (elim disjE) (auto simp: starts_with_def)
  qed (simp add: starts_with_def)
next
  case (Cons a p)
  show ?case
    using Cons.IH [of "tl k"] by (cases k) (auto simp: starts_with_def)
qed

section \<open>Ordered maps\<close>

text \<open>
  A \<^verbatim>\<open>BTreeMap\<close>, or an ordered table of the storage engine, is the list of its
  entries in ascending key order.  Lookup is \<^const>\<open>map_of\<close>; a range scan is the
  sublist of the keys inside the half-open interval.
\<close>

type_synonym ('k, 'v) omap = "('k \<times> 'v) list"

fun om_put :: "'k::linorder \<Rightarrow> 'v \<Rightarrow> ('k, 'v) omap \<Rightarrow> ('k, 'v) omap" where
  "om_put k v [] = [(k, v)]"
| "om_put k v ((k', v') # m) =
     (if k < k' then (k, v) # (k', v') # m
      else if k = k' then (k, v) # m
      else (k', v') # om_put k v m)"

definition om_del :: "'k \<Rightarrow> ('k, 'v) omap \<Rightarrow> ('k, 'v) omap" where
  "om_del k m = filter (\<lambda>e. fst e \<noteq> k) m"

definition om_range :: "'k::linorder \<Rightarrow> 'k \<Rightarrow> ('k, 'v) omap \<Rightarrow> ('k, 'v) omap" where
  "om_range lo hi m = filter (\<lambda>e. lo \<le> fst e \<and> fst e < hi) m"

definition om_wf :: "('k::linorder, 'v) omap \<Rightarrow> bool" where
  "om_wf m \<longleftrightarrow> sorted_wrt (<) (map fst m)"

lemma om_wf_Nil [simp]: "om_wf []"
  by (simp add: om_wf_def)

lemma om_wf_Cons: "om_wf (e # m) \<longleftrightarrow> (\<forall>x \<in> set m. fst e < fst x) \<and> om_wf m"
  by (auto simp: om_wf_def)

lemma om_wf_distinct: "om_wf m \<Longrightarrow> distinct (map fst m)"
  by (simp add: om_wf_def strict_sorted_iff)

lemma om_put_lookup [simp, om_simps]: "map_of (om_put k v m) = (map_of m)(k \<mapsto> v)"
  by (induction k v m rule: om_put.induct) (auto simp: fun_eq_iff)

lemma om_del_lookup [simp, om_simps]: "map_of (om_del k m) = (map_of m)(k := None)"
  unfolding om_del_def by (induction m) (auto simp: fun_eq_iff)

lemma set_om_put_sub: "set (om_put k v m) \<subseteq> insert (k, v) (set m)"
  by (induction k v m rule: om_put.induct) auto

lemma om_put_wf [simp, om_wf]: "om_wf m \<Longrightarrow> om_wf (om_put k v m)"
proof (induction k v m rule: om_put.induct)
  case (2 k v k' v' m)
  then show ?case
    using set_om_put_sub [of k v m] by (fastforce simp: om_wf_Cons)
qed (simp add: om_wf_Cons)

lemma om_filter_wf [simp, om_wf]: "om_wf m \<Longrightarrow> om_wf (filter P m)"
  by (induction m) (auto simp: om_wf_Cons)

lemma om_del_wf [simp, om_wf]: "om_wf m \<Longrightarrow> om_wf (om_del k m)"
  by (simp add: om_del_def)

lemma om_range_wf [simp, om_wf]: "om_wf m \<Longrightarrow> om_wf (om_range lo hi m)"
  by (simp add: om_range_def)

lemma om_lookup_iff: "om_wf m \<Longrightarrow> map_of m k = Some v \<longleftrightarrow> (k, v) \<in> set m"
  by (simp add: om_wf_distinct)

lemma om_set_put: "om_wf m \<Longrightarrow> set (om_put k v m) = insert (k, v) {e \<in> set m. fst e \<noteq> k}"
proof -
  assume wf: "om_wf m"
  have "e \<in> set (om_put k v m) \<longleftrightarrow> e \<in> insert (k, v) {e \<in> set m. fst e \<noteq> k}" for e
    using wf om_lookup_iff [of "om_put k v m" "fst e" "snd e"]
      om_lookup_iff [of m "fst e" "snd e"]
    by (auto simp: prod_eq_iff split: if_splits)
  then show ?thesis by blast
qed

lemma om_set_del: "set (om_del k m) = {e \<in> set m. fst e \<noteq> k}"
  by (auto simp: om_del_def)

lemma map_of_None_keys: "map_of m k = None \<longleftrightarrow> (\<forall>e \<in> set m. fst e \<noteq> k)"
  by (auto simp: map_of_eq_None_iff)

text \<open>Two well-formed maps with the same lookups are the same list of entries.\<close>

lemma om_dels_lookup: "map_of (fold om_del ks m) k = (if k \<in> set ks then None else map_of m k)"
  by (induction ks arbitrary: m) auto

lemma om_dels_set: "set (fold om_del ks m) = {e \<in> set m. fst e \<notin> set ks}"
  by (induction ks arbitrary: m) (auto simp: om_set_del)

lemma om_dels_wf: "om_wf m \<Longrightarrow> om_wf (fold om_del ks m)"
  by (induction ks arbitrary: m) auto

lemma om_lookup_fst: "om_wf m \<Longrightarrow> k \<in> fst ` set m \<longleftrightarrow> map_of m k \<noteq> None"
  using map_of_None_keys [of m k] by auto

lemma om_last_key:
  assumes "om_wf m" and "m \<noteq> []"
  shows "map_of m (fst (last m)) \<noteq> None" and "map_of m k \<noteq> None \<Longrightarrow> k \<le> fst (last m)"
proof -
  have "sorted_wrt (<) (map fst m)"
    using assms(1) by (simp add: om_wf_def)
  moreover obtain m' e where m: "m = m' @ [e]"
    using assms(2) by (cases m rule: rev_cases) auto
  ultimately have lt: "\<forall>x \<in> set m'. fst x < fst e"
    by (auto simp: sorted_wrt_append)
  show "map_of m (fst (last m)) \<noteq> None"
    unfolding om_lookup_fst [OF assms(1), symmetric] by (simp add: m)
  show "k \<le> fst (last m)" if "map_of m k \<noteq> None"
    using that lt unfolding om_lookup_fst [OF assms(1), symmetric] by (auto simp: m intro: less_imp_le)
qed

lemma om_ext:
  assumes "om_wf m" and "om_wf n" and "map_of m = map_of n"
  shows "m = n"
proof -
  have eq: "set m = set n"
    using assms om_wf_distinct map_of_inject_set by blast
  have d: "distinct (map fst m)" "distinct (map fst n)"
    and o: "sorted (map fst m)" "sorted (map fst n)"
    using assms by (auto simp: om_wf_def strict_sorted_iff)
  moreover have "inj_on fst (set m \<union> set n)"
    using d(1) eq by (simp add: distinct_map)
  ultimately show ?thesis
    using eq by (metis map_sorted_distinct_set_unique)
qed

text \<open>Rows of one kind, selected by a predicate on the key.\<close>

lemma om_filter_put_out:
  "\<not> P k \<Longrightarrow> filter (\<lambda>e. P (fst e)) (om_put k v m) = filter (\<lambda>e. P (fst e)) m"
  by (induction k v m rule: om_put.induct) auto

lemma om_put_below: "\<forall>e \<in> set m. k < fst e \<Longrightarrow> om_put k v m = (k, v) # m"
  by (cases m) auto

lemma om_filter_put_in:
  "om_wf m \<Longrightarrow> P k \<Longrightarrow> filter (\<lambda>e. P (fst e)) (om_put k v m) = om_put k v (filter (\<lambda>e. P (fst e)) m)"
proof (induction k v m rule: om_put.induct)
  case (2 k v k' v' m)
  then have m: "\<forall>x \<in> set m. k' < fst x" "om_wf m"
    by (simp_all add: om_wf_Cons)
  show ?case
  proof (cases "k < k'")
    case True
    then have "\<forall>e \<in> set (filter (\<lambda>e. P (fst e)) m). k < fst e"
      using m(1) by force
    then show ?thesis
      using True 2(3) by (simp add: om_put_below)
  next
    case False
    then show ?thesis
      using 2 m by auto
  qed
qed simp

lemma om_put_above: "\<forall>e \<in> set m. fst e < k \<Longrightarrow> om_put k v m = m @ [(k, v)]"
  by (induction k v m rule: om_put.induct) auto

lemma om_filter_del: "filter P (om_del k m) = om_del k (filter P m)"
  by (simp add: om_del_def conj_commute)

lemma om_del_out: "\<forall>e \<in> set m. fst e \<noteq> k \<Longrightarrow> om_del k m = m"
  by (simp add: om_del_def)

lemma om_filter_dels: "filter P (fold om_del ks m) = fold om_del ks (filter P m)"
  by (induction ks arbitrary: m) (simp_all add: om_filter_del)

lemma om_dels_out: "\<forall>x \<in> set m. fst x \<notin> set ks \<Longrightarrow> fold om_del ks m = m"
  by (induction ks arbitrary: m) (simp_all add: om_del_out)

lemma om_dels_filter: "fold om_del ks m = filter (\<lambda>x. fst x \<notin> set ks) m"
  by (induction ks arbitrary: m) (auto simp: om_del_def intro: filter_cong)

lemma map_of_filter_key: "P k \<Longrightarrow> map_of (filter (\<lambda>e. P (fst e)) m) k = map_of m k"
  by (induction m) auto

text \<open>The keys between a string and its extension by one character extend the string.\<close>

lemma list_less_same_prefix [simp]: "p @ a < p @ b \<longleftrightarrow> a < (b :: 'a::linorder list)"
  by (induction p) auto

lemma list_le_same_prefix [simp]: "p @ a \<le> p @ b \<longleftrightarrow> a \<le> (b :: 'a::linorder list)"
  by (induction p) auto

lemma prefix_range:
  fixes x z :: "'a::linorder list"
  shows "x \<le> z \<and> z \<le> x @ [c] \<longleftrightarrow> (\<exists>w. z = x @ w \<and> w \<le> [c])"
proof (induction x arbitrary: z)
  case (Cons a x)
  show ?case
    using Cons.IH by (cases z) (auto simp: less_le_not_le)
qed simp

section \<open>Interfaces\<close>

text \<open>
  What a client of a key-value map relies on: reads after writes, and the
  order invariant.  A bulk load is proved once: the last value written for a
  key wins, and every other key keeps its old value.
\<close>

locale kv_map =
  fixes lookup :: "'m \<Rightarrow> 'k \<Rightarrow> 'v option"
    and put :: "'k \<Rightarrow> 'v \<Rightarrow> 'm \<Rightarrow> 'm"
    and del :: "'k \<Rightarrow> 'm \<Rightarrow> 'm"
    and wf :: "'m \<Rightarrow> bool"
  assumes lookup_put: "lookup (put k v m) k' = (if k' = k then Some v else lookup m k')"
    and lookup_del: "lookup (del k m) k' = (if k' = k then None else lookup m k')"
    and wf_put: "wf m \<Longrightarrow> wf (put k v m)"
    and wf_del: "wf m \<Longrightarrow> wf (del k m)"
    and wf_ext: "wf m \<Longrightarrow> wf n \<Longrightarrow> (\<And>k. lookup m k = lookup n k) \<Longrightarrow> m = n"
begin

lemma bulk_lookup:
  "lookup (fold (\<lambda>(k, v). put k v) kvs m) k =
     (case map_of (rev kvs) k of Some v \<Rightarrow> Some v | None \<Rightarrow> lookup m k)"
  by (induction kvs arbitrary: m)
    (auto simp: lookup_put map_add_def split: option.splits)

lemma bulk_wf: "wf m \<Longrightarrow> wf (fold (\<lambda>(k, v). put k v) kvs m)"
  by (induction kvs arbitrary: m) (auto simp: wf_put)

lemma del_put: "wf m \<Longrightarrow> lookup m k = None \<Longrightarrow> del k (put k v m) = m"
  by (rule wf_ext) (auto simp: lookup_put lookup_del wf_put wf_del)

lemma put_put: "wf m \<Longrightarrow> put k v (put k w m) = put k v m"
  by (rule wf_ext) (auto simp: lookup_put wf_put)

lemma put_commute: "wf m \<Longrightarrow> k \<noteq> l \<Longrightarrow> put k v (put l w m) = put l w (put k v m)"
  by (rule wf_ext) (auto simp: lookup_put wf_put)

lemma put_lookup: "wf m \<Longrightarrow> lookup m k = Some v \<Longrightarrow> put k v m = m"
  by (rule wf_ext) (auto simp: lookup_put wf_put)

end

interpretation om: kv_map map_of om_put om_del om_wf
  by unfold_locales (auto intro: om_ext)

text \<open>
  A component whose operations keep an invariant: every state its operations
  reach from an initial one satisfies it.
\<close>

locale transition_system =
  fixes step :: "'op \<Rightarrow> 's \<Rightarrow> 's"
    and inv :: "'s \<Rightarrow> bool"
    and init :: "'s"
  assumes init_inv: "inv init"
    and step_inv: "inv s \<Longrightarrow> inv (step a s)"
begin

lemma run_inv: "inv s \<Longrightarrow> inv (fold step ops s)"
  by (induction ops arbitrary: s) (auto simp: step_inv)

lemma reach_inv: "inv (fold step ops init)"
  by (rule run_inv) (rule init_inv)

lemma reach_snoc_inv: "inv (step a (fold step ops init))"
  by (rule step_inv) (rule reach_inv)

end

text \<open>
  An encoding of values as keys that may refuse some values: every value it is
  meant for has a key that decodes to it, so distinct such values have distinct
  keys.
\<close>

locale key_codec =
  fixes enc :: "'a \<Rightarrow> 'k option"
    and dec :: "'k \<Rightarrow> 'a option"
    and ok :: "'a \<Rightarrow> bool"
  assumes enc_dec: "ok a \<Longrightarrow> \<exists>k. enc a = Some k \<and> dec k = Some a"
begin

lemma enc_inj: "ok a \<Longrightarrow> ok b \<Longrightarrow> enc a = enc b \<Longrightarrow> a = b"
  using enc_dec [of a] enc_dec [of b] by auto

lemma dec_enc: "ok a \<Longrightarrow> enc a = Some k \<Longrightarrow> dec k = Some a"
  using enc_dec [of a] by auto

end

end
