(* ===== verification/Lock_State.thy ===== *)
theory Lock_State
  imports Nexus_Prelude
begin

text \<open>
  The advisory-lock table of \<^verbatim>\<open>contracts/src/lock_state.rs\<close>: one ordered map from
  paths to lock entries, shared by the kernel's lock manager and the raft state
  machine, with the transitions \<^verbatim>\<open>apply_acquire\<close>, \<^verbatim>\<open>apply_release\<close>,
  \<^verbatim>\<open>apply_force_release\<close>, \<^verbatim>\<open>apply_extend\<close> and \<^verbatim>\<open>gc_expired\<close> and the reads
  \<^verbatim>\<open>get_lock\<close> and \<^verbatim>\<open>list_locks\<close>.  The lemmas show that the two hierarchy helpers
  compute exactly the strict ancestors and descendants of a path, that every
  reachable table has distinct holders within capacity and no two held paths
  of which one contains the other, when an acquire succeeds, and what the
  table holds after it.
\<close>

section \<open>Data\<close>

record HolderInfo =
  lock_id :: string
  holder_info :: string
  acquired_at :: u64
  expires_at :: u64

record LockInfo =
  li_path :: string
  li_max_holders :: u32
  li_holders :: "HolderInfo list"

record LockAcquireResult =
  lr_acquired :: bool
  lr_current_holders :: u32
  lr_max_holders :: u32
  lr_holders :: "HolderInfo list"

record LockEntry =
  max_holders :: u32
  holders :: "HolderInfo list"

record LockState =
  locks :: "(string, LockEntry) omap"

definition entry_default :: LockEntry where
  "entry_default = \<lparr>max_holders = 0, holders = []\<rparr>"

definition entry_is_empty :: "LockEntry \<Rightarrow> bool" where
  "entry_is_empty e \<longleftrightarrow> holders e = []"

section \<open>Hierarchy helpers\<close>

function ancestors_loop :: "string \<Rightarrow> nat \<Rightarrow> string list" where
  "ancestors_loop path end =
     (case rfind (CHR ''/'') (take end path) of
        None \<Rightarrow> []
      | Some pos \<Rightarrow>
          if pos = 0 then [''/'']
          else take pos path # ancestors_loop path pos)"
  by pat_completeness auto
termination
  by (relation "measure snd") (auto dest: rfind_lt)

declare ancestors_loop.simps [simp del]

definition ancestors :: "string \<Rightarrow> string list" where
  "ancestors path =
     (if path = ''/'' \<or> path = [] then [] else ancestors_loop path (length path))"

definition descendant_range :: "string \<Rightarrow> string \<times> string" where
  "descendant_range path =
     (let pre = (if ends_with path ''/'' then path else path @ ''/'')
      in (pre, butlast pre @ ''0''))"

section \<open>Transitions\<close>

definition lock_state_new :: LockState where
  "lock_state_new = \<lparr>locks = []\<rparr>"

definition retain_live :: "u64 \<Rightarrow> HolderInfo list \<Rightarrow> HolderInfo list" where
  "retain_live now hs = filter (\<lambda>h. now < expires_at h) hs"

definition prune_expired :: "u64 \<Rightarrow> LockState \<Rightarrow> LockState" where
  "prune_expired now s =
     s\<lparr>locks := filter (\<lambda>e. \<not> entry_is_empty (snd e))
                (map (\<lambda>(k, e). (k, e\<lparr>holders := retain_live now (holders e)\<rparr>)) (locks s))\<rparr>"

definition ancestor_conflict :: "LockState \<Rightarrow> string \<Rightarrow> bool" where
  "ancestor_conflict s path \<longleftrightarrow>
     list_ex (\<lambda>anc. case map_of (locks s) anc of
                      None \<Rightarrow> False
                    | Some e \<Rightarrow> \<not> entry_is_empty e) (ancestors path)"

definition descendant_conflict :: "LockState \<Rightarrow> string \<Rightarrow> bool" where
  "descendant_conflict s path \<longleftrightarrow>
     (case descendant_range path of
        (lo, hi) \<Rightarrow> list_ex (\<lambda>(_, e). \<not> entry_is_empty e) (om_range lo hi (locks s)))"

definition accepts_new_holder :: "LockEntry \<Rightarrow> bool" where
  "accepts_new_holder e \<longleftrightarrow> (word_of_nat (length (holders e)) :: u32) < max_holders e"

definition to_result :: "LockEntry \<Rightarrow> bool \<Rightarrow> LockAcquireResult" where
  "to_result e acquired =
     \<lparr>lr_acquired = acquired, lr_current_holders = word_of_nat (length (holders e)),
      lr_max_holders = max_holders e, lr_holders = holders e\<rparr>"

definition empty_result :: "u32 \<Rightarrow> LockAcquireResult" where
  "empty_result maxh =
     \<lparr>lr_acquired = False, lr_current_holders = 0, lr_max_holders = maxh, lr_holders = []\<rparr>"

text \<open>
  The part of \<^verbatim>\<open>apply_acquire\<close> that works through the mutable reference to the
  entry: whether the lock was acquired, and the entry it leaves.
\<close>

definition acquire_entry ::
  "string \<Rightarrow> u32 \<Rightarrow> string \<Rightarrow> u64 \<Rightarrow> u64 \<Rightarrow> LockEntry \<Rightarrow> bool \<times> LockEntry" where
  "acquire_entry lid maxh info now expires e0 =
     (let e1 = e0\<lparr>holders := retain_live now (holders e0)\<rparr> in
      if list_ex (\<lambda>h. lock_id h = lid) (holders e1)
      then (True, e1\<lparr>holders := update_first (\<lambda>h. lock_id h = lid)
                                 (\<lambda>h. h\<lparr>expires_at := expires\<rparr>) (holders e1)\<rparr>)
      else if holders e1 \<noteq> [] \<and> max_holders e1 \<noteq> maxh then (False, e1)
      else let e2 = (if holders e1 = [] then e1\<lparr>max_holders := maxh\<rparr> else e1)
           in if accepts_new_holder e2
              then (True, e2\<lparr>holders := holders e2 @
                      [\<lparr>lock_id = lid, holder_info = info, acquired_at = now,
                        expires_at = expires\<rparr>]\<rparr>)
              else (False, e2))"

definition apply_acquire ::
  "string \<Rightarrow> string \<Rightarrow> u32 \<Rightarrow> u32 \<Rightarrow> string \<Rightarrow> u64 \<Rightarrow> LockState
     \<Rightarrow> LockAcquireResult \<times> LockState" where
  "apply_acquire path lid maxh ttl info now s =
     (if ancestor_conflict s path \<or> descendant_conflict s path
      then (empty_result maxh, s)
      else
        let expires = saturating_add now (ucast ttl);
            e0 = (case map_of (locks s) path of Some e \<Rightarrow> e | None \<Rightarrow> entry_default);
            (acquired, e) = acquire_entry lid maxh info now expires e0
        in (to_result e acquired, s\<lparr>locks := om_put path e (locks s)\<rparr>))"

definition apply_release :: "string \<Rightarrow> string \<Rightarrow> LockState \<Rightarrow> bool \<times> LockState" where
  "apply_release path lid s =
     (case map_of (locks s) path of
        None \<Rightarrow> (False, s)
      | Some e \<Rightarrow>
          let e' = e\<lparr>holders := filter (\<lambda>h. lock_id h \<noteq> lid) (holders e)\<rparr>;
              removed = (length (holders e') < length (holders e))
          in (removed,
              s\<lparr>locks := (if entry_is_empty e' then om_del path (locks s)
                         else om_put path e' (locks s))\<rparr>))"

definition apply_force_release :: "string \<Rightarrow> LockState \<Rightarrow> bool \<times> LockState" where
  "apply_force_release path s =
     (map_of (locks s) path \<noteq> None, s\<lparr>locks := om_del path (locks s)\<rparr>)"

definition apply_extend ::
  "string \<Rightarrow> string \<Rightarrow> u32 \<Rightarrow> u64 \<Rightarrow> LockState \<Rightarrow> bool \<times> LockState" where
  "apply_extend path lid ttl now s =
     (let expires = saturating_add now (ucast ttl) in
      case map_of (locks s) path of
        None \<Rightarrow> (False, s)
      | Some e \<Rightarrow>
          let e1 = e\<lparr>holders := retain_live now (holders e)\<rparr> in
          if list_ex (\<lambda>h. lock_id h = lid) (holders e1)
          then (True,
                s\<lparr>locks := om_put path
                     (e1\<lparr>holders := update_first (\<lambda>h. lock_id h = lid)
                                    (\<lambda>h. h\<lparr>expires_at := expires\<rparr>) (holders e1)\<rparr>)
                     (locks s)\<rparr>)
          else (False,
                s\<lparr>locks := (if entry_is_empty e1 then om_del path (locks s)
                           else om_put path e1 (locks s))\<rparr>))"

definition get_lock :: "LockState \<Rightarrow> string \<Rightarrow> LockInfo option" where
  "get_lock s path =
     (case map_of (locks s) path of
        None \<Rightarrow> None
      | Some e \<Rightarrow>
          if holders e = [] then None
          else Some \<lparr>li_path = path, li_max_holders = max_holders e, li_holders = holders e\<rparr>)"

fun list_locks_loop :: "(string, LockEntry) omap \<Rightarrow> string \<Rightarrow> nat \<Rightarrow> LockInfo list \<Rightarrow> LockInfo list" where
  "list_locks_loop [] pre limit out = out"
| "list_locks_loop ((key, e) # rest) pre limit out =
     (if limit \<le> length out then out
      else if starts_with key pre \<and> holders e \<noteq> []
      then list_locks_loop rest pre limit
             (out @ [\<lparr>li_path = key, li_max_holders = max_holders e, li_holders = holders e\<rparr>])
      else list_locks_loop rest pre limit out)"

definition list_locks :: "LockState \<Rightarrow> string \<Rightarrow> nat \<Rightarrow> LockInfo list" where
  "list_locks s pre limit = list_locks_loop (locks s) pre limit []"

definition gc_expired :: "u64 \<Rightarrow> LockState \<Rightarrow> LockState" where
  "gc_expired now s = prune_expired now s"

text \<open>The mutations, as one step function over the operations of the table.\<close>

datatype LockOp =
    Acquire string string u32 u32 string u64
  | Release string string
  | ForceRelease string
  | Extend string string u32 u64
  | Gc u64

fun lock_step :: "LockOp \<Rightarrow> LockState \<Rightarrow> LockState" where
  "lock_step (Acquire path lid maxh ttl info now) s = snd (apply_acquire path lid maxh ttl info now s)"
| "lock_step (Release path lid) s = snd (apply_release path lid s)"
| "lock_step (ForceRelease path) s = snd (apply_force_release path s)"
| "lock_step (Extend path lid ttl now) s = snd (apply_extend path lid ttl now s)"
| "lock_step (Gc now) s = gc_expired now s"

section \<open>The invariant\<close>

definition entry_ok :: "LockEntry \<Rightarrow> bool" where
  "entry_ok e \<longleftrightarrow>
     length (holders e) \<le> unat (max_holders e) \<and> distinct (map lock_id (holders e))"

definition held :: "LockState \<Rightarrow> string \<Rightarrow> bool" where
  "held s p \<longleftrightarrow> get_lock s p \<noteq> None"

definition lock_inv :: "LockState \<Rightarrow> bool" where
  "lock_inv s \<longleftrightarrow>
     om_wf (locks s) \<and>
     (\<forall>x \<in> set (locks s). entry_ok (snd x)) \<and>
     (\<forall>x \<in> set (locks s). held s (fst x) \<longrightarrow> (\<forall>a \<in> set (ancestors (fst x)). \<not> held s a))"

section \<open>The hierarchy helpers\<close>

lemma ancestors_loop_iff:
  "q \<in> set (ancestors_loop path n) \<longleftrightarrow>
     (\<exists>pos < min n (length path). path ! pos = CHR ''/'' \<and>
        q = (if pos = 0 then ''/'' else take pos path))"
proof (induction path n rule: ancestors_loop.induct)
  case (1 path n)
  let ?t = "take n path"
  show ?case
  proof (cases "rfind (CHR ''/'') ?t")
    case None
    then have "CHR ''/'' \<notin> set ?t"
      by (simp add: rfind_None)
    then have "\<forall>pos < min n (length path). path ! pos \<noteq> CHR ''/''"
      by (auto simp: in_set_conv_nth)
    with None show ?thesis
      by (subst ancestors_loop.simps) auto
  next
    case (Some pos)
    then have pos: "pos < min n (length path)" "path ! pos = CHR ''/''"
      and after: "CHR ''/'' \<notin> set (drop (Suc pos) ?t)"
      using rfind_SomeD [OF Some] by auto
    have last: "i \<le> pos" if "i < min n (length path)" "path ! i = CHR ''/''" for i
    proof (rule ccontr)
      assume "\<not> i \<le> pos"
      then have "drop (Suc pos) ?t ! (i - Suc pos) = path ! i"
        and "i - Suc pos < length (drop (Suc pos) ?t)"
        using that by auto
      then show False
        using after that(2) nth_mem by metis
    qed
    show ?thesis
    proof (cases "pos = 0")
      case True
      with Some pos last show ?thesis
        by (subst ancestors_loop.simps) auto
    next
      case False
      define P where "P i \<longleftrightarrow> path ! i = CHR ''/'' \<and>
          q = (if i = 0 then ''/'' else take i path)" for i
      have "min pos (length path) = pos"
        using pos by simp
      then have "q \<in> set (ancestors_loop path pos) \<longleftrightarrow> (\<exists>i < pos. P i)"
        using 1 [OF Some False] by (simp add: P_def)
      moreover have "q = take pos path \<longleftrightarrow> P pos"
        using pos(2) False by (simp add: P_def)
      ultimately have "q \<in> set (ancestors_loop path n) \<longleftrightarrow> (\<exists>i \<le> pos. P i)"
        using Some False by (subst ancestors_loop.simps) (auto simp: le_less)
      also have "\<dots> \<longleftrightarrow> (\<exists>i < min n (length path). P i)"
      proof
        assume "\<exists>i \<le> pos. P i"
        then show "\<exists>i < min n (length path). P i"
          using pos(1) le_less_trans by blast
      next
        assume "\<exists>i < min n (length path). P i"
        then obtain i where i: "i < min n (length path)" "P i" by blast
        then have "i \<le> pos"
          using last by (simp add: P_def)
        with i(2) show "\<exists>i \<le> pos. P i" by blast
      qed
      also have "\<dots> \<longleftrightarrow> (\<exists>i < min n (length path). path ! i = CHR ''/'' \<and>
          q = (if i = 0 then ''/'' else take i path))"
        by (simp only: P_def)
      finally show ?thesis .
    qed
  qed
qed

lemma ancestors_iff:
  "q \<in> set (ancestors p) \<longleftrightarrow>
     (q \<noteq> [] \<and> (\<exists>r. p = q @ ''/'' @ r)) \<or> (q = ''/'' \<and> (\<exists>r. r \<noteq> [] \<and> p = ''/'' @ r))"
proof (cases "p = ''/'' \<or> p = []")
  case True
  then show ?thesis
    by (auto simp: ancestors_def Cons_eq_append_conv)
next
  case False
  have "q \<in> set (ancestors p) \<longleftrightarrow> (\<exists>pos < length p. p ! pos = CHR ''/'' \<and>
      q = (if pos = 0 then ''/'' else take pos p))"
    using False by (simp add: ancestors_def ancestors_loop_iff)
  also have "\<dots> \<longleftrightarrow> (\<exists>pos. 0 < pos \<and> pos < length p \<and> p ! pos = CHR ''/'' \<and> q = take pos p) \<or>
      (q = ''/'' \<and> p ! 0 = CHR ''/'')"
    (is "?A \<longleftrightarrow> ?B")
  proof
    assume ?A
    then obtain pos where "pos < length p" "p ! pos = CHR ''/''"
      "q = (if pos = 0 then ''/'' else take pos p)" by blast
    then show ?B by (cases "pos = 0") auto
  next
    have "0 < length p" using False by simp
    moreover assume ?B
    ultimately show ?A by (metis less_numeral_extra(3))
  qed
  also have "(q = ''/'' \<and> p ! 0 = CHR ''/'') \<longleftrightarrow> (q = ''/'' \<and> (\<exists>r. r \<noteq> [] \<and> p = ''/'' @ r))"
    using False by (cases p) auto
  also have "(\<exists>pos. 0 < pos \<and> pos < length p \<and> p ! pos = CHR ''/'' \<and> q = take pos p) \<longleftrightarrow>
      (q \<noteq> [] \<and> (\<exists>r. p = q @ ''/'' @ r))"
    (is "?L \<longleftrightarrow> ?R")
  proof
    assume ?L
    then obtain pos where pos: "0 < pos" "pos < length p" "p ! pos = CHR ''/''" "q = take pos p"
      by blast
    then have "p = q @ ''/'' @ drop (Suc pos) p"
      using id_take_nth_drop [of pos p] by simp
    moreover have "q \<noteq> []"
      using pos by auto
    ultimately show ?R by blast
  next
    assume ?R
    then obtain r where "p = q @ ''/'' @ r" "q \<noteq> []" by blast
    then show ?L
      by (intro exI [of _ "length q"]) auto
  qed
  finally show ?thesis .
qed

lemma slash_zero_adjacent: "\<forall>x. \<not> (CHR ''/'' < x \<and> x < CHR ''0'')"
  by (auto simp: less_char_def)

lemma descendant_range_iff:
  "fst (descendant_range p) \<le> k \<and> k < snd (descendant_range p) \<longleftrightarrow>
     starts_with k (fst (descendant_range p))"
proof -
  obtain q where q: "descendant_range p = (q @ ''/'', q @ ''0'')"
    by (cases "ends_with p ''/''") (auto simp: descendant_range_def ends_with_iff butlast_append)
  show ?thesis
    using prefix_interval [of "CHR ''/''" "CHR ''0''" q k] slash_zero_adjacent
    by (simp add: q less_char_def)
qed

lemma descendant_range_fst:
  "fst (descendant_range p) = (if ends_with p ''/'' then p else p @ ''/'')"
  by (simp add: descendant_range_def Let_def)

lemma ancestor_in_descendant_range:
  "p \<in> set (ancestors q) \<Longrightarrow> starts_with q (fst (descendant_range p))"
  by (auto simp: ancestors_iff descendant_range_fst starts_with_iff ends_with_iff)

section \<open>Conflicts\<close>

lemma held_iff: "held s p \<longleftrightarrow> (\<exists>e. map_of (locks s) p = Some e \<and> holders e \<noteq> [])"
  by (auto simp: held_def get_lock_def split: option.splits)

lemma ancestor_conflict_iff:
  "ancestor_conflict s p \<longleftrightarrow> (\<exists>a \<in> set (ancestors p). held s a)"
  by (auto simp: ancestor_conflict_def list_ex_iff held_iff entry_is_empty_def split: option.splits)

lemma descendant_conflict_iff:
  assumes "om_wf (locks s)"
  shows "descendant_conflict s p \<longleftrightarrow>
     (\<exists>k. held s k \<and> starts_with k (fst (descendant_range p)))"
proof -
  have "descendant_conflict s p \<longleftrightarrow>
      (\<exists>k e. (k, e) \<in> set (locks s) \<and> holders e \<noteq> [] \<and>
        starts_with k (fst (descendant_range p)))"
    unfolding descendant_range_iff [symmetric]
    by (fastforce simp: descendant_conflict_def list_ex_iff om_range_def entry_is_empty_def
        split: prod.splits)
  then show ?thesis
    by (auto simp: held_iff om_lookup_iff [OF assms])
qed

lemma lock_inv_alt:
  "lock_inv s \<longleftrightarrow> om_wf (locks s) \<and> (\<forall>p e. map_of (locks s) p = Some e \<longrightarrow> entry_ok e) \<and>
     (\<forall>p q. held s p \<longrightarrow> held s q \<longrightarrow> p \<notin> set (ancestors q))"
proof (cases "om_wf (locks s)")
  case True
  have "(\<forall>x \<in> set (locks s). entry_ok (snd x)) \<longleftrightarrow>
      (\<forall>p e. map_of (locks s) p = Some e \<longrightarrow> entry_ok e)"
    by (auto simp: om_lookup_iff [OF True])
  moreover have "(\<forall>x \<in> set (locks s). held s (fst x) \<longrightarrow> (\<forall>a \<in> set (ancestors (fst x)). \<not> held s a))
      \<longleftrightarrow> (\<forall>p q. held s p \<longrightarrow> held s q \<longrightarrow> p \<notin> set (ancestors q))"
    by (fastforce simp: held_iff om_lookup_iff [OF True])
  ultimately show ?thesis
    using True by (simp add: lock_inv_def)
qed (simp add: lock_inv_def)

lemma lock_invI:
  assumes "om_wf (locks s)"
    and "\<And>p e. map_of (locks s) p = Some e \<Longrightarrow> entry_ok e"
    and "\<And>p q. held s p \<Longrightarrow> held s q \<Longrightarrow> p \<notin> set (ancestors q)"
  shows "lock_inv s"
  using assms by (simp add: lock_inv_alt)

lemma lock_invD:
  assumes "lock_inv s"
  shows "om_wf (locks s)"
    and "map_of (locks s) p = Some e \<Longrightarrow> entry_ok e"
    and "held s p \<Longrightarrow> held s q \<Longrightarrow> p \<notin> set (ancestors q)"
  using assms by (auto simp: lock_inv_alt)

section \<open>Every operation keeps the invariant\<close>

text \<open>
  A write to one path keeps the invariant when the new entry is well formed
  and, unless the path was held before, nothing above or below it is held.
\<close>

lemma held_put: "held (s\<lparr>locks := om_put p e (locks s)\<rparr>) q \<longleftrightarrow>
    (if q = p then holders e \<noteq> [] else held s q)"
  by (simp add: held_iff)

lemma held_del: "held (s\<lparr>locks := om_del p (locks s)\<rparr>) q \<longleftrightarrow> q \<noteq> p \<and> held s q"
  by (simp add: held_iff)

lemma not_own_ancestor: "p \<notin> set (ancestors p)"
  by (auto simp: ancestors_iff)

lemma lock_inv_put:
  assumes inv: "lock_inv s" and ok: "entry_ok e"
    and new: "holders e \<noteq> [] \<Longrightarrow> held s p \<or> (\<not> ancestor_conflict s p \<and> \<not> descendant_conflict s p)"
  shows "lock_inv (s\<lparr>locks := om_put p e (locks s)\<rparr>)" (is "lock_inv ?t")
proof (rule lock_invI)
  show "om_wf (locks ?t)"
    using lock_invD(1) [OF inv] by simp
  show "entry_ok e'" if "map_of (locks ?t) q = Some e'" for q e'
    using that ok lock_invD(2) [OF inv] by (auto split: if_splits)
  have up: "\<not> held s a" if "holders e \<noteq> []" "a \<in> set (ancestors p)" for a
    using new [OF that(1)] that(2) lock_invD(3) [OF inv] by (auto simp: ancestor_conflict_iff)
  have down: "\<not> held s d" if "holders e \<noteq> []" "p \<in> set (ancestors d)" for d
    using new [OF that(1)] that(2) lock_invD(1,3) [OF inv] ancestor_in_descendant_range
    by (auto simp: descendant_conflict_iff)
  show "a \<notin> set (ancestors b)" if "held ?t a" "held ?t b" for a b
    using that up [of a] down [of b] not_own_ancestor [of p] lock_invD(3) [OF inv, of a b]
    by (cases "a = p"; cases "b = p") (auto simp: held_put)
qed

lemma lock_inv_del: "lock_inv s \<Longrightarrow> lock_inv (s\<lparr>locks := om_del p (locks s)\<rparr>)"
  by (rule lock_invI) (auto simp: held_del dest: lock_invD split: if_splits)

lemma entry_ok_filter: "entry_ok e \<Longrightarrow> entry_ok (e\<lparr>holders := filter P (holders e)\<rparr>)"
  by (auto simp: entry_ok_def distinct_map_filter intro: order_trans [OF length_filter_le])

lemma entry_ok_retain: "entry_ok e \<Longrightarrow> entry_ok (e\<lparr>holders := retain_live now (holders e)\<rparr>)"
  by (simp add: retain_live_def entry_ok_filter)

lemma entry_ok_bump:
  "entry_ok e \<Longrightarrow> entry_ok (e\<lparr>holders := update_first P (\<lambda>h. h\<lparr>expires_at := t\<rparr>) (holders e)\<rparr>)"
  by (simp add: entry_ok_def update_first_map)

lemma entry_ok_default: "entry_ok entry_default"
  by (simp add: entry_ok_def entry_default_def)

lemma retain_live_ne: "retain_live now hs \<noteq> [] \<Longrightarrow> hs \<noteq> []"
  by (auto simp: retain_live_def)

lemma accepts_new_holder_iff:
  assumes "length (holders e) \<le> unat (max_holders e)"
  shows "accepts_new_holder e \<longleftrightarrow> length (holders e) < unat (max_holders e)"
proof -
  have "length (holders e) < 2 ^ 32"
    using assms unat_u32_lt [of "max_holders e"] by linarith
  then have "unat (word_of_nat (length (holders e)) :: u32) = length (holders e)"
    by (simp add: unsigned_of_nat take_bit_eq_mod)
  then show ?thesis
    by (simp add: accepts_new_holder_def word_less_nat_alt)
qed

lemma acquire_entry_ok:
  assumes "entry_ok e"
  shows "entry_ok (snd (acquire_entry lid maxh info now expires e))"
proof -
  define e1 where "e1 = e\<lparr>holders := retain_live now (holders e)\<rparr>"
  have e1: "entry_ok e1"
    using assms by (simp add: e1_def entry_ok_retain)
  define e2 where "e2 = (if holders e1 = [] then e1\<lparr>max_holders := maxh\<rparr> else e1)"
  have e2: "entry_ok e2" "holders e2 = holders e1"
    using e1 by (auto simp: e2_def entry_ok_def)
  have grow: "entry_ok (e2\<lparr>holders := holders e2 @
      [\<lparr>lock_id = lid, holder_info = info, acquired_at = now, expires_at = expires\<rparr>]\<rparr>)"
    if "accepts_new_holder e2" "\<not> list_ex (\<lambda>h. lock_id h = lid) (holders e1)"
    using that e2 accepts_new_holder_iff [of e2] by (auto simp: entry_ok_def list_ex_iff)
  show ?thesis
    unfolding acquire_entry_def Let_def e1_def [symmetric] e2_def [symmetric]
    using e1 e2 grow entry_ok_bump [OF e1] by auto
qed

lemma apply_acquire_inv:
  assumes inv: "lock_inv s"
  shows "lock_inv (snd (apply_acquire path lid maxh ttl info now s))"
proof (cases "ancestor_conflict s path \<or> descendant_conflict s path")
  case True
  then show ?thesis
    using inv by (auto simp: apply_acquire_def)
next
  case False
  define e0 where "e0 = (case map_of (locks s) path of Some e \<Rightarrow> e | None \<Rightarrow> entry_default)"
  have "entry_ok e0"
    using lock_invD(2) [OF inv] by (auto simp: e0_def entry_ok_default split: option.splits)
  then have "lock_inv (s\<lparr>locks := om_put path (snd (acquire_entry lid maxh info now x e0)) (locks s)\<rparr>)" for x
    using False by (intro lock_inv_put [OF inv] acquire_entry_ok) auto
  then show ?thesis
    using False by (simp add: apply_acquire_def Let_def case_prod_beta e0_def [symmetric])
qed

lemma apply_release_inv: "lock_inv s \<Longrightarrow> lock_inv (snd (apply_release path lid s))"
  by (auto simp: apply_release_def Let_def entry_is_empty_def held_iff filter_empty_conv
      intro!: lock_inv_put lock_inv_del entry_ok_filter dest: lock_invD(2) split: option.splits)

lemma apply_force_release_inv: "lock_inv s \<Longrightarrow> lock_inv (snd (apply_force_release path s))"
  by (simp add: apply_force_release_def lock_inv_del)

lemma apply_extend_inv:
  assumes inv: "lock_inv s"
  shows "lock_inv (snd (apply_extend path lid ttl now s))"
proof (cases "map_of (locks s) path")
  case None
  then show ?thesis
    using inv by (simp add: apply_extend_def)
next
  case (Some e)
  define e1 where "e1 = e\<lparr>holders := retain_live now (holders e)\<rparr>"
  have e1: "entry_ok e1"
    using lock_invD(2) [OF inv Some] by (simp add: e1_def entry_ok_retain)
  have "held s path" if "holders e1 \<noteq> []"
    using Some that retain_live_ne by (auto simp: held_iff e1_def)
  then have put: "lock_inv (s\<lparr>locks := om_put path e2 (locks s)\<rparr>)"
    if "entry_ok e2" "holders e1 = [] \<Longrightarrow> holders e2 = []" for e2
    using lock_inv_put [OF inv that(1)] that(2) by blast
  show ?thesis
    using Some inv e1 put [OF e1] put [OF entry_ok_bump [OF e1]]
    by (simp add: apply_extend_def Let_def e1_def [symmetric] lock_inv_del)
qed

lemma map_of_filter_map_snd:
  "om_wf m \<Longrightarrow>
   map_of (filter (\<lambda>e. P (snd e)) (map (\<lambda>(k, v). (k, f v)) m)) k =
     (case map_of m k of None \<Rightarrow> None | Some v \<Rightarrow> if P (f v) then Some (f v) else None)"
proof (induction m)
  case (Cons x m)
  obtain k' v where x: "x = (k', v)" by (cases x)
  have "map_of m k' = None"
    using Cons.prems by (auto simp: om_wf_Cons x map_of_eq_None_iff)
  then show ?case
    using Cons by (auto simp: om_wf_Cons x)
qed simp

lemma gc_expired_lookup:
  "om_wf (locks s) \<Longrightarrow> map_of (locks (gc_expired now s)) p =
     (case map_of (locks s) p of
        None \<Rightarrow> None
      | Some e \<Rightarrow> let e' = e\<lparr>holders := retain_live now (holders e)\<rparr>
                   in if holders e' = [] then None else Some e')"
  unfolding gc_expired_def prune_expired_def
  by (simp add: entry_is_empty_def Let_def
      map_of_filter_map_snd [where P = "\<lambda>e. holders e \<noteq> []"] split: option.splits)

lemma gc_expired_wf: "om_wf (locks s) \<Longrightarrow> om_wf (locks (gc_expired now s))"
proof -
  have "map fst (map (\<lambda>(k, v). (k, f v)) m) = map fst m" for f :: "LockEntry \<Rightarrow> LockEntry" and m :: "(string, LockEntry) omap"
    by (induction m) auto
  then have "om_wf (map (\<lambda>(k, v). (k, f v)) m)" if "om_wf m"
    for f :: "LockEntry \<Rightarrow> LockEntry" and m :: "(string, LockEntry) omap"
    using that by (simp only: om_wf_def)
  then show "om_wf (locks s) \<Longrightarrow> om_wf (locks (gc_expired now s))"
    by (simp add: gc_expired_def prune_expired_def)
qed

lemma gc_expired_inv:
  assumes inv: "lock_inv s"
  shows "lock_inv (gc_expired now s)"
proof (rule lock_invI)
  note wf = lock_invD(1) [OF inv]
  show "om_wf (locks (gc_expired now s))"
    by (rule gc_expired_wf) (rule wf)
  show "entry_ok e" if "map_of (locks (gc_expired now s)) p = Some e" for p e
    using that lock_invD(2) [OF inv]
    by (auto simp: gc_expired_lookup [OF wf] Let_def entry_ok_retain split: option.splits if_splits)
  have "held s p" if "held (gc_expired now s) p" for p
    using that retain_live_ne
    by (auto simp: held_iff gc_expired_lookup [OF wf] Let_def split: option.splits if_splits)
  then show "p \<notin> set (ancestors q)" if "held (gc_expired now s) p" "held (gc_expired now s) q" for p q
    using that lock_invD(3) [OF inv] by blast
qed

interpretation lock_table: transition_system lock_step lock_inv lock_state_new
proof unfold_locales
  show "lock_inv lock_state_new"
    by (simp add: lock_inv_def lock_state_new_def)
  show "lock_inv (lock_step a s)" if "lock_inv s" for a s
    using that by (cases a) (simp_all add: apply_acquire_inv apply_release_inv
        apply_force_release_inv apply_extend_inv gc_expired_inv)
qed

section \<open>What an acquire does\<close>

lemma acquire_entry_acquired:
  assumes "entry_ok e"
  shows "fst (acquire_entry lid maxh info now expires e) \<longleftrightarrow>
     (let live = retain_live now (holders e) in
        (\<exists>h \<in> set live. lock_id h = lid) \<or>
        (if live = [] then 0 < unat maxh
         else max_holders e = maxh \<and> length live < unat maxh))"
proof -
  define live where "live = retain_live now (holders e)"
  have "length live \<le> unat (max_holders e)"
    using entry_ok_retain [OF assms, of now] by (simp add: entry_ok_def live_def)
  then have full: "accepts_new_holder (e\<lparr>holders := live\<rparr>) \<longleftrightarrow> length live < unat (max_holders e)"
    using accepts_new_holder_iff [of "e\<lparr>holders := live\<rparr>"] by simp
  have fresh: "accepts_new_holder (e\<lparr>holders := [], max_holders := maxh\<rparr>) \<longleftrightarrow> 0 < unat maxh"
    using accepts_new_holder_iff [of "e\<lparr>holders := [], max_holders := maxh\<rparr>"] by simp
  show ?thesis
  proof (cases "live = []")
    case True
    then show ?thesis
      using fresh by (auto simp: acquire_entry_def Let_def live_def [symmetric])
  next
    case False
    then show ?thesis
      using full by (auto simp: acquire_entry_def Let_def live_def [symmetric] list_ex_iff)
  qed
qed

lemma acquire_entry_holder:
  assumes "fst (acquire_entry lid maxh info now expires e)"
  shows "\<exists>h \<in> set (holders (snd (acquire_entry lid maxh info now expires e))).
           lock_id h = lid \<and> expires_at h = expires"
proof (cases "list_ex (\<lambda>h. lock_id h = lid) (retain_live now (holders e))")
  case True
  then have "\<exists>h \<in> set (retain_live now (holders e)). lock_id h = lid"
    by (simp add: list_ex_iff)
  from update_first_hit [OF this, of "\<lambda>h. h\<lparr>expires_at := expires\<rparr>"]
  obtain h where "lock_id h = lid" "h\<lparr>expires_at := expires\<rparr> \<in>
      set (update_first (\<lambda>h. lock_id h = lid) (\<lambda>h. h\<lparr>expires_at := expires\<rparr>)
        (retain_live now (holders e)))"
    by blast
  then show ?thesis
    using True by (auto simp: acquire_entry_def Let_def intro!: bexI [of _ "h\<lparr>expires_at := expires\<rparr>"])
next
  case False
  then show ?thesis
    using assms by (auto simp: acquire_entry_def Let_def split: if_splits)
qed

text \<open>Holders whose lease has not run out survive every acquire by someone else.\<close>

lemma update_first_other: "x \<in> set xs \<Longrightarrow> \<not> P x \<Longrightarrow> x \<in> set (update_first P f xs)"
  by (induction xs) auto

lemma acquire_entry_keeps:
  assumes "h \<in> set (holders e)" and "now < expires_at h" and "lock_id h \<noteq> lid"
  shows "h \<in> set (holders (snd (acquire_entry lid maxh info now expires e)))"
proof -
  have h: "h \<in> set (retain_live now (holders e))"
    using assms by (simp add: retain_live_def)
  then have "h \<in> set (update_first (\<lambda>h. lock_id h = lid) f (retain_live now (holders e)))" for f
    using assms(3) by (simp add: update_first_other)
  with h show ?thesis
    by (auto simp: acquire_entry_def Let_def)
qed

definition lock_entry_at :: "LockState \<Rightarrow> string \<Rightarrow> LockEntry" where
  "lock_entry_at s p = (case map_of (locks s) p of Some e \<Rightarrow> e | None \<Rightarrow> entry_default)"

lemma apply_acquire_eq:
  "apply_acquire path lid maxh ttl info now s =
     (if ancestor_conflict s path \<or> descendant_conflict s path then (empty_result maxh, s)
      else let r = acquire_entry lid maxh info now (saturating_add now (ucast ttl)) (lock_entry_at s path)
           in (to_result (snd r) (fst r), s\<lparr>locks := om_put path (snd r) (locks s)\<rparr>))"
  by (simp add: apply_acquire_def lock_entry_at_def Let_def case_prod_beta)

lemma entry_ok_at: "lock_inv s \<Longrightarrow> entry_ok (lock_entry_at s p)"
  by (auto simp: lock_entry_at_def entry_ok_default dest: lock_invD(2) split: option.splits)

section \<open>Properties\<close>

text \<open>
  The helper that lists the strict ancestors of a path lists exactly the
  non-empty proper prefixes that end before a slash, and the root for every
  other absolute path.
\<close>

theorem ancestors_exact:
  "q \<in> set (ancestors p) \<longleftrightarrow>
     (q \<noteq> [] \<and> (\<exists>r. p = q @ ''/'' @ r)) \<or> (q = ''/'' \<and> (\<exists>r. r \<noteq> [] \<and> p = ''/'' @ r))"
  by (rule ancestors_iff)

text \<open>
  C1.  In every table that a sequence of acquires, releases, forced releases,
  extensions and sweeps reaches from the empty one, a held lock has at least
  one and at most \<^verbatim>\<open>max_holders\<close> holders, no two of them with the same lock id,
  and no lock is held on a strict ancestor of its path.
\<close>

theorem locks_reachable_safe:
  assumes "s = fold lock_step ops lock_state_new"
    and "get_lock s p = Some info"
  shows "li_holders info \<noteq> [] \<and> length (li_holders info) \<le> unat (li_max_holders info) \<and>
    distinct (map lock_id (li_holders info)) \<and> (\<forall>a \<in> set (ancestors p). get_lock s a = None)"
proof -
  have inv: "lock_inv s"
    using lock_table.reach_inv assms(1) by simp
  obtain e where e: "map_of (locks s) p = Some e" "holders e \<noteq> []"
    and info: "info = \<lparr>li_path = p, li_max_holders = max_holders e, li_holders = holders e\<rparr>"
    using assms(2) by (auto simp: get_lock_def split: option.splits if_splits)
  have "held s p"
    using assms(2) by (simp add: held_def)
  then have "\<forall>a \<in> set (ancestors p). get_lock s a = None"
    using lock_invD(3) [OF inv] unfolding held_def by blast
  then show ?thesis
    using lock_invD(2) [OF inv e(1)] e info by (simp add: entry_ok_def)
qed

theorem locks_reachable_safe_witness:
  "distinct (map lock_id (li_holders (the (get_lock (fold lock_step
     [Acquire ''/a/b'' ''x'' 2 10 ''h'' 5, Acquire ''/a/b'' ''y'' 2 10 ''h'' 6] lock_state_new) ''/a/b''))))
   \<and> get_lock (fold lock_step
     [Acquire ''/a/b'' ''x'' 2 10 ''h'' 5, Acquire ''/a/b'' ''y'' 2 10 ''h'' 6] lock_state_new) ''/a'' = None"
proof -
  let ?s = "fold lock_step
     [Acquire ''/a/b'' ''x'' 2 10 ''h'' 5, Acquire ''/a/b'' ''y'' 2 10 ''h'' 6] lock_state_new"
  have "get_lock ?s ''/a/b'' \<noteq> None"
    by code_simp
  then obtain i where i: "get_lock ?s ''/a/b'' = Some i" by blast
  have "''/a'' \<in> set (ancestors ''/a/b'')"
    by code_simp
  with locks_reachable_safe [OF refl i] show ?thesis
    unfolding i by simp
qed

text \<open>
  C13.  An acquire on a reachable table succeeds exactly when no strict ancestor
  is held, no path that starts with the directory form of the requested path
  is held, and either the caller already has an unexpired lease, or there is no
  unexpired holder and the requested capacity is positive, or the capacity asked
  for is the capacity of the lock and it is not used up.
\<close>

theorem apply_acquire_succeeds_iff:
  assumes "s = fold lock_step ops lock_state_new"
  shows "lr_acquired (fst (apply_acquire path lid maxh ttl info now s)) \<longleftrightarrow>
    (\<forall>a \<in> set (ancestors path). get_lock s a = None) \<and>
    (\<forall>k. starts_with k (if ends_with path ''/'' then path else path @ ''/'') \<longrightarrow> get_lock s k = None) \<and>
    (let live = retain_live now (holders (lock_entry_at s path)) in
       (\<exists>h \<in> set live. lock_id h = lid) \<or>
       (if live = [] then 0 < unat maxh
        else max_holders (lock_entry_at s path) = maxh \<and> length live < unat maxh))"
proof -
  have inv: "lock_inv s"
    using lock_table.reach_inv assms by simp
  have up: "ancestor_conflict s path \<longleftrightarrow> \<not> (\<forall>a \<in> set (ancestors path). get_lock s a = None)"
    by (simp only: ancestor_conflict_iff held_def bex_simps ball_simps not_not)
  have down: "descendant_conflict s path \<longleftrightarrow>
      \<not> (\<forall>k. starts_with k (if ends_with path ''/'' then path else path @ ''/'') \<longrightarrow> get_lock s k = None)"
    unfolding descendant_conflict_iff [OF lock_invD(1) [OF inv]] descendant_range_fst held_def
    by (simp only: not_all not_imp conj_commute)
  have "lr_acquired (fst (apply_acquire path lid maxh ttl info now s)) \<longleftrightarrow>
      \<not> ancestor_conflict s path \<and> \<not> descendant_conflict s path \<and>
      fst (acquire_entry lid maxh info now (saturating_add now (ucast ttl)) (lock_entry_at s path))"
    by (simp add: apply_acquire_eq Let_def empty_result_def to_result_def)
  then show ?thesis
    unfolding up down acquire_entry_acquired [OF entry_ok_at [OF inv]] by (simp only: not_not)
qed

theorem apply_acquire_succeeds_iff_witness:
  "\<not> lr_acquired (fst (apply_acquire ''/a/b'' ''y'' 1 10 ''h'' 6
     (fold lock_step [Acquire ''/a'' ''x'' 1 10 ''h'' 5] lock_state_new)))"
proof -
  let ?s = "fold lock_step [Acquire ''/a'' ''x'' 1 10 ''h'' 5] lock_state_new"
  have "''/a'' \<in> set (ancestors ''/a/b'')" and "get_lock ?s ''/a'' \<noteq> None"
    by code_simp+
  then show ?thesis
    unfolding apply_acquire_succeeds_iff [OF refl]
    by (intro notI, elim conjE) (drule (1) bspec, erule (1) notE)
qed

text \<open>
  A successful acquire leaves the caller among the holders of the path with
  the lease \<^verbatim>\<open>now + ttl\<close>, clamped at the largest 64-bit value; it removes no other
  holder whose lease is still running, and it changes no other path.
\<close>

theorem apply_acquire_effect:
  assumes "lr_acquired (fst (apply_acquire path lid maxh ttl info now s))"
    and "s' = snd (apply_acquire path lid maxh ttl info now s)"
  shows "(\<exists>i h. get_lock s' path = Some i \<and> h \<in> set (li_holders i) \<and> lock_id h = lid \<and>
            unat (expires_at h) = min (unat now + unat ttl) (2 ^ 64 - 1)) \<and>
    (\<forall>h \<in> set (holders (lock_entry_at s path)). now < expires_at h \<longrightarrow> lock_id h \<noteq> lid \<longrightarrow>
       h \<in> set (holders (lock_entry_at s' path))) \<and>
    (\<forall>q. q \<noteq> path \<longrightarrow> get_lock s' q = get_lock s q)"
proof -
  let ?x = "saturating_add now (ucast ttl)"
  let ?r = "acquire_entry lid maxh info now ?x (lock_entry_at s path)"
  have "\<not> (ancestor_conflict s path \<or> descendant_conflict s path)"
    using assms(1) by (auto simp: apply_acquire_eq empty_result_def)
  then have s': "s' = s\<lparr>locks := om_put path (snd ?r) (locks s)\<rparr>" and acq: "fst ?r"
    using assms by (auto simp: apply_acquire_eq Let_def to_result_def)
  obtain h where h: "h \<in> set (holders (snd ?r))" "lock_id h = lid" "expires_at h = ?x"
    using acquire_entry_holder [OF acq] by blast
  have "unat ?x = min (unat now + unat ttl) (2 ^ 64 - 1)"
    by (simp add: unat_saturating_add unat_ucast_u32)
  moreover have "get_lock s' path = Some \<lparr>li_path = path, li_max_holders = max_holders (snd ?r),
      li_holders = holders (snd ?r)\<rparr>"
    using h(1) by (auto simp: get_lock_def s')
  ultimately have "\<exists>i h. get_lock s' path = Some i \<and> h \<in> set (li_holders i) \<and> lock_id h = lid \<and>
      unat (expires_at h) = min (unat now + unat ttl) (2 ^ 64 - 1)"
    using h by (intro exI [of _ h] exI) auto
  moreover have "lock_entry_at s' path = snd ?r"
    by (simp add: lock_entry_at_def s')
  moreover have "get_lock s' q = get_lock s q" if "q \<noteq> path" for q
    using that by (simp add: get_lock_def s')
  ultimately show ?thesis
    using acquire_entry_keeps [of _ "lock_entry_at s path" now lid maxh info ?x] by simp
qed

theorem apply_acquire_effect_witness:
  "\<exists>i h. get_lock (snd (apply_acquire ''/a'' ''x'' 2 30 ''me'' 100
        \<lparr>locks = [(''/a'', \<lparr>max_holders = 2, holders = [\<lparr>lock_id = ''y'', holder_info = ''you'',
           acquired_at = 90, expires_at = 120\<rparr>]\<rparr>)]\<rparr>)) ''/a'' = Some i \<and>
     h \<in> set (li_holders i) \<and> lock_id h = ''x'' \<and> unat (expires_at h) = 130"
proof -
  let ?s = "\<lparr>locks = [(''/a'', \<lparr>max_holders = 2, holders = [\<lparr>lock_id = ''y'', holder_info = ''you'',
           acquired_at = 90, expires_at = 120\<rparr>]\<rparr>)]\<rparr> :: LockState"
  have "lr_acquired (fst (apply_acquire ''/a'' ''x'' 2 30 ''me'' 100 ?s))"
    by code_simp
  from apply_acquire_effect [OF this refl] show ?thesis by simp
qed

text \<open>
  Releasing a lock that was just acquired on a path without an entry
  restores the table the acquire started from.
\<close>

theorem acquire_release_round_trip:
  assumes "s = fold lock_step ops lock_state_new" and "map_of (locks s) path = None"
    and "lr_acquired (fst (apply_acquire path lid maxh ttl info now s))"
  shows "apply_release path lid (snd (apply_acquire path lid maxh ttl info now s)) = (True, s)"
proof -
  have wf: "om_wf (locks s)"
    using lock_table.reach_inv assms(1) lock_invD(1) by simp
  let ?h = "\<lparr>lock_id = lid, holder_info = info, acquired_at = now,
      expires_at = saturating_add now (ucast ttl)\<rparr>"
  have "snd (apply_acquire path lid maxh ttl info now s) =
      s\<lparr>locks := om_put path \<lparr>max_holders = maxh, holders = [?h]\<rparr> (locks s)\<rparr>"
    using assms(2,3)
    by (auto simp: apply_acquire_def entry_default_def acquire_entry_def retain_live_def
        empty_result_def to_result_def Let_def split: if_splits)
  then show ?thesis
    using om.del_put [OF wf assms(2)] by (simp add: apply_release_def entry_is_empty_def)
qed

theorem acquire_release_round_trip_witness:
  "apply_release ''/a/b'' ''y'' (snd (apply_acquire ''/a/b'' ''y'' 1 30 ''me'' 100
     (fold lock_step [Acquire ''/c'' ''x'' 1 10 ''h'' 5] lock_state_new))) =
   (True, fold lock_step [Acquire ''/c'' ''x'' 1 10 ''h'' 5] lock_state_new)"
  by (rule acquire_release_round_trip [OF refl]; code_simp)

text \<open>
  A held lock on the root, or on any path written with a trailing slash,
  lies in its own descendant range: every further acquire on that path is
  refused, the idempotent re-acquire by the holder and the second holder of a
  semaphore included.
\<close>

theorem trailing_slash_lock_not_reentrant:
  assumes "s = fold lock_step ops lock_state_new" and "get_lock s path \<noteq> None"
    and "ends_with path ''/''"
  shows "apply_acquire path lid maxh ttl info now s = (empty_result maxh, s)"
proof -
  have "om_wf (locks s)"
    using lock_table.reach_inv assms(1) lock_invD(1) by simp
  moreover have "starts_with path (fst (descendant_range path))"
    using assms(3) by (simp add: descendant_range_fst)
  ultimately have "descendant_conflict s path"
    using assms(2) by (auto simp: descendant_conflict_iff held_def)
  then show ?thesis
    by (simp add: apply_acquire_def)
qed

theorem trailing_slash_lock_not_reentrant_witness:
  "apply_acquire ''/'' ''x'' 1 10 ''h'' 6
     (fold lock_step [Acquire ''/'' ''x'' 1 10 ''h'' 5] lock_state_new) =
   (empty_result 1, fold lock_step [Acquire ''/'' ''x'' 1 10 ''h'' 5] lock_state_new)"
  by (rule trailing_slash_lock_not_reentrant [OF refl]; code_simp)

text \<open>
  The conflict test does not look at leases: a lock on an ancestor whose
  holders have all run out still refuses every acquire below it, until a sweep
  or an operation on the ancestor itself removes the entry.
\<close>

theorem expired_ancestor_still_blocks:
  assumes "s = fold lock_step ops lock_state_new" and "a \<in> set (ancestors path)"
    and "get_lock s a = Some i" and "\<forall>h \<in> set (li_holders i). expires_at h \<le> now"
  shows "apply_acquire path lid maxh ttl info now s = (empty_result maxh, s) \<and>
    get_lock (gc_expired now s) a = None"
proof -
  have wf: "om_wf (locks s)"
    using lock_table.reach_inv assms(1) lock_invD(1) by simp
  obtain e where e: "map_of (locks s) a = Some e" "i = \<lparr>li_path = a, li_max_holders = max_holders e, li_holders = holders e\<rparr>"
    using assms(3) by (auto simp: get_lock_def split: option.splits if_splits)
  then have "retain_live now (holders e) = []"
    using assms(4) by (auto simp: retain_live_def filter_empty_conv not_less)
  then have "get_lock (gc_expired now s) a = None"
    by (simp add: get_lock_def gc_expired_lookup [OF wf] e)
  moreover have "ancestor_conflict s path"
    using assms(2,3) by (auto simp: ancestor_conflict_iff held_def)
  ultimately show ?thesis
    by (simp add: apply_acquire_def)
qed

theorem expired_ancestor_still_blocks_witness:
  "apply_acquire ''/a/b'' ''y'' 1 10 ''h'' 500
     (fold lock_step [Acquire ''/a'' ''x'' 1 10 ''h'' 5] lock_state_new) =
   (empty_result 1, fold lock_step [Acquire ''/a'' ''x'' 1 10 ''h'' 5] lock_state_new)"
proof -
  let ?s = "fold lock_step [Acquire ''/a'' ''x'' 1 10 ''h'' 5] lock_state_new"
  have a: "''/a'' \<in> set (ancestors ''/a/b'')"
    by code_simp
  have i: "get_lock ?s ''/a'' = Some \<lparr>li_path = ''/a'', li_max_holders = 1, li_holders =
      [\<lparr>lock_id = ''x'', holder_info = ''h'', acquired_at = 5, expires_at = 15\<rparr>]\<rparr>"
    by code_simp
  show ?thesis
    by (rule conjunct1 [OF expired_ancestor_still_blocks [OF refl a i]]) simp
qed

end
