(* ===== verification/Rebac_Graph.thy ===== *)
theory Rebac_Graph
  imports Nexus_Prelude
begin

text \<open>
  The data of the relationship-based access control engine
  (\<^verbatim>\<open>lib/src/types.rs\<close>) and the indexes that \<^verbatim>\<open>ReBACGraph::from_tuples\<close> builds
  over a list of relationship tuples (\<^verbatim>\<open>lib/src/rebac/mod.rs\<close>).  A hash map is an
  association list; no result depends on its order.  The lemmas give each lookup
  of the built graph as a filter over the tuples it was built from.
\<close>

section \<open>Data\<close>

record Entity =
  entity_type :: string
  entity_id :: string

record ReBACTuple =
  subject_type :: string
  subject_id :: string
  subject_relation :: "string option"
  relation :: string
  object_type :: string
  object_id :: string

record TupleToUsersetConfig =
  tupleset :: string
  computed_userset :: string

text \<open>The payloads of \<^verbatim>\<open>Direct\<close> and \<^verbatim>\<open>EmptyDict\<close> are never read.\<close>

datatype RelationConfig =
    Direct string
  | Union "string list"
  | TupleToUserset TupleToUsersetConfig
  | EmptyDict

record NamespaceConfig =
  relations :: "(string \<times> RelationConfig) list"
  permissions :: "(string \<times> string list) list"

record UsersetEntry =
  ue_subject_type :: string
  ue_subject_id :: string
  ue_subject_relation :: string

type_synonym TupleKey = "string \<times> string \<times> string \<times> string \<times> string"
type_synonym AdjacencyKey = "string \<times> string \<times> string"
type_synonym UsersetKey = "string \<times> string \<times> string"
type_synonym MemoKey = "string \<times> string \<times> string \<times> string \<times> string"
type_synonym MemoCache = "MemoKey \<rightharpoonup> bool"
type_synonym VisitedSet = "MemoKey set"

record ReBACGraph =
  tuple_index :: "TupleKey set"
  adjacency_list :: "(AdjacencyKey \<times> Entity list) list"
  reverse_adjacency :: "(AdjacencyKey \<times> Entity list) list"
  userset_index :: "(UsersetKey \<times> UsersetEntry list) list"
  direct_reverse :: "(AdjacencyKey \<times> Entity list) list"

section \<open>Multi-valued hash maps\<close>

text \<open>\<^verbatim>\<open>map.entry(k).or_default().push(x)\<close>, and \<^verbatim>\<open>map.get(k).cloned().unwrap_or_default()\<close>.\<close>

fun push_entry :: "'k \<Rightarrow> 'v \<Rightarrow> ('k \<times> 'v list) list \<Rightarrow> ('k \<times> 'v list) list" where
  "push_entry k x [] = [(k, [x])]"
| "push_entry k x ((k', xs) # m) =
     (if k = k' then (k', xs @ [x]) # m else (k', xs) # push_entry k x m)"

definition entries_of :: "('k \<times> 'v list) list \<Rightarrow> 'k \<Rightarrow> 'v list" where
  "entries_of m k = (case map_of m k of Some xs \<Rightarrow> xs | None \<Rightarrow> [])"

lemma entries_of_Nil [simp]: "entries_of [] k = []"
  by (simp add: entries_of_def)

lemma entries_of_push [simp]:
  "entries_of (push_entry k x m) k' = (if k' = k then entries_of m k @ [x] else entries_of m k')"
  by (induction k x m rule: push_entry.induct) (auto simp: entries_of_def)

section \<open>Building the graph\<close>

definition empty_graph :: ReBACGraph where
  "empty_graph = \<lparr>tuple_index = {}, adjacency_list = [], reverse_adjacency = [],
     userset_index = [], direct_reverse = []\<rparr>"

definition tuple_subject :: "ReBACTuple \<Rightarrow> Entity" where
  "tuple_subject t = \<lparr>entity_type = subject_type t, entity_id = subject_id t\<rparr>"

definition tuple_object :: "ReBACTuple \<Rightarrow> Entity" where
  "tuple_object t = \<lparr>entity_type = object_type t, entity_id = object_id t\<rparr>"

text \<open>One round of the loop of \<^verbatim>\<open>from_tuples\<close>.\<close>

definition add_tuple :: "ReBACGraph \<Rightarrow> ReBACTuple \<Rightarrow> ReBACGraph" where
  "add_tuple g t =
     (let okey = (object_type t, object_id t, relation t);
          g1 = (case subject_relation t of
                  Some sr \<Rightarrow>
                    g\<lparr>userset_index := push_entry okey
                        \<lparr>ue_subject_type = subject_type t, ue_subject_id = subject_id t,
                         ue_subject_relation = sr\<rparr> (userset_index g)\<rparr>
                | None \<Rightarrow>
                    g\<lparr>tuple_index := insert (object_type t, object_id t, relation t,
                                            subject_type t, subject_id t) (tuple_index g),
                      direct_reverse := push_entry okey (tuple_subject t) (direct_reverse g)\<rparr>)
      in g1\<lparr>adjacency_list := push_entry (subject_type t, subject_id t, relation t)
               (tuple_object t) (adjacency_list g1),
            reverse_adjacency := push_entry okey (tuple_subject t) (reverse_adjacency g1)\<rparr>)"

definition from_tuples :: "ReBACTuple list \<Rightarrow> ReBACGraph" where
  "from_tuples ts = foldl add_tuple empty_graph ts"

section \<open>Lookups\<close>

definition check_direct_relation :: "ReBACGraph \<Rightarrow> Entity \<Rightarrow> string \<Rightarrow> Entity \<Rightarrow> bool" where
  "check_direct_relation g subject rel object \<longleftrightarrow>
     (entity_type object, entity_id object, rel, entity_type subject, entity_id subject)
       \<in> tuple_index g \<or>
     (entity_type object, entity_id object, rel, ''*'', ''*'') \<in> tuple_index g"

definition find_related_objects :: "ReBACGraph \<Rightarrow> Entity \<Rightarrow> string \<Rightarrow> Entity list" where
  "find_related_objects g subject rel =
     entries_of (adjacency_list g) (entity_type subject, entity_id subject, rel)"

definition find_subjects_for_object :: "ReBACGraph \<Rightarrow> Entity \<Rightarrow> string \<Rightarrow> Entity list" where
  "find_subjects_for_object g object rel =
     entries_of (reverse_adjacency g) (entity_type object, entity_id object, rel)"

definition find_direct_subjects_for_object :: "ReBACGraph \<Rightarrow> Entity \<Rightarrow> string \<Rightarrow> Entity list" where
  "find_direct_subjects_for_object g object rel =
     entries_of (direct_reverse g) (entity_type object, entity_id object, rel)"

definition get_usersets :: "ReBACGraph \<Rightarrow> Entity \<Rightarrow> string \<Rightarrow> UsersetEntry list" where
  "get_usersets g object rel =
     entries_of (userset_index g) (entity_type object, entity_id object, rel)"

section \<open>The lookups of a built graph\<close>

definition userset_of :: "ReBACTuple \<Rightarrow> UsersetEntry" where
  "userset_of t = \<lparr>ue_subject_type = subject_type t, ue_subject_id = subject_id t,
     ue_subject_relation = the (subject_relation t)\<rparr>"

definition direct_tuple :: "ReBACTuple \<Rightarrow> bool" where
  "direct_tuple t \<longleftrightarrow> subject_relation t = None"

lemma from_tuples_snoc: "from_tuples (ts @ [t]) = add_tuple (from_tuples ts) t"
  by (simp add: from_tuples_def)

lemmas from_tuples_step = from_tuples_snoc add_tuple_def Let_def

lemma tuple_index_iff:
  "(ot, oi, r, st, si) \<in> tuple_index (from_tuples ts) \<longleftrightarrow>
     (\<exists>t \<in> set ts. direct_tuple t \<and> object_type t = ot \<and> object_id t = oi \<and> relation t = r \<and>
        subject_type t = st \<and> subject_id t = si)"
proof (induction ts rule: rev_induct)
  case Nil
  then show ?case by (simp add: from_tuples_def empty_graph_def)
next
  case (snoc t ts)
  then show ?case
    by (cases "subject_relation t") (auto simp: from_tuples_step direct_tuple_def)
qed

lemma Entity_eq_iff: "(e :: Entity) = e' \<longleftrightarrow> entity_type e = entity_type e' \<and> entity_id e = entity_id e'"
  by (metis (full_types) Entity.surjective Entity.equality unit.exhaust)

lemma find_related_objects_eq:
  "find_related_objects (from_tuples ts) e r =
     map tuple_object (filter (\<lambda>t. tuple_subject t = e \<and> relation t = r) ts)"
proof (induction ts rule: rev_induct)
  case Nil
  then show ?case by (simp add: from_tuples_def empty_graph_def find_related_objects_def)
next
  case (snoc t ts)
  then show ?case
    by (cases "subject_relation t")
      (auto simp: find_related_objects_def from_tuples_step Entity_eq_iff tuple_subject_def)
qed

lemma find_subjects_for_object_eq:
  "find_subjects_for_object (from_tuples ts) e r =
     map tuple_subject (filter (\<lambda>t. tuple_object t = e \<and> relation t = r) ts)"
proof (induction ts rule: rev_induct)
  case Nil
  then show ?case by (simp add: from_tuples_def empty_graph_def find_subjects_for_object_def)
next
  case (snoc t ts)
  then show ?case
    by (cases "subject_relation t")
      (auto simp: find_subjects_for_object_def from_tuples_step Entity_eq_iff tuple_object_def)
qed

lemma find_direct_subjects_for_object_eq:
  "find_direct_subjects_for_object (from_tuples ts) e r =
     map tuple_subject (filter (\<lambda>t. direct_tuple t \<and> tuple_object t = e \<and> relation t = r) ts)"
proof (induction ts rule: rev_induct)
  case Nil
  then show ?case by (simp add: from_tuples_def empty_graph_def find_direct_subjects_for_object_def)
next
  case (snoc t ts)
  then show ?case
    by (cases "subject_relation t")
      (auto simp: find_direct_subjects_for_object_def from_tuples_step Entity_eq_iff
        tuple_object_def direct_tuple_def)
qed

lemma get_usersets_eq:
  "get_usersets (from_tuples ts) e r =
     map userset_of (filter (\<lambda>t. \<not> direct_tuple t \<and> tuple_object t = e \<and> relation t = r) ts)"
proof (induction ts rule: rev_induct)
  case Nil
  then show ?case by (simp add: from_tuples_def empty_graph_def get_usersets_def)
next
  case (snoc t ts)
  then show ?case
    by (cases "subject_relation t")
      (auto simp: get_usersets_def from_tuples_step Entity_eq_iff
        tuple_object_def direct_tuple_def userset_of_def)
qed

definition wildcard :: Entity where
  "wildcard = \<lparr>entity_type = ''*'', entity_id = ''*''\<rparr>"

lemma check_direct_relation_iff:
  "check_direct_relation (from_tuples ts) s r e \<longleftrightarrow>
     (\<exists>t \<in> set ts. direct_tuple t \<and> tuple_object t = e \<and> relation t = r \<and>
        (tuple_subject t = s \<or> tuple_subject t = wildcard))"
  by (auto simp: check_direct_relation_def tuple_index_iff Entity_eq_iff tuple_object_def
      tuple_subject_def wildcard_def)

end
