(* ===== verification/Memo_Search.thy ===== *)
theory Memo_Search
  imports Nexus_Prelude
begin

text \<open>
  The search both permission evaluators run, string keyed and interned: a
  depth-bounded depth-first search over keys with a result cache and a set of
  visited keys, where a key is granted when one of its items is a direct hit or
  a granted key.  The interface states the unfolding of one level of the search
  and the lemmas proved once from it are that a positive answer is a grant
  whatever the cache holds (as long as its positive entries are grants), and
  that a search with a fresh cache and visited set finds every grant when the
  keys it can reach fit under the depth bound.
\<close>

type_synonym 'k search_state = "('k \<rightharpoonup> bool) \<times> 'k set"

text \<open>A \<^verbatim>\<open>for\<close> loop that calls a function with side effects and stops at the first \<^verbatim>\<open>true\<close>.\<close>

fun any_st :: "('a \<Rightarrow> 's \<Rightarrow> bool \<times> 's) \<Rightarrow> 'a list \<Rightarrow> 's \<Rightarrow> bool \<times> 's" where
  "any_st f [] s = (False, s)"
| "any_st f (x # xs) s = (case f x s of (b, s') \<Rightarrow> if b then (True, s') else any_st f xs s')"

lemma any_st_append:
  "any_st f (xs @ ys) s = (case any_st f xs s of (b, s') \<Rightarrow> if b then (True, s') else any_st f ys s')"
  by (induction xs arbitrary: s) (auto split: prod.splits)

lemma any_st_map: "any_st f (map g xs) s = any_st (\<lambda>x. f (g x)) xs s"
  by (induction xs arbitrary: s) (auto split: prod.splits)

lemma any_st_invariant:
  assumes "any_st f xs s = (r, s')" and "I s"
    and "\<And>x s r s'. x \<in> set xs \<Longrightarrow> f x s = (r, s') \<Longrightarrow> I s \<Longrightarrow> I s' \<and> (r \<longrightarrow> Q x)"
  shows "I s' \<and> (r \<longrightarrow> (\<exists>x \<in> set xs. Q x))"
  using assms
proof (induction xs arbitrary: s)
  case (Cons x xs)
  obtain b s1 where f: "f x s = (b, s1)" by fastforce
  have s1: "I s1 \<and> (b \<longrightarrow> Q x)"
    using Cons.prems(3) [OF _ f] Cons.prems(2) by simp
  show ?case
  proof (cases b)
    case True
    then show ?thesis using Cons.prems(1) f s1 by simp
  next
    case False
    then have "any_st f xs s1 = (r, s')" using Cons.prems(1) f by simp
    from Cons.IH [OF this] s1 Cons.prems(3) show ?thesis by auto
  qed
qed simp

text \<open>
  When the loop runs to the end without a hit, an invariant that every round
  keeps holds at the end, and so does what each round establishes if later
  rounds do not undo it.
\<close>

lemma any_st_exhausted:
  assumes "any_st f xs s = (False, s')" and "I s"
    and "\<And>x s s'. x \<in> set xs \<Longrightarrow> f x s = (False, s') \<Longrightarrow> I s \<Longrightarrow> I s' \<and> E x s' \<and> le s s'"
    and "\<And>x s s'. E x s \<Longrightarrow> le s s' \<Longrightarrow> E x s'"
    and "\<And>s. le s s" and "\<And>s s' s''. le s s' \<Longrightarrow> le s' s'' \<Longrightarrow> le s s''"
  shows "I s' \<and> (\<forall>x \<in> set xs. E x s') \<and> le s s'"
  using assms(1-3)
proof (induction xs arbitrary: s)
  case (Cons x xs)
  obtain b s1 where f: "f x s = (b, s1)" by fastforce
  with Cons.prems(1) have b: "\<not> b" and rest: "any_st f xs s1 = (False, s')"
    by (auto split: if_splits)
  have "f x s = (False, s1)"
    using f b by simp
  from Cons.prems(3) [OF _ this Cons.prems(2)] have s1: "I s1 \<and> E x s1 \<and> le s s1"
    by simp
  have "I s' \<and> (\<forall>x \<in> set xs. E x s') \<and> le s1 s'"
    using Cons.IH [OF rest] s1 Cons.prems(3) by auto
  with s1 show ?case
    using assms(4,6) by auto
qed (auto simp: assms(5))

section \<open>Grants\<close>

text \<open>
  An item of a key is the outcome of a direct check or another key to evaluate.
\<close>

inductive granted :: "('k \<Rightarrow> (bool + 'k) list) \<Rightarrow> 'k \<Rightarrow> bool" for items where
  granted_hit: "Inl True \<in> set (items k) \<Longrightarrow> granted items k"
| granted_step: "Inr k' \<in> set (items k) \<Longrightarrow> granted items k' \<Longrightarrow> granted items k"

definition eval_item :: "('k \<Rightarrow> 's \<Rightarrow> bool \<times> 's) \<Rightarrow> bool + 'k \<Rightarrow> 's \<Rightarrow> bool \<times> 's" where
  "eval_item run i st = (case i of Inl b \<Rightarrow> (b, st) | Inr k \<Rightarrow> run k st)"

lemma eval_item_simps [simp]: "eval_item run (Inl b) = Pair b" "eval_item run (Inr k) = run k"
  by (simp_all add: eval_item_def fun_eq_iff)

definition memo_sound :: "('k \<Rightarrow> (bool + 'k) list) \<Rightarrow> 'k search_state \<Rightarrow> bool" where
  "memo_sound items st \<longleftrightarrow> (\<forall>k. fst st k = Some True \<longrightarrow> granted items k)"

text \<open>
  The bookkeeping of an unsuccessful search: the cache holds only negative
  entries of visited keys, and every visited key that is not on the stack has
  no hit and only visited successors.
\<close>

definition explored :: "('k \<Rightarrow> (bool + 'k) list) \<Rightarrow> 'k set \<Rightarrow> 'k set \<Rightarrow> bool" where
  "explored items vis stack \<longleftrightarrow>
     (\<forall>k \<in> vis - stack. Inl True \<notin> set (items k) \<and> (\<forall>k'. Inr k' \<in> set (items k) \<longrightarrow> k' \<in> vis))"

definition unsuccessful ::
  "('k \<Rightarrow> (bool + 'k) list) \<Rightarrow> 'k set \<Rightarrow> 'k set \<Rightarrow> 'k search_state \<Rightarrow> bool" where
  "unsuccessful items U stack st \<longleftrightarrow>
     dom (fst st) \<subseteq> snd st \<and> snd st \<subseteq> U \<and> (\<forall>k. fst st k \<noteq> Some True) \<and>
     explored items (snd st) stack"

lemma explored_closed_not_granted:
  assumes "granted items k" and "explored items vis {}"
  shows "k \<notin> vis"
  using assms by (induction) (auto simp: explored_def)

locale memo_search =
  fixes items :: "'k \<Rightarrow> (bool + 'k) list"
    and run :: "nat \<Rightarrow> 'k \<Rightarrow> 'k search_state \<Rightarrow> bool \<times> 'k search_state"
    and levels :: nat
  assumes run_0: "run 0 k st = (False, st)"
    and run_Suc: "n < levels \<Longrightarrow> run (Suc n) k (memo, vis) =
      (case memo k of
         Some r \<Rightarrow> (r, (memo, vis))
       | None \<Rightarrow>
           if k \<in> vis then (False, (memo, vis))
           else case any_st (eval_item (run n)) (items k) (memo, insert k vis) of
                  (r, (memo', vis')) \<Rightarrow> (r, (memo'(k \<mapsto> r), vis')))"
begin

lemma run_sound:
  assumes "n \<le> levels" and "run n k st = (r, st')" and "memo_sound items st"
  shows "memo_sound items st' \<and> (r \<longrightarrow> granted items k)"
  using assms
proof (induction n arbitrary: k st r st')
  case 0
  then show ?case by (simp add: run_0)
next
  case (Suc n)
  obtain memo vis where st: "st = (memo, vis)" by (cases st)
  have n: "n < levels" using Suc.prems(1) by simp
  note run = run_Suc [OF n, of k memo vis]
  show ?case
  proof (cases "memo k")
    case (Some b)
    then show ?thesis
      using Suc.prems(2,3) run st by (cases b) (auto simp: memo_sound_def)
  next
    case None
    show ?thesis
    proof (cases "k \<in> vis")
      case True
      then show ?thesis using None Suc.prems(2,3) run st by auto
    next
      case False
      obtain b memo' vis' where
        any: "any_st (eval_item (run n)) (items k) (memo, insert k vis) = (b, (memo', vis'))"
        by (metis prod_cases3)
      have *: "memo_sound items s' \<and> (b' \<longrightarrow> (case i of Inl x \<Rightarrow> x | Inr k' \<Rightarrow> granted items k'))"
        if "eval_item (run n) i s = (b', s')" "memo_sound items s" for i s b' s'
        using that Suc.IH n by (cases i) (auto simp: eval_item_def)
      have "memo_sound items (memo, insert k vis)"
        using Suc.prems(3) by (simp add: memo_sound_def st)
      from any_st_invariant [where I = "memo_sound items", OF any this *]
      have s: "memo_sound items (memo', vis')"
        and b: "b \<Longrightarrow> \<exists>i \<in> set (items k). case i of Inl x \<Rightarrow> x | Inr k' \<Rightarrow> granted items k'"
        by auto
      have g: "b \<Longrightarrow> granted items k"
        using b by (fastforce intro: granted.intros split: sum.splits)
      have "r = b" "st' = (memo'(k \<mapsto> b), vis')"
        using Suc.prems(2) run None False any st by auto
      then show ?thesis
        using s g by (auto simp: memo_sound_def)
    qed
  qed
qed

lemma run_exhausted:
  assumes "n \<le> levels" and "run n k st = (False, st')" and "finite U"
    and "card (U - snd st) < n" and "k \<in> U"
    and closed: "\<And>k k'. k \<in> U \<Longrightarrow> Inr k' \<in> set (items k) \<Longrightarrow> k' \<in> U"
    and "stack \<subseteq> snd st" and "unsuccessful items U stack st"
  shows "unsuccessful items U stack st' \<and> k \<in> snd st' \<and> snd st \<subseteq> snd st'"
  using assms(1,2,4,5,7,8)
proof (induction n arbitrary: k st st' stack)
  case 0
  then show ?case by simp
next
  case (Suc n)
  obtain memo vis where st: "st = (memo, vis)" by (cases st)
  have n: "n < levels" using Suc.prems(1) by simp
  note run = run_Suc [OF n, of k memo vis]
  have un: "dom memo \<subseteq> vis" "vis \<subseteq> U" "\<forall>k. memo k \<noteq> Some True" "explored items vis stack"
    using Suc.prems(6) by (simp_all add: unsuccessful_def st)
  show ?case
  proof (cases "k \<in> vis")
    case True
    then have "st' = st"
      using Suc.prems(2) run st by (auto split: option.splits)
    then show ?thesis
      using True Suc.prems(6) st by simp
  next
    case False
    then have None: "memo k = None"
      using un(1) by auto
    let ?st = "(memo, insert k vis)"
    obtain b memo' vis' where any: "any_st (eval_item (run n)) (items k) ?st = (b, (memo', vis'))"
      by (metis prod_cases3)
    have res: "\<not> b" "st' = (memo'(k \<mapsto> False), vis')"
      using Suc.prems(2) run None False any st by auto
    let ?I = "\<lambda>s. unsuccessful items U (insert k stack) s \<and> insert k vis \<subseteq> snd s"
    let ?E = "\<lambda>i s. case i of Inl x \<Rightarrow> \<not> x | Inr k' \<Rightarrow> k' \<in> snd s"
    let ?le = "\<lambda>s s' :: 'k search_state. snd s \<subseteq> snd s'"
    have I0: "?I ?st"
      using un Suc.prems(4) by (auto simp: unsuccessful_def explored_def)
    have round: "?I s' \<and> ?E i s' \<and> ?le s s'"
      if "i \<in> set (items k)" "eval_item (run n) i s = (False, s')" "?I s" for i s s'
    proof (cases i)
      case (Inl x)
      then show ?thesis using that by (simp add: eval_item_def)
    next
      case (Inr k')
      have "card (U - snd s) < n"
      proof -
        have "U - snd s \<subset> U - vis"
          using that(3) Suc.prems(4) False by auto
        then have "card (U - snd s) < card (U - vis)"
          using assms(3) by (simp add: psubset_card_mono)
        then show ?thesis using Suc.prems(3) st by simp
      qed
      moreover have "k' \<in> U"
        using closed Suc.prems(4) that(1) Inr by simp
      moreover have "run n k' s = (False, s')"
        using that(2) Inr by (simp add: eval_item_def)
      moreover have "insert k stack \<subseteq> snd s"
        using that(3) Suc.prems(5) st by auto
      ultimately have "unsuccessful items U (insert k stack) s' \<and> k' \<in> snd s' \<and> snd s \<subseteq> snd s'"
        using Suc.IH [of k' s s' "insert k stack"] that(3) n by simp
      then show ?thesis
        using that(3) Inr by auto
    qed
    have "?I (memo', vis') \<and> (\<forall>i \<in> set (items k). ?E i (memo', vis')) \<and> ?le ?st (memo', vis')"
      using any res(1) I0 round
      by (intro any_st_exhausted [where f = "eval_item (run n)" and I = ?I and E = ?E and le = ?le])
        (auto split: sum.splits)
    then have u: "unsuccessful items U (insert k stack) (memo', vis')" "insert k vis \<subseteq> vis'"
      and it: "\<And>i. i \<in> set (items k) \<Longrightarrow> ?E i (memo', vis')"
      by auto
    have ex: "explored items vis' (insert k stack)" and "dom memo' \<subseteq> vis'" "vis' \<subseteq> U"
      "\<forall>k. memo' k \<noteq> Some True"
      using u(1) by (simp_all add: unsuccessful_def)
    have "explored items vis' stack"
      unfolding explored_def
    proof (rule ballI)
      fix x assume x: "x \<in> vis' - stack"
      show "Inl True \<notin> set (items x) \<and> (\<forall>k'. Inr k' \<in> set (items x) \<longrightarrow> k' \<in> vis')"
      proof (cases "x = k")
        case True
        then show ?thesis using it [of "Inl True"] it [of "Inr k'" for k'] by auto
      next
        case False
        with x have "x \<in> vis' - insert k stack" by blast
        with ex show ?thesis unfolding explored_def by (rule bspec)
      qed
    qed
    moreover have "dom (memo'(k \<mapsto> False)) \<subseteq> vis'"
      using \<open>dom memo' \<subseteq> vis'\<close> u(2) by simp
    ultimately show ?thesis
      using \<open>vis' \<subseteq> U\<close> \<open>\<forall>k. memo' k \<noteq> Some True\<close> u(2) res(2) st by (simp add: unsuccessful_def)
  qed
qed

theorem run_complete:
  assumes "n \<le> levels" and "finite U" and "card U < n" and "k \<in> U"
    and "\<And>k k'. k \<in> U \<Longrightarrow> Inr k' \<in> set (items k) \<Longrightarrow> k' \<in> U"
  shows "fst (run n k (Map.empty, {})) \<longleftrightarrow> granted items k"
proof -
  obtain r st' where run: "run n k (Map.empty, {}) = (r, st')"
    by (cases "run n k (Map.empty, {})")
  have "memo_sound items (Map.empty, {})"
    by (simp add: memo_sound_def)
  from run_sound [OF assms(1) run this] have "r \<Longrightarrow> granted items k" by simp
  moreover have "\<not> granted items k" if "\<not> r"
  proof -
    have u0: "unsuccessful items U {} (Map.empty, {})"
      by (simp add: unsuccessful_def explored_def)
    have f: "run n k (Map.empty, {}) = (False, st')"
      using run that by simp
    have c: "card (U - snd (Map.empty :: 'k \<rightharpoonup> bool, {})) < n"
      using assms(3) by simp
    have "unsuccessful items U {} st' \<and> k \<in> snd st' \<and> snd (Map.empty :: 'k \<rightharpoonup> bool, {}) \<subseteq> snd st'"
      by (rule run_exhausted [OF assms(1) f assms(2) c assms(4) _ _ u0]) (auto intro: assms(5))
    then have e: "explored items (snd st') {}" and m: "k \<in> snd st'"
      by (simp_all add: unsuccessful_def)
    show ?thesis
    proof
      assume "granted items k"
      from explored_closed_not_granted [OF this e] m show False ..
    qed
  qed
  ultimately show ?thesis
    unfolding run fst_conv by (cases r) simp_all
qed

text \<open>
  Where the items of a key only lead to keys of smaller rank, every answer is
  exact, also from a cache left by earlier searches.
\<close>

lemma any_st_exact:
  assumes "\<And>x s. x \<in> set xs \<Longrightarrow> I s \<Longrightarrow> fst (f x s) = Q x \<and> I (snd (f x s))" and "I s"
  shows "fst (any_st f xs s) = (\<exists>x \<in> set xs. Q x) \<and> I (snd (any_st f xs s))"
  using assms
proof (induction xs arbitrary: s)
  case (Cons x xs)
  have "fst (f x s) = Q x" and "I (snd (f x s))"
    using Cons.prems by simp_all
  moreover have "fst (any_st f xs (snd (f x s))) = (\<exists>x \<in> set xs. Q x) \<and> I (snd (any_st f xs (snd (f x s))))"
    using Cons.prems calculation by (intro Cons.IH) simp_all
  ultimately show ?case
    by (cases "f x s") auto
qed simp

definition memo_exact :: "'k search_state \<Rightarrow> bool" where
  "memo_exact st \<longleftrightarrow> (\<forall>k b. fst st k = Some b \<longrightarrow> b = granted items k)"

lemma granted_unfold:
  "granted items k \<longleftrightarrow> (\<exists>i \<in> set (items k). case i of Inl b \<Rightarrow> b | Inr k' \<Rightarrow> granted items k')"
proof
  assume "granted items k"
  then show "\<exists>i \<in> set (items k). case i of Inl b \<Rightarrow> b | Inr k' \<Rightarrow> granted items k'"
    by cases force+
next
  assume "\<exists>i \<in> set (items k). case i of Inl b \<Rightarrow> b | Inr k' \<Rightarrow> granted items k'"
  then show "granted items k"
    by (fastforce intro: granted.intros split: sum.splits)
qed

lemma run_exact:
  fixes rank :: "'k \<Rightarrow> nat"
  assumes rank: "\<And>k k'. Inr k' \<in> set (items k) \<Longrightarrow> rank k' < rank k"
    and "n \<le> levels" and "rank k < n" and "memo_exact st"
    and "snd st \<subseteq> dom (fst st) \<union> stack" and "\<And>x. x \<in> stack \<Longrightarrow> rank k < rank x"
  shows "fst (run n k st) = granted items k \<and> memo_exact (snd (run n k st)) \<and>
    snd (snd (run n k st)) \<subseteq> dom (fst (snd (run n k st))) \<union> stack"
  using assms(2-6)
proof (induction n arbitrary: k st stack)
  case 0
  then show ?case by simp
next
  case (Suc n)
  obtain memo vis where st: "st = (memo, vis)" by (cases st)
  have n: "n < levels" using Suc.prems(1) by simp
  note run = run_Suc [OF n, of k memo vis]
  show ?case
  proof (cases "memo k")
    case (Some b)
    then show ?thesis
      using run Suc.prems(3,4) st by (auto simp: memo_exact_def)
  next
    case None
    then have "k \<notin> vis"
      using Suc.prems(4,5) st by (auto simp: subset_iff)
    let ?I = "\<lambda>s. memo_exact s \<and> snd s \<subseteq> dom (fst s) \<union> insert k stack"
    let ?Q = "\<lambda>i. case i of Inl b \<Rightarrow> b | Inr k' \<Rightarrow> granted items k'"
    have round: "fst (eval_item (run n) i s) = ?Q i \<and> ?I (snd (eval_item (run n) i s))"
      if "i \<in> set (items k)" "?I s" for i s
    proof (cases i)
      case (Inl b)
      then show ?thesis using that(2) by simp
    next
      case (Inr k')
      then have "rank k' < rank k"
        using rank that(1) by simp
      moreover have "rank k' < rank x" if "x \<in> insert k stack" for x
        using that calculation Suc.prems(5) by fastforce
      moreover have "rank k' < n"
        using \<open>rank k' < rank k\<close> Suc.prems(2) by simp
      ultimately show ?thesis
        using Suc.IH [of k' s "insert k stack"] that(2) n Suc.prems(2) Inr by simp
    qed
    have "?I (memo, insert k vis)"
      using Suc.prems(3,4) st by (auto simp: memo_exact_def)
    from any_st_exact [where f = "eval_item (run n)" and I = ?I and Q = ?Q, OF round this]
    have loop: "fst (any_st (eval_item (run n)) (items k) (memo, insert k vis)) = granted items k"
      "?I (snd (any_st (eval_item (run n)) (items k) (memo, insert k vis)))"
      unfolding granted_unfold [of k] by simp_all
    obtain b memo' vis' where
      any: "any_st (eval_item (run n)) (items k) (memo, insert k vis) = (b, (memo', vis'))"
      by (rule prod_cases3)
    have "run (Suc n) k st = (b, (memo'(k \<mapsto> b), vis'))"
      using run None \<open>k \<notin> vis\<close> st any by simp
    then show ?thesis
      using loop any by (auto simp: memo_exact_def)
  qed
qed

end

text \<open>
  Two searches whose items correspond under an injective renaming of keys give
  the same answers from corresponding states.
\<close>

definition renamed_state :: "('k \<Rightarrow> 'l) \<Rightarrow> 'k search_state \<Rightarrow> 'l search_state \<Rightarrow> bool" where
  "renamed_state h st st' \<longleftrightarrow>
     (\<forall>k. fst st' (h k) = fst st k) \<and> (\<forall>k. h k \<in> snd st' \<longleftrightarrow> k \<in> snd st)"

lemma run_renamed:
  assumes a: "memo_search items run levels" and b: "memo_search items' run' levels"
    and inj: "inj h" and items_renamed: "\<And>k. items' (h k) = map (map_sum (\<lambda>b. b) h) (items k)"
    and "n \<le> levels" and "renamed_state h st st'"
  shows "fst (run' n (h k) st') = fst (run n k st) \<and>
    renamed_state h (snd (run n k st)) (snd (run' n (h k) st'))"
  using assms(5,6)
proof (induction n arbitrary: k st st')
  case 0
  then show ?case by (simp add: memo_search.run_0 [OF a] memo_search.run_0 [OF b])
next
  case (Suc n)
  obtain memo vis memo' vis' where st: "st = (memo, vis)" "st' = (memo', vis')"
    by (cases st, cases st')
  have n: "n < levels" using Suc.prems(1) by simp
  have loop: "fst (any_st (eval_item (run' n)) (map (map_sum (\<lambda>b. b) h) is) s') =
      fst (any_st (eval_item (run n)) is s) \<and>
      renamed_state h (snd (any_st (eval_item (run n)) is s))
        (snd (any_st (eval_item (run' n)) (map (map_sum (\<lambda>b. b) h) is) s'))"
    if "renamed_state h s s'" for "is" s s'
    using that
  proof (induction "is" arbitrary: s s')
    case (Cons i "is")
    have "fst (eval_item (run' n) (map_sum (\<lambda>b. b) h i) s') = fst (eval_item (run n) i s) \<and>
        renamed_state h (snd (eval_item (run n) i s))
          (snd (eval_item (run' n) (map_sum (\<lambda>b. b) h i) s'))"
      using Cons.prems Suc.IH n by (cases i) (auto simp: eval_item_def)
    with Cons.IH show ?case
      by (auto split: prod.splits)
  qed simp
  have "renamed_state h (memo, insert k vis) (memo', insert (h k) vis')"
    using Suc.prems(2) inj by (auto simp: renamed_state_def st inj_eq)
  note l = loop [OF this, of "items k", folded items_renamed]
  have "memo' (h k) = memo k" "h k \<in> vis' \<longleftrightarrow> k \<in> vis"
    using Suc.prems(2) by (auto simp: renamed_state_def st)
  with l show ?case
    using Suc.prems(2) inj
    by (auto simp: st memo_search.run_Suc [OF a n] memo_search.run_Suc [OF b n] renamed_state_def inj_eq
        split: prod.splits option.splits)
qed

lemma fresh_run_renamed:
  assumes "memo_search items run levels" and "memo_search items' run' levels"
    and "inj h" and "\<And>k. items' (h k) = map (map_sum (\<lambda>b. b) h) (items k)" and "n \<le> levels"
  shows "fst (run' n (h k) (Map.empty, {})) = fst (run n k (Map.empty, {}))"
  using run_renamed [OF assms, of "(Map.empty, {})" "(Map.empty, {})" k] by (simp add: renamed_state_def)

section \<open>Collecting searches\<close>

text \<open>
  The expansion of a permission to its subjects visits every reachable key once
  and unions what each contributes.
\<close>

inductive reaches :: "('k \<Rightarrow> 'k list) \<Rightarrow> 'k \<Rightarrow> 'k \<Rightarrow> bool" for succs where
  reaches_refl [intro]: "reaches succs k k"
| reaches_step: "k' \<in> set (succs k) \<Longrightarrow> reaches succs k' k'' \<Longrightarrow> reaches succs k k''"

lemma reaches_trans: "reaches succs k k' \<Longrightarrow> reaches succs k' k'' \<Longrightarrow> reaches succs k k''"
  by (induction rule: reaches.induct) (auto intro: reaches_step)

definition collected :: "('k \<Rightarrow> 'k list) \<Rightarrow> ('k \<Rightarrow> 'o set) \<Rightarrow> 'k \<Rightarrow> 'o set" where
  "collected succs out k = (\<Union>k' \<in> {k'. reaches succs k k'}. out k')"

definition swept :: "('k \<Rightarrow> 'k list) \<Rightarrow> ('k \<Rightarrow> 'o set) \<Rightarrow> 'k set \<Rightarrow> 'o set \<times> 'k set \<Rightarrow> bool" where
  "swept succs out stack st \<longleftrightarrow>
     (\<forall>k \<in> snd st - stack. out k \<subseteq> fst st \<and> set (succs k) \<subseteq> snd st)"

lemma swept_collected:
  assumes "reaches succs k k'" and "swept succs out {} (acc, vis)" and "k \<in> vis"
  shows "out k' \<subseteq> acc"
  using assms by induction (auto simp: swept_def)

lemma fold_grows:
  fixes s :: "'o set \<times> 'k set"
  assumes step: "\<And>k s. fst s \<subseteq> fst (f k s) \<and> snd s \<subseteq> snd (f k s)"
  shows "fst s \<subseteq> fst (fold f ks s) \<and> snd s \<subseteq> snd (fold f ks s)"
proof (induction ks arbitrary: s)
  case (Cons k ks)
  have "fst s \<subseteq> fst (f k s)" and "snd s \<subseteq> snd (f k s)"
    using step by auto
  moreover have "fst (f k s) \<subseteq> fst (fold f ks (f k s))" and "snd (f k s) \<subseteq> snd (fold f ks (f k s))"
    using Cons.IH by auto
  ultimately show ?case by auto
qed simp

lemma fold_bounded:
  fixes s :: "'o set \<times> 'k set"
  assumes step: "\<And>k s. fst (f k s) \<subseteq> fst s \<union> B k"
  shows "fst (fold f ks s) \<subseteq> fst s \<union> (\<Union>k \<in> set ks. B k)"
proof (induction ks arbitrary: s)
  case (Cons k ks)
  have "fst (fold f ks (f k s)) \<subseteq> fst (f k s) \<union> (\<Union>k \<in> set ks. B k)"
    by (rule Cons.IH)
  with step [of k s] show ?case by auto
qed simp

locale collect_search =
  fixes succs :: "'k \<Rightarrow> 'k list"
    and out :: "'k \<Rightarrow> 'o set"
    and run :: "nat \<Rightarrow> 'k \<Rightarrow> 'o set \<times> 'k set \<Rightarrow> 'o set \<times> 'k set"
    and levels :: nat
  assumes run_0: "run 0 k st = st"
    and run_Suc: "n < levels \<Longrightarrow> run (Suc n) k (acc, vis) =
      (if k \<in> vis then (acc, vis)
       else case fold (run n) (succs k) (acc, insert k vis) of (a, v) \<Rightarrow> (a \<union> out k, v))"
begin

lemma run_grows: "n \<le> levels \<Longrightarrow> fst st \<subseteq> fst (run n k st) \<and> snd st \<subseteq> snd (run n k st)"
proof (induction n arbitrary: k st)
  case 0
  then show ?case by (simp add: run_0)
next
  case (Suc n)
  have "fst s \<subseteq> fst (fold (run n) ks s) \<and> snd s \<subseteq> snd (fold (run n) ks s)" for ks s
    using Suc by (intro fold_grows) simp
  from this [of "(fst st, insert k (snd st))" "succs k"] show ?case
    using Suc.prems by (cases st) (auto simp: run_Suc split: prod.splits)
qed

lemma run_collects_only:
  "n \<le> levels \<Longrightarrow> fst (run n k st) \<subseteq> fst st \<union> collected succs out k"
proof (induction n arbitrary: k st)
  case 0
  then show ?case by (simp add: run_0)
next
  case (Suc n)
  have fold: "fst (fold (run n) ks s) \<subseteq> fst s \<union> (\<Union>k \<in> set ks. collected succs out k)" for ks s
    using Suc by (intro fold_bounded) simp
  have "collected succs out k' \<subseteq> collected succs out k" if "k' \<in> set (succs k)" for k'
    using that by (auto simp: collected_def intro: reaches_step)
  then have "(\<Union>k' \<in> set (succs k). collected succs out k') \<subseteq> collected succs out k"
    by auto
  with fold [of "succs k" "(fst st, insert k (snd st))"]
  have "fst (fold (run n) (succs k) (fst st, insert k (snd st))) \<subseteq> fst st \<union> collected succs out k"
    by auto
  moreover have "out k \<subseteq> collected succs out k"
    by (auto simp: collected_def)
  ultimately show ?case
    using Suc.prems by (cases st) (auto simp: run_Suc split: prod.splits)
qed

lemma run_sweeps:
  assumes "n \<le> levels" and "finite U" and "card (U - snd st) < n" and "k \<in> U"
    and closed: "\<And>k. k \<in> U \<Longrightarrow> set (succs k) \<subseteq> U"
    and "stack \<subseteq> snd st" and "snd st \<subseteq> U" and "swept succs out stack st"
  shows "swept succs out stack (run n k st) \<and> k \<in> snd (run n k st) \<and> snd (run n k st) \<subseteq> U"
  using assms(1,3,4,6-8)
proof (induction n arbitrary: k st stack)
  case 0
  then show ?case by simp
next
  case (Suc n)
  obtain acc vis where st: "st = (acc, vis)" by (cases st)
  have n: "n < levels" "n \<le> levels" using Suc.prems(1) by auto
  show ?case
  proof (cases "k \<in> vis")
    case True
    then show ?thesis using Suc.prems n st by (simp add: run_Suc)
  next
    case False
    let ?P = "\<lambda>s. swept succs out (insert k stack) s \<and> insert k vis \<subseteq> snd s \<and> snd s \<subseteq> U"
    have fold: "?P (fold (run n) ks s) \<and> set ks \<subseteq> snd (fold (run n) ks s)"
      if "?P s" "set ks \<subseteq> U" for ks s
      using that
    proof (induction ks arbitrary: s)
      case (Cons k' ks)
      have "U - snd s \<subset> U - vis"
        using Cons.prems(1) Suc.prems(3) False by auto
      then have "card (U - snd s) < n"
        using assms(2) psubset_card_mono [of "U - vis" "U - snd s"] Suc.prems(2) st by simp
      then have r: "swept succs out (insert k stack) (run n k' s) \<and> k' \<in> snd (run n k' s) \<and>
          snd (run n k' s) \<subseteq> U"
        using Suc.IH [of s k' "insert k stack"] Cons.prems Suc.prems(4) n st by auto
      moreover have "snd s \<subseteq> snd (run n k' s)"
        using run_grows [OF n(2)] by simp
      ultimately have "?P (run n k' s)"
        using Cons.prems(1) by auto
      from Cons.IH [OF this] Cons.prems(2) have
        "?P (fold (run n) ks (run n k' s)) \<and> set ks \<subseteq> snd (fold (run n) ks (run n k' s))"
        by simp
      moreover have "snd (run n k' s) \<subseteq> snd (fold (run n) ks (run n k' s))"
        by (rule conjunct2 [OF fold_grows]) (rule run_grows [OF n(2)])
      ultimately show ?case
        using r by auto
    qed simp
    have "?P (acc, insert k vis)"
      using Suc.prems st by (auto simp: swept_def)
    note f = fold [OF this closed [OF Suc.prems(3)]]
    obtain a v where av: "fold (run n) (succs k) (acc, insert k vis) = (a, v)"
      by (cases "fold (run n) (succs k) (acc, insert k vis)")
    have "run (Suc n) k st = (a \<union> out k, v)"
      using False n st av by (simp add: run_Suc)
    moreover have "swept succs out stack (a \<union> out k, v)"
      using f av by (auto simp: swept_def)
    ultimately show ?thesis
      using f av by simp
  qed
qed

theorem run_collects:
  assumes "n \<le> levels" and "finite U" and "card U < n" and "k \<in> U"
    and "\<And>k. k \<in> U \<Longrightarrow> set (succs k) \<subseteq> U"
  shows "fst (run n k ({}, {})) = collected succs out k"
proof
  show "fst (run n k ({}, {})) \<subseteq> collected succs out k"
    using run_collects_only [OF assms(1), of k "({}, {})"] by simp
  have "swept succs out {} (run n k ({}, {}))" and "k \<in> snd (run n k ({}, {}))"
    using run_sweeps [OF assms(1,2), of "({}, {})" k "{}"] assms(3-5) by (auto simp: swept_def)
  then show "collected succs out k \<subseteq> fst (run n k ({}, {}))"
    using swept_collected [of succs k _ out "fst (run n k ({}, {}))" "snd (run n k ({}, {}))"]
    by (auto simp: collected_def)
qed

end

end
