(* ===== verification/Rebac_Check.thy ===== *)
theory Rebac_Check
  imports Rebac_Graph Memo_Search
begin

text \<open>
  The string-keyed permission evaluator of \<^verbatim>\<open>lib/src/rebac/mod.rs\<close>:
  \<^verbatim>\<open>compute_permission\<close> and \<^verbatim>\<open>check_relation_with_usersets\<close> with their cache,
  visited set and depth bound, the subject expansion \<^verbatim>\<open>expand_permission\<close> and the
  relation closure \<^verbatim>\<open>get_permission_relations\<close>.  The specification is the
  inductive relation \<^verbatim>\<open>derivable\<close> over the tuples the graph was built from; the
  evaluator is shown to be an instance of the generic search, sound for it
  always and complete for it when the reachable checks fit under the bound.
\<close>

type_synonym Namespaces = "(string \<times> NamespaceConfig) list"

definition MAX_DEPTH :: nat where
  "MAX_DEPTH = 50"

definition memo_key :: "Entity \<Rightarrow> string \<Rightarrow> Entity \<Rightarrow> MemoKey" where
  "memo_key s p e = (entity_type s, entity_id s, p, entity_type e, entity_id e)"

definition userset_entity :: "UsersetEntry \<Rightarrow> Entity" where
  "userset_entity u = \<lparr>entity_type = ue_subject_type u, entity_id = ue_subject_id u\<rparr>"

section \<open>The evaluator\<close>

text \<open>
  Every call passes the cache and the visited set on; the loops stop at the
  first call that answers \<^verbatim>\<open>true\<close>.
\<close>

function compute_permission ::
    "Entity \<Rightarrow> string \<Rightarrow> Entity \<Rightarrow> ReBACGraph \<Rightarrow> Namespaces \<Rightarrow> MemoKey search_state \<Rightarrow> nat
       \<Rightarrow> bool \<times> MemoKey search_state"
  and check_relation_with_usersets ::
    "Entity \<Rightarrow> string \<Rightarrow> Entity \<Rightarrow> ReBACGraph \<Rightarrow> Namespaces \<Rightarrow> MemoKey search_state \<Rightarrow> nat
       \<Rightarrow> bool \<times> MemoKey search_state" where
  "compute_permission subject permission object g ns st depth =
     (if MAX_DEPTH < depth then (False, st)
      else case st of (memo, vis) \<Rightarrow>
        let key = memo_key subject permission object in
        (case memo key of
           Some result \<Rightarrow> (result, st)
         | None \<Rightarrow>
             if key \<in> vis then (False, st)
             else
               let st1 = (memo, insert key vis) in
               (case (case map_of ns (entity_type object) of
                        None \<Rightarrow> check_relation_with_usersets subject permission object g ns st1 depth
                      | Some namespace \<Rightarrow>
                          (case map_of (permissions namespace) permission of
                             Some usersets \<Rightarrow>
                               any_st (\<lambda>userset s. compute_permission subject userset object g ns s (depth + 1))
                                 usersets st1
                           | None \<Rightarrow>
                               (case map_of (relations namespace) permission of
                                  None \<Rightarrow> check_relation_with_usersets subject permission object g ns st1 depth
                                | Some (Direct _) \<Rightarrow>
                                    check_relation_with_usersets subject permission object g ns st1 depth
                                | Some EmptyDict \<Rightarrow>
                                    check_relation_with_usersets subject permission object g ns st1 depth
                                | Some (Union members) \<Rightarrow>
                                    any_st (\<lambda>rel s. compute_permission subject rel object g ns s (depth + 1))
                                      members st1
                                | Some (TupleToUserset ttu) \<Rightarrow>
                                    (case any_st (\<lambda>target s. compute_permission subject (computed_userset ttu)
                                                    target g ns s (depth + 1))
                                            (find_related_objects g object (tupleset ttu)) st1 of
                                       (allowed1, st2) \<Rightarrow>
                                     (case (if \<not> allowed1 \<and> tupleset ttu \<noteq> ''parent''
                                            then any_st (\<lambda>target s. compute_permission subject
                                                           (computed_userset ttu) target g ns s (depth + 1))
                                                   (find_subjects_for_object g object (tupleset ttu)) st2
                                            else (allowed1, st2)) of
                                        (allowed2, st3) \<Rightarrow>
                                        if \<not> allowed2
                                        then check_relation_with_usersets subject permission object g ns st3 depth
                                        else (allowed2, st3))))))
                of (result, (memo', vis')) \<Rightarrow> (result, (memo'(key \<mapsto> result), vis')))))"
| "check_relation_with_usersets subject rel object g ns st depth =
     (if check_direct_relation g subject rel object then (True, st)
      else any_st (\<lambda>userset s. compute_permission subject (ue_subject_relation userset)
                      (userset_entity userset) g ns s (depth + 1))
             (get_usersets g object rel) st)"
  by pat_completeness auto
termination
  by (relation "measure (case_sum
        (\<lambda>(_, _, _, _, _, _, depth). 2 * (Suc MAX_DEPTH - depth))
        (\<lambda>(_, _, _, _, _, _, depth). 2 * (MAX_DEPTH - depth) + 1))") auto

declare compute_permission.simps [simp del] check_relation_with_usersets.simps [simp del]

section \<open>The evaluator as a search\<close>

definition relation_items :: "ReBACGraph \<Rightarrow> Entity \<Rightarrow> string \<Rightarrow> Entity \<Rightarrow> (bool + MemoKey) list" where
  "relation_items g s r e =
     Inl (check_direct_relation g s r e) #
     map (\<lambda>u. Inr (memo_key s (ue_subject_relation u) (userset_entity u))) (get_usersets g e r)"

definition permission_items ::
  "ReBACGraph \<Rightarrow> Namespaces \<Rightarrow> Entity \<Rightarrow> string \<Rightarrow> Entity \<Rightarrow> (bool + MemoKey) list" where
  "permission_items g ns s p e =
     (case map_of ns (entity_type e) of
        None \<Rightarrow> relation_items g s p e
      | Some n \<Rightarrow>
          (case map_of (permissions n) p of
             Some us \<Rightarrow> map (\<lambda>u. Inr (memo_key s u e)) us
           | None \<Rightarrow>
               (case map_of (relations n) p of
                  Some (Union rs) \<Rightarrow> map (\<lambda>r. Inr (memo_key s r e)) rs
                | Some (TupleToUserset ttu) \<Rightarrow>
                    map (\<lambda>t. Inr (memo_key s (computed_userset ttu) t))
                      (find_related_objects g e (tupleset ttu)) @
                    (if tupleset ttu \<noteq> ''parent''
                     then map (\<lambda>t. Inr (memo_key s (computed_userset ttu) t))
                            (find_subjects_for_object g e (tupleset ttu)) else []) @
                    relation_items g s p e
                | _ \<Rightarrow> relation_items g s p e)))"

definition key_subject :: "MemoKey \<Rightarrow> Entity" where
  "key_subject k = (case k of (st, si, p, ot, oi) \<Rightarrow> \<lparr>entity_type = st, entity_id = si\<rparr>)"

definition key_permission :: "MemoKey \<Rightarrow> string" where
  "key_permission k = (case k of (st, si, p, ot, oi) \<Rightarrow> p)"

definition key_object :: "MemoKey \<Rightarrow> Entity" where
  "key_object k = (case k of (st, si, p, ot, oi) \<Rightarrow> \<lparr>entity_type = ot, entity_id = oi\<rparr>)"

definition key_items :: "ReBACGraph \<Rightarrow> Namespaces \<Rightarrow> MemoKey \<Rightarrow> (bool + MemoKey) list" where
  "key_items g ns k = permission_items g ns (key_subject k) (key_permission k) (key_object k)"

definition compute_key ::
  "ReBACGraph \<Rightarrow> Namespaces \<Rightarrow> nat \<Rightarrow> MemoKey \<Rightarrow> MemoKey search_state \<Rightarrow> bool \<times> MemoKey search_state" where
  "compute_key g ns levels k st =
     compute_permission (key_subject k) (key_permission k) (key_object k) g ns st (Suc MAX_DEPTH - levels)"

lemma key_of_memo_key [simp]:
  "key_subject (memo_key s p e) = s" "key_permission (memo_key s p e) = p"
  "key_object (memo_key s p e) = e"
  by (simp_all add: key_subject_def key_permission_def key_object_def memo_key_def Entity_eq_iff)

lemma memo_key_of_key [simp]: "memo_key (key_subject k) (key_permission k) (key_object k) = k"
  by (cases k) (simp add: key_subject_def key_permission_def key_object_def memo_key_def)

lemma compute_key_memo_key:
  "compute_key g ns levels (memo_key s p e) =
     (\<lambda>st. compute_permission s p e g ns st (Suc MAX_DEPTH - levels))"
  by (simp add: compute_key_def fun_eq_iff)

lemma any_st_relation_items:
  assumes "n \<le> MAX_DEPTH"
  shows "any_st (eval_item (compute_key g ns n)) (relation_items g s r e) st =
     check_relation_with_usersets s r e g ns st (MAX_DEPTH - n)"
  using assms
  by (simp add: relation_items_def check_relation_with_usersets.simps any_st_map
      compute_key_memo_key Suc_diff_le)

lemma any_st_keys:
  assumes "n \<le> MAX_DEPTH"
  shows "any_st (eval_item (compute_key g ns n)) (map (\<lambda>x. Inr (memo_key s (p x) (f x))) xs) st =
     any_st (\<lambda>x st. compute_permission s (p x) (f x) g ns st (MAX_DEPTH - n + 1)) xs st"
  using assms by (simp add: any_st_map compute_key_memo_key Suc_diff_le)

interpretation string_search: memo_search "key_items g ns" "compute_key g ns" "Suc MAX_DEPTH"
  for g ns
proof
  show "compute_key g ns 0 k st = (False, st)" for k st
    by (simp add: compute_key_def compute_permission.simps)
next
  fix n k memo vis
  assume "n < Suc MAX_DEPTH"
  then have n: "n \<le> MAX_DEPTH" by simp
  have bound: "\<not> MAX_DEPTH < Suc MAX_DEPTH - Suc n" by simp
  note loops = any_st_keys [OF n, where p = "\<lambda>x. x" and f = "\<lambda>_. key_object k"]
    any_st_keys [OF n, where p = "\<lambda>_. p" and f = "\<lambda>x. x" for p] any_st_relation_items [OF n]
  show "compute_key g ns (Suc n) k (memo, vis) =
      (case memo k of
         Some r \<Rightarrow> (r, (memo, vis))
       | None \<Rightarrow>
           if k \<in> vis then (False, (memo, vis))
           else case any_st (eval_item (compute_key g ns n)) (key_items g ns k) (memo, insert k vis) of
                  (r, (memo', vis')) \<Rightarrow> (r, (memo'(k \<mapsto> r), vis')))"
    unfolding compute_key_def [of _ _ "Suc n"] compute_permission.simps [of _ _ _ _ _ _ "Suc MAX_DEPTH - Suc n"]
    using n bound
    by (simp add: Let_def key_items_def permission_items_def any_st_append loops
        split: option.split RelationConfig.split prod.split)
qed

section \<open>The specification\<close>

text \<open>
  What a check on a permission of an object consults: the tuples only, a list
  of other permissions of the same object, or the objects a tupleset leads to.
\<close>

datatype Rule = TuplesOnly | AnyOf "string list" | Through TupleToUsersetConfig

definition rule_of :: "Namespaces \<Rightarrow> string \<Rightarrow> Entity \<Rightarrow> Rule" where
  "rule_of ns p e =
     (case map_of ns (entity_type e) of
        None \<Rightarrow> TuplesOnly
      | Some n \<Rightarrow>
          (case map_of (permissions n) p of
             Some us \<Rightarrow> AnyOf us
           | None \<Rightarrow>
               (case map_of (relations n) p of
                  Some (Union rs) \<Rightarrow> AnyOf rs
                | Some (TupleToUserset ttu) \<Rightarrow> Through ttu
                | _ \<Rightarrow> TuplesOnly)))"

inductive derivable :: "ReBACTuple list \<Rightarrow> Namespaces \<Rightarrow> Entity \<Rightarrow> string \<Rightarrow> Entity \<Rightarrow> bool"
  for ts ns s where
  direct: "(\<forall>ms. rule_of ns p e \<noteq> AnyOf ms) \<Longrightarrow> t \<in> set ts \<Longrightarrow> subject_relation t = None \<Longrightarrow>
    tuple_object t = e \<Longrightarrow> relation t = p \<Longrightarrow> tuple_subject t = s \<or> tuple_subject t = wildcard \<Longrightarrow>
    derivable ts ns s p e"
| userset: "(\<forall>ms. rule_of ns p e \<noteq> AnyOf ms) \<Longrightarrow> t \<in> set ts \<Longrightarrow> subject_relation t = Some r \<Longrightarrow>
    tuple_object t = e \<Longrightarrow> relation t = p \<Longrightarrow> derivable ts ns s r (tuple_subject t) \<Longrightarrow>
    derivable ts ns s p e"
| any_of: "rule_of ns p e = AnyOf ms \<Longrightarrow> m \<in> set ms \<Longrightarrow> derivable ts ns s m e \<Longrightarrow>
    derivable ts ns s p e"
| forward: "rule_of ns p e = Through ttu \<Longrightarrow> t \<in> set ts \<Longrightarrow> tuple_subject t = e \<Longrightarrow>
    relation t = tupleset ttu \<Longrightarrow> derivable ts ns s (computed_userset ttu) (tuple_object t) \<Longrightarrow>
    derivable ts ns s p e"
| reverse: "rule_of ns p e = Through ttu \<Longrightarrow> tupleset ttu \<noteq> ''parent'' \<Longrightarrow> t \<in> set ts \<Longrightarrow>
    tuple_object t = e \<Longrightarrow> relation t = tupleset ttu \<Longrightarrow>
    derivable ts ns s (computed_userset ttu) (tuple_subject t) \<Longrightarrow> derivable ts ns s p e"

inductive_cases derivableE: "derivable ts ns s p e"

lemma permission_items_rule:
  "permission_items g ns s p e =
     (case rule_of ns p e of
        TuplesOnly \<Rightarrow> relation_items g s p e
      | AnyOf ms \<Rightarrow> map (\<lambda>m. Inr (memo_key s m e)) ms
      | Through ttu \<Rightarrow>
          map (\<lambda>t. Inr (memo_key s (computed_userset ttu) t)) (find_related_objects g e (tupleset ttu)) @
          (if tupleset ttu \<noteq> ''parent''
           then map (\<lambda>t. Inr (memo_key s (computed_userset ttu) t))
                  (find_subjects_for_object g e (tupleset ttu)) else []) @
          relation_items g s p e)"
  by (simp add: permission_items_def rule_of_def split: option.split RelationConfig.split)

lemma Inl_True_items:
  "Inl True \<in> set (permission_items (from_tuples ts) ns s p e) \<longleftrightarrow>
     (\<forall>ms. rule_of ns p e \<noteq> AnyOf ms) \<and>
     (\<exists>t \<in> set ts. subject_relation t = None \<and> tuple_object t = e \<and> relation t = p \<and>
        (tuple_subject t = s \<or> tuple_subject t = wildcard))"
  by (cases "rule_of ns p e")
    (auto simp: permission_items_rule relation_items_def check_direct_relation_iff direct_tuple_def)

lemma Inr_relation_items:
  "Inr k \<in> set (relation_items (from_tuples ts) s p e) \<longleftrightarrow>
     (\<exists>t r. t \<in> set ts \<and> subject_relation t = Some r \<and> tuple_object t = e \<and> relation t = p \<and>
        k = memo_key s r (tuple_subject t))"
  by (force simp: relation_items_def get_usersets_eq direct_tuple_def userset_of_def
      userset_entity_def tuple_subject_def)

lemma Inr_items:
  "Inr k \<in> set (permission_items (from_tuples ts) ns s p e) \<longleftrightarrow>
     (case rule_of ns p e of
        TuplesOnly \<Rightarrow> Inr k \<in> set (relation_items (from_tuples ts) s p e)
      | AnyOf ms \<Rightarrow> (\<exists>m \<in> set ms. k = memo_key s m e)
      | Through ttu \<Rightarrow>
          (\<exists>t \<in> set ts. tuple_subject t = e \<and> relation t = tupleset ttu \<and>
             k = memo_key s (computed_userset ttu) (tuple_object t)) \<or>
          (tupleset ttu \<noteq> ''parent'' \<and>
           (\<exists>t \<in> set ts. tuple_object t = e \<and> relation t = tupleset ttu \<and>
             k = memo_key s (computed_userset ttu) (tuple_subject t))) \<or>
          Inr k \<in> set (relation_items (from_tuples ts) s p e))"
  by (cases "rule_of ns p e")
    (auto simp: permission_items_rule find_related_objects_eq find_subjects_for_object_eq)

lemma granted_derivable:
  assumes "granted (key_items (from_tuples ts) ns) k"
  shows "derivable ts ns (key_subject k) (key_permission k) (key_object k)"
  using assms
proof induction
  case (granted_hit k)
  then show ?case
    by (auto simp: key_items_def Inl_True_items intro: derivable.direct)
next
  case (granted_step k' k)
  let ?s = "key_subject k" and ?p = "key_permission k" and ?e = "key_object k"
  have rel: "derivable ts ns ?s ?p ?e"
    if "Inr k' \<in> set (relation_items (from_tuples ts) ?s ?p ?e)" "\<forall>ms. rule_of ns ?p ?e \<noteq> AnyOf ms"
    using that granted_step.IH by (auto simp: Inr_relation_items intro: derivable.userset)
  show ?case
  proof (cases "rule_of ns ?p ?e")
    case TuplesOnly
    then show ?thesis
      using granted_step.hyps(1) rel by (simp add: key_items_def Inr_items)
  next
    case (AnyOf ms)
    then show ?thesis
      using granted_step.hyps(1) granted_step.IH
      by (auto simp: key_items_def Inr_items intro: derivable.any_of)
  next
    case (Through ttu)
    then show ?thesis
      using granted_step.hyps(1) granted_step.IH rel
      by (auto simp: key_items_def Inr_items intro: derivable.forward derivable.reverse)
  qed
qed

lemma derivable_granted:
  assumes "derivable ts ns s p e"
  shows "granted (key_items (from_tuples ts) ns) (memo_key s p e)"
  using assms
proof induction
  case (direct p e t)
  then show ?case
    by (intro granted_hit) (auto simp: key_items_def Inl_True_items)
next
  case (userset p e t r)
  then have "Inr (memo_key s r (tuple_subject t)) \<in> set (relation_items (from_tuples ts) s p e)"
    by (auto simp: Inr_relation_items)
  with userset show ?case
    by (intro granted_step [OF _ userset.IH]) (auto simp: key_items_def Inr_items split: Rule.split)
next
  case (any_of p e ms m)
  then show ?case
    by (intro granted_step [OF _ any_of.IH]) (auto simp: key_items_def Inr_items)
next
  case (forward p e ttu t)
  then show ?case
    by (intro granted_step [OF _ forward.IH]) (auto simp: key_items_def Inr_items)
next
  case (reverse p e ttu t)
  then show ?case
    by (intro granted_step [OF _ reverse.IH]) (auto simp: key_items_def Inr_items)
qed

lemma granted_iff_derivable:
  "granted (key_items (from_tuples ts) ns) (memo_key s p e) \<longleftrightarrow> derivable ts ns s p e"
  using granted_derivable [of ts ns "memo_key s p e"] derivable_granted by auto

lemma derivable_mono:
  assumes "derivable ts ns s p e" and "set ts \<subseteq> set ts'"
  shows "derivable ts' ns s p e"
  using assms by induction (blast intro: derivable.intros)+

section \<open>Soundness and completeness\<close>

lemma compute_permission_as_search:
  "compute_permission s p e g ns st depth =
     compute_key g ns (Suc MAX_DEPTH - depth) (memo_key s p e) st"
proof (cases "depth \<le> MAX_DEPTH")
  case True
  then show ?thesis by (simp add: compute_key_memo_key)
next
  case False
  then show ?thesis
    by (simp add: compute_key_memo_key compute_permission.simps)
qed

definition cache_sound :: "ReBACTuple list \<Rightarrow> Namespaces \<Rightarrow> MemoCache \<Rightarrow> bool" where
  "cache_sound ts ns memo \<longleftrightarrow>
     (\<forall>s p e. memo (memo_key s p e) = Some True \<longrightarrow> derivable ts ns s p e)"

lemma cache_sound_iff: "cache_sound ts ns memo \<longleftrightarrow> memo_sound (key_items (from_tuples ts) ns) (memo, vis)"
  unfolding cache_sound_def memo_sound_def granted_iff_derivable [symmetric]
  by (metis fst_conv memo_key_of_key)

lemma compute_permission_sound_raw:
  assumes "cache_sound ts ns memo"
    and "compute_permission s p e (from_tuples ts) ns (memo, vis) depth = (r, (memo', vis'))"
  shows "cache_sound ts ns memo' \<and> (r \<longrightarrow> derivable ts ns s p e)"
proof -
  have run: "compute_key (from_tuples ts) ns (Suc MAX_DEPTH - depth) (memo_key s p e) (memo, vis) = (r, (memo', vis'))"
    using assms(2) by (simp add: compute_permission_as_search)
  have "memo_sound (key_items (from_tuples ts) ns) (memo, vis)"
    using assms(1) cache_sound_iff by blast
  from string_search.run_sound [OF diff_le_self run this] show ?thesis
    unfolding granted_iff_derivable cache_sound_iff [of ts ns memo' vis', symmetric] .
qed

lemma compute_permission_complete_raw:
  assumes "length ks \<le> MAX_DEPTH" and "memo_key s p e \<in> set ks"
    and "\<forall>k \<in> set ks. \<forall>k'. Inr k' \<in> set (key_items (from_tuples ts) ns k) \<longrightarrow> k' \<in> set ks"
  shows "fst (compute_permission s p e (from_tuples ts) ns (Map.empty, {}) 0) \<longleftrightarrow> derivable ts ns s p e"
proof -
  have "card (set ks) < Suc MAX_DEPTH"
    using assms(1) card_length [of ks] by linarith
  moreover have "k' \<in> set ks"
    if "k \<in> set ks" "Inr k' \<in> set (key_items (from_tuples ts) ns k)" for k k'
    using that assms(3) by blast
  ultimately show ?thesis
    unfolding compute_permission_as_search granted_iff_derivable [symmetric] diff_zero
    using string_search.run_complete [OF le_refl finite_set _ assms(2)] by blast
qed

text \<open>
  C2.  Whatever cache, visited set and depth it is called with, the evaluator
  answers \<^verbatim>\<open>true\<close> only for a permission that follows from the stored tuples by
  the rules of the namespaces, provided the positive entries of the cache do; and
  the cache it leaves is again of that kind, so sharing it between checks never
  turns into an unjustified grant.
\<close>

theorem compute_permission_sound:
  assumes "cache_sound ts ns memo"
    and "compute_permission s p e (from_tuples ts) ns (memo, vis) depth = (r, (memo', vis'))"
  shows "cache_sound ts ns memo' \<and> (r \<longrightarrow> derivable ts ns s p e)"
  using assms by (rule compute_permission_sound_raw)


text \<open>Concrete graphs for the examples below.\<close>

definition ent :: "string \<Rightarrow> string \<Rightarrow> Entity" where
  "ent t i = \<lparr>entity_type = t, entity_id = i\<rparr>"

definition tup :: "Entity \<Rightarrow> string option \<Rightarrow> string \<Rightarrow> Entity \<Rightarrow> ReBACTuple" where
  "tup s sr r e = \<lparr>subject_type = entity_type s, subject_id = entity_id s, subject_relation = sr,
     relation = r, object_type = entity_type e, object_id = entity_id e\<rparr>"

definition cyclic_groups :: "ReBACTuple list" where
  "cyclic_groups =
     [tup (ent ''group'' ''b'') (Some ''member'') ''member'' (ent ''group'' ''a''),
      tup (ent ''group'' ''c'') (Some ''member'') ''member'' (ent ''group'' ''a''),
      tup (ent ''group'' ''a'') (Some ''member'') ''member'' (ent ''group'' ''b''),
      tup (ent ''user'' ''alice'') None ''member'' (ent ''group'' ''c'')]"

theorem compute_permission_sound_witness:
  "derivable cyclic_groups [] (ent ''user'' ''alice'') ''member'' (ent ''group'' ''a'')"
proof -
  let ?c = "compute_permission (ent ''user'' ''alice'') ''member'' (ent ''group'' ''a'')
    (from_tuples cyclic_groups) [] (Map.empty, {}) 0"
  have cs: "cache_sound cyclic_groups [] Map.empty"
    by (simp add: cache_sound_def)
  obtain r memo' vis' where run: "?c = (r, (memo', vis'))"
    by (rule prod_cases3)
  have "fst ?c" by code_simp
  with compute_permission_sound [OF cs run] show ?thesis
    unfolding run by simp
qed


text \<open>
  C23.  A negative answer that a cycle cut short stays in the cache: after one
  query, a second query with the same cache and a fresh visited set denies a
  permission that is derivable and that a fresh cache grants.
\<close>

theorem shared_cache_loses_grants:
  "\<exists>ts s p e e0 memo vis.
     snd (compute_permission s p e0 (from_tuples ts) [] (Map.empty, {}) 0) = (memo, vis) \<and>
     derivable ts [] s p e \<and>
     fst (compute_permission s p e (from_tuples ts) [] (Map.empty, {}) 0) \<and>
     \<not> fst (compute_permission s p e (from_tuples ts) [] (memo, {}) 0)"
proof -
  let ?a = "ent ''user'' ''alice''" and ?g = "from_tuples cyclic_groups"
  let ?st = "snd (compute_permission ?a ''member'' (ent ''group'' ''a'') ?g [] (Map.empty, {}) 0)"
  have fresh: "fst (compute_permission ?a ''member'' (ent ''group'' ''b'') ?g [] (Map.empty, {}) 0)"
    by code_simp
  have "cache_sound cyclic_groups [] Map.empty"
    by (simp add: cache_sound_def)
  then have "derivable cyclic_groups [] ?a ''member'' (ent ''group'' ''b'')"
    using fresh compute_permission_sound_raw [of cyclic_groups "[]" Map.empty ?a "''member''"
        "ent ''group'' ''b''" "{}" 0]
    by (metis prod.collapse)
  moreover have "\<not> fst (compute_permission ?a ''member'' (ent ''group'' ''b'') ?g [] (fst ?st, {}) 0)"
    by code_simp
  ultimately show ?thesis
    using fresh by (metis prod.collapse)
qed

text \<open>
  A permission inherited through the \<^verbatim>\<open>parent\<close> tupleset flows only from a
  parent to its children: with no parent recorded for the object and no tuple
  of the permission on it, the check is denied, whoever owns its children.
\<close>

theorem parent_rule_no_escalation:
  assumes "cache_sound ts ns memo"
    and "rule_of ns p e = Through ttu" and "tupleset ttu = ''parent''"
    and "\<forall>t \<in> set ts. \<not> (tuple_subject t = e \<and> relation t = ''parent'')"
    and "\<forall>t \<in> set ts. \<not> (tuple_object t = e \<and> relation t = p)"
  shows "\<not> fst (compute_permission s p e (from_tuples ts) ns (memo, vis) depth)"
proof
  assume granted: "fst (compute_permission s p e (from_tuples ts) ns (memo, vis) depth)"
  obtain r memo' vis' where
    run: "compute_permission s p e (from_tuples ts) ns (memo, vis) depth = (r, (memo', vis'))"
    by (rule prod_cases3)
  have "derivable ts ns s p e"
    using compute_permission_sound_raw [OF assms(1) run] granted run by simp
  then show False
    using assms(2-5) by (cases rule: derivable.cases) auto
qed

definition child_owner :: "ReBACTuple list" where
  "child_owner =
     [tup (ent ''file'' ''/w/a'') None ''parent'' (ent ''file'' ''/w''),
      tup (ent ''user'' ''alice'') None ''owner'' (ent ''file'' ''/w/a'')]"

definition parent_namespace :: Namespaces where
  "parent_namespace =
     [(''file'', \<lparr>relations = [(''owner'', Direct []),
         (''parent_owner'', TupleToUserset \<lparr>tupleset = ''parent'', computed_userset = ''owner''\<rparr>)],
       permissions = [(''write'', [''owner'', ''parent_owner''])]\<rparr>)]"

theorem parent_rule_no_escalation_witness:
  "\<not> fst (compute_permission (ent ''user'' ''alice'') ''parent_owner'' (ent ''file'' ''/w'')
      (from_tuples child_owner) parent_namespace (Map.empty, {}) 0)"
proof (rule parent_rule_no_escalation)
  show "cache_sound child_owner parent_namespace Map.empty"
    by (simp add: cache_sound_def)
  show "rule_of parent_namespace ''parent_owner'' (ent ''file'' ''/w'') =
      Through \<lparr>tupleset = ''parent'', computed_userset = ''owner''\<rparr>"
    by code_simp
  show "\<forall>t \<in> set child_owner. \<not> (tuple_subject t = ent ''file'' ''/w'' \<and> relation t = ''parent'')"
    by code_simp
  show "\<forall>t \<in> set child_owner. \<not> (tuple_object t = ent ''file'' ''/w'' \<and> relation t = ''parent_owner'')"
    by code_simp
qed simp

end
