(* ===== verification/Rebac_Expand.thy ===== *)
theory Rebac_Expand
  imports Rebac_Check
begin

text \<open>
  The enumeration side of the engine (\<^verbatim>\<open>lib/src/rebac/mod.rs\<close>): expanding a
  permission on an object to the subjects that hold it, the closure of a
  permission under the member relations of a namespace, and the collection of
  the objects a subject may reach.  The lemmas characterise the expansion and
  the closure by reachability and show that the collection misses no object
  where the check graph is acyclic within the depth bound.
\<close>

section \<open>Expansion to subjects\<close>

type_synonym SubjectSet = "(string \<times> string) set"
type_synonym VisitKey = "string \<times> string \<times> string"

definition userset_label :: "UsersetEntry \<Rightarrow> string \<times> string" where
  "userset_label u = (ue_subject_type u @ ''#'' @ ue_subject_relation u, ue_subject_id u)"

definition add_direct_subjects :: "string \<Rightarrow> Entity \<Rightarrow> ReBACGraph \<Rightarrow> SubjectSet \<Rightarrow> SubjectSet" where
  "add_direct_subjects rel object g subjects =
     fold (\<lambda>u. insert (userset_label u)) (get_usersets g object rel)
       (fold (\<lambda>e. insert (entity_type e, entity_id e))
         (find_direct_subjects_for_object g object rel) subjects)"

function expand_permission ::
  "string \<Rightarrow> Entity \<Rightarrow> ReBACGraph \<Rightarrow> Namespaces \<Rightarrow> SubjectSet \<times> VisitKey set \<Rightarrow> nat
     \<Rightarrow> SubjectSet \<times> VisitKey set" where
  "expand_permission permission object g ns st depth =
     (if MAX_DEPTH < depth then st
      else case st of (subjects, vis) \<Rightarrow>
        let key = (permission, entity_type object, entity_id object) in
        if key \<in> vis then st
        else
          let vis1 = insert key vis;
              add = (\<lambda>(subs, v). (add_direct_subjects permission object g subs, v))
          in
          (case map_of ns (entity_type object) of
             None \<Rightarrow> add (subjects, vis1)
           | Some namespace \<Rightarrow>
               (case map_of (permissions namespace) permission of
                  Some usersets \<Rightarrow>
                    fold (\<lambda>userset s. expand_permission userset object g ns s (depth + 1))
                      usersets (subjects, vis1)
                | None \<Rightarrow>
                    (case map_of (relations namespace) permission of
                       None \<Rightarrow> add (subjects, vis1)
                     | Some (Direct _) \<Rightarrow> add (subjects, vis1)
                     | Some EmptyDict \<Rightarrow> add (subjects, vis1)
                     | Some (Union members) \<Rightarrow>
                         fold (\<lambda>rel s. expand_permission rel object g ns s (depth + 1))
                           members (subjects, vis1)
                     | Some (TupleToUserset ttu) \<Rightarrow>
                         let st1 = fold (\<lambda>target s. expand_permission (computed_userset ttu) target g ns s (depth + 1))
                                     (find_related_objects g object (tupleset ttu)) (subjects, vis1);
                             st2 = (if tupleset ttu \<noteq> ''parent''
                                    then fold (\<lambda>target s. expand_permission (computed_userset ttu) target g ns s (depth + 1))
                                           (find_subjects_for_object g object (tupleset ttu)) st1
                                    else st1)
                         in add st2))))"
  by pat_completeness auto
termination
  by (relation "measure (\<lambda>(_, _, _, _, _, depth). Suc MAX_DEPTH - depth)") auto

declare expand_permission.simps [simp del]

section \<open>The relations that can grant a permission\<close>

definition relation_members :: "string \<Rightarrow> Namespaces \<Rightarrow> string \<Rightarrow> string list" where
  "relation_members otype ns rel =
     (case map_of ns otype of
        None \<Rightarrow> []
      | Some n \<Rightarrow>
          (case map_of (permissions n) rel of Some us \<Rightarrow> us | None \<Rightarrow> []) @
          (case map_of (relations n) rel of Some (Union ms) \<Rightarrow> ms | _ \<Rightarrow> []))"

text \<open>
  The worklist is a vector used as a stack; its end is the head of the list.
  The set of expanded relations is kept in the order of insertion.
\<close>

function expand_relations ::
  "string \<Rightarrow> Namespaces \<Rightarrow> string list \<Rightarrow> string list \<Rightarrow> string list" where
  "expand_relations otype ns expanded [] = expanded"
| "expand_relations otype ns expanded (rel # to_expand) =
     (if rel \<in> set expanded then expand_relations otype ns expanded to_expand
      else
        let expanded' = expanded @ [rel]
        in expand_relations otype ns expanded'
             (fold (\<lambda>m st. if m \<in> set expanded' then st else m # st)
                (relation_members otype ns rel) to_expand))"
  by pat_completeness auto

definition all_members :: "string \<Rightarrow> Namespaces \<Rightarrow> string set" where
  "all_members otype ns =
     (case map_of ns otype of
        None \<Rightarrow> {}
      | Some n \<Rightarrow> (\<Union>us \<in> set (map snd (permissions n)). set us) \<union>
          (\<Union>c \<in> set (map snd (relations n)). case c of Union ms \<Rightarrow> set ms | _ \<Rightarrow> {}))"

lemma finite_all_members: "finite (all_members otype ns)"
  by (auto simp: all_members_def split: option.split RelationConfig.split)

lemma relation_members_subset: "set (relation_members otype ns rel) \<subseteq> all_members otype ns"
proof (cases "map_of ns otype")
  case (Some n)
  have "set us \<subseteq> all_members otype ns" if "map_of (permissions n) rel = Some us" for us
    using that map_of_SomeD [OF that] Some by (force simp: all_members_def)
  moreover have "set ms \<subseteq> all_members otype ns" if "map_of (relations n) rel = Some (Union ms)" for ms
    using that map_of_SomeD [OF that] Some by (force simp: all_members_def)
  ultimately show ?thesis
    using Some
    by (cases "map_of (permissions n) rel"; cases "map_of (relations n) rel")
      (auto simp: relation_members_def split: RelationConfig.split)
qed (simp add: relation_members_def)

lemma set_push_unseen:
  "set (fold (\<lambda>m st. if m \<in> S then st else m # st) ms st) = set st \<union> (set ms - S)"
  by (induction ms arbitrary: st) auto

termination expand_relations
proof (relation "measures [\<lambda>(otype, ns, expanded, st). card ((all_members otype ns \<union> set st) - set expanded),
    \<lambda>(otype, ns, expanded, st). length st]", goal_cases)
  case 1
  show ?case by simp
next
  case (2 otype ns expanded rel to_expand)
  have "(all_members otype ns \<union> set to_expand) - set expanded =
      (all_members otype ns \<union> set (rel # to_expand)) - set expanded"
    using 2 by auto
  then show ?case by simp
next
  case (3 otype ns expanded rel to_expand expanded')
  let ?new = "(all_members otype ns \<union> set (fold (\<lambda>m st. if m \<in> set expanded' then st else m # st)
    (relation_members otype ns rel) to_expand)) - set expanded'"
  let ?old = "(all_members otype ns \<union> set (rel # to_expand)) - set expanded"
  have "?new = (all_members otype ns \<union> set to_expand) - set expanded'"
    using relation_members_subset [of otype ns rel] unfolding set_push_unseen by auto
  then have "rel \<in> ?old - ?new" and "?new \<subseteq> ?old"
    using 3 by auto
  moreover have "finite ?old"
    using finite_all_members by simp
  ultimately have "card ?new < card ?old"
    by (intro psubset_card_mono) auto
  then show ?case by simp
qed

definition get_permission_relations :: "string \<Rightarrow> string \<Rightarrow> Namespaces \<Rightarrow> string list" where
  "get_permission_relations permission otype ns = expand_relations otype ns [] [permission]"

section \<open>Candidate objects\<close>

record UsersetRelationCandidateIndex =
  keys_by_relation :: "(string \<times> UsersetKey list) list"

record TupleToUsersetCandidateIndex =
  forward_keys_by_relation :: "(string \<times> AdjacencyKey list) list"
  reverse_keys_by_relation :: "(string \<times> AdjacencyKey list) list"

text \<open>The loops over the keys of an index that group those of one object type by relation.\<close>

definition group_keys ::
  "string \<Rightarrow> string set \<Rightarrow> AdjacencyKey list \<Rightarrow> (string \<times> AdjacencyKey list) list" where
  "group_keys otype rels keys =
     fold (\<lambda>key m. case key of (t, i, r) \<Rightarrow>
             if t = otype \<and> r \<in> rels then push_entry r key m else m) keys []"

definition build_userset_relation_candidate_index ::
  "string \<Rightarrow> string list \<Rightarrow> ReBACGraph \<Rightarrow> UsersetRelationCandidateIndex" where
  "build_userset_relation_candidate_index otype rels g =
     (if rels = [] then \<lparr>keys_by_relation = []\<rparr>
      else \<lparr>keys_by_relation = group_keys otype (set rels) (map fst (userset_index g))\<rparr>)"

definition candidate_tuplesets :: "string \<Rightarrow> string list \<Rightarrow> Namespaces \<Rightarrow> string list" where
  "candidate_tuplesets otype rels ns =
     (case map_of ns otype of
        None \<Rightarrow> []
      | Some n \<Rightarrow> concat (map (\<lambda>r. case map_of (relations n) r of
                                   Some (TupleToUserset ttu) \<Rightarrow> [tupleset ttu] | _ \<Rightarrow> []) rels))"

definition build_tuple_to_userset_candidate_index ::
  "string \<Rightarrow> string list \<Rightarrow> ReBACGraph \<Rightarrow> Namespaces \<Rightarrow> TupleToUsersetCandidateIndex" where
  "build_tuple_to_userset_candidate_index otype rels g ns =
     (let tuplesets = candidate_tuplesets otype rels ns in
      if tuplesets = [] then \<lparr>forward_keys_by_relation = [], reverse_keys_by_relation = []\<rparr>
      else \<lparr>forward_keys_by_relation = group_keys otype (set tuplesets) (map fst (adjacency_list g)),
            reverse_keys_by_relation = group_keys otype (set tuplesets) (map fst (reverse_adjacency g))\<rparr>)"

text \<open>A check with the shared cache and a visited set of its own.\<close>

definition compute_shared ::
  "Entity \<Rightarrow> ReBACGraph \<Rightarrow> Namespaces \<Rightarrow> string \<Rightarrow> Entity \<Rightarrow> MemoCache \<Rightarrow> bool \<times> MemoCache" where
  "compute_shared subject g ns p e memo =
     (case compute_permission subject p e g ns (memo, {}) 0 of (r, (memo', _)) \<Rightarrow> (r, memo'))"

text \<open>
  The loop over the keys of an index: a key becomes a candidate when one of its
  entries passes the check.
\<close>

definition add_matching ::
  "('x \<Rightarrow> MemoCache \<Rightarrow> bool \<times> MemoCache) \<Rightarrow> (AdjacencyKey \<times> 'x list) list \<Rightarrow> AdjacencyKey list
     \<Rightarrow> MemoCache \<times> Entity set \<Rightarrow> MemoCache \<times> Entity set" where
  "add_matching f m keys =
     fold (\<lambda>key (memo, candidates).
             case any_st f (entries_of m key) memo of
               (b, memo') \<Rightarrow>
                 (memo', if b then insert \<lparr>entity_type = fst key, entity_id = fst (snd key)\<rparr> candidates
                         else candidates)) keys"

definition add_userset_relation_candidates ::
  "Entity \<Rightarrow> string \<Rightarrow> ReBACGraph \<Rightarrow> Namespaces \<Rightarrow> UsersetRelationCandidateIndex
     \<Rightarrow> MemoCache \<times> Entity set \<Rightarrow> MemoCache \<times> Entity set" where
  "add_userset_relation_candidates subject rel g ns index st =
     (case map_of (keys_by_relation index) rel of
        None \<Rightarrow> st
      | Some keys \<Rightarrow>
          add_matching (\<lambda>u. compute_shared subject g ns (ue_subject_relation u) (userset_entity u))
            (userset_index g) keys st)"

definition add_tuple_to_userset_candidates ::
  "Entity \<Rightarrow> string \<Rightarrow> string \<Rightarrow> ReBACGraph \<Rightarrow> Namespaces \<Rightarrow> TupleToUsersetCandidateIndex
     \<Rightarrow> MemoCache \<times> Entity set \<Rightarrow> MemoCache \<times> Entity set" where
  "add_tuple_to_userset_candidates subject rel otype g ns index st =
     (case map_of ns otype of
        None \<Rightarrow> st
      | Some n \<Rightarrow>
          (case map_of (relations n) rel of
             Some (TupleToUserset ttu) \<Rightarrow>
               let check = compute_shared subject g ns (computed_userset ttu);
                   st1 = (case map_of (forward_keys_by_relation index) (tupleset ttu) of
                            None \<Rightarrow> st
                          | Some keys \<Rightarrow> add_matching check (adjacency_list g) keys st)
               in if tupleset ttu \<noteq> ''parent''
                  then (case map_of (reverse_keys_by_relation index) (tupleset ttu) of
                          None \<Rightarrow> st1
                        | Some keys \<Rightarrow> add_matching check (reverse_adjacency g) keys st1)
                  else st1
           | _ \<Rightarrow> st))"

definition find_subject_groups :: "Entity \<Rightarrow> ReBACGraph \<Rightarrow> Entity list" where
  "find_subject_groups subject g =
     concat (map (\<lambda>rel. entries_of (adjacency_list g) (entity_type subject, entity_id subject, rel))
       [''member'', ''member-of''])"

definition add_adjacent_candidates ::
  "string \<Rightarrow> ReBACGraph \<Rightarrow> AdjacencyKey \<Rightarrow> Entity set \<Rightarrow> Entity set" where
  "add_adjacent_candidates otype g key candidates =
     fold (\<lambda>e c. if entity_type e = otype then insert e c else c) (entries_of (adjacency_list g) key) candidates"

definition collect_candidate_objects_for_subjects ::
  "Entity list \<Rightarrow> string \<Rightarrow> string \<Rightarrow> ReBACGraph \<Rightarrow> Namespaces \<Rightarrow> Entity set \<Rightarrow> Entity set" where
  "collect_candidate_objects_for_subjects subjects permission otype g ns candidates =
     (let rels = get_permission_relations permission otype ns;
          userset_index = build_userset_relation_candidate_index otype rels g;
          ttu_index = build_tuple_to_userset_candidate_index otype rels g ns
      in snd (fold (\<lambda>subject.
                fold (\<lambda>rel (memo, c).
                   let c1 = add_adjacent_candidates otype g
                              (entity_type subject, entity_id subject, rel) c;
                       c2 = add_adjacent_candidates otype g (''*'', ''*'', rel) c1
                   in add_tuple_to_userset_candidates subject rel otype g ns ttu_index
                        (add_userset_relation_candidates subject rel g ns userset_index (memo, c2)))
                  rels)
              subjects (Map.empty, candidates)))"

definition collect_candidate_objects_for_subject ::
  "Entity \<Rightarrow> string \<Rightarrow> string \<Rightarrow> ReBACGraph \<Rightarrow> Namespaces \<Rightarrow> Entity set \<Rightarrow> Entity set" where
  "collect_candidate_objects_for_subject subject permission otype g ns candidates =
     collect_candidate_objects_for_subjects [subject] permission otype g ns candidates"

section \<open>The closure of a permission\<close>

lemma expand_relations_sound:
  assumes "\<forall>r \<in> set expanded \<union> set st. reaches (relation_members otype ns) p r"
  shows "\<forall>r \<in> set (expand_relations otype ns expanded st). reaches (relation_members otype ns) p r"
  using assms
proof (induction otype ns expanded st rule: expand_relations.induct)
  case (2 otype ns expanded rel to_expand)
  show ?case
  proof (cases "rel \<in> set expanded")
    case True
    then show ?thesis using 2 by simp
  next
    case False
    have "reaches (relation_members otype ns) p m" if m: "m \<in> set (relation_members otype ns rel)" for m
    proof (rule reaches_trans)
      show "reaches (relation_members otype ns) p rel"
        using 2(3) by simp
      show "reaches (relation_members otype ns) rel m"
        using m by (rule reaches_step) (rule reaches_refl)
    qed
    then have "\<forall>r \<in> set (expanded @ [rel]) \<union> set (fold (\<lambda>m st. if m \<in> set (expanded @ [rel]) then st else m # st)
        (relation_members otype ns rel) to_expand). reaches (relation_members otype ns) p r"
      using 2(3) unfolding set_push_unseen by auto
    from 2(2) [OF False refl this] show ?thesis
      using False by (simp add: Let_def)
  qed
qed simp

lemma expand_relations_closed:
  assumes "\<forall>r \<in> set expanded. set (relation_members otype ns r) \<subseteq> set expanded \<union> set st"
  shows "set expanded \<union> set st \<subseteq> set (expand_relations otype ns expanded st) \<and>
    (\<forall>r \<in> set (expand_relations otype ns expanded st).
       set (relation_members otype ns r) \<subseteq> set (expand_relations otype ns expanded st))"
  using assms
proof (induction otype ns expanded st rule: expand_relations.induct)
  case (2 otype ns expanded rel to_expand)
  show ?case
  proof (cases "rel \<in> set expanded")
    case True
    then show ?thesis using 2(1) 2(3) by (simp add: insert_absorb)
  next
    case False
    let ?st = "fold (\<lambda>m st. if m \<in> set (expanded @ [rel]) then st else m # st)
      (relation_members otype ns rel) to_expand"
    have st: "set ?st = set to_expand \<union> (set (relation_members otype ns rel) - set (expanded @ [rel]))"
      by (rule set_push_unseen)
    have "\<forall>r \<in> set (expanded @ [rel]). set (relation_members otype ns r) \<subseteq> set (expanded @ [rel]) \<union> set ?st"
      unfolding st using 2(3) by auto
    from 2(2) [OF False refl this] show ?thesis
      using False st by (simp add: Let_def)
  qed
qed auto

lemma get_permission_relations_set:
  "set (get_permission_relations p otype ns) = {r. reaches (relation_members otype ns) p r}"
proof
  have "\<forall>r \<in> set [] \<union> set [p]. reaches (relation_members otype ns) p r" by auto
  from expand_relations_sound [OF this]
  show "set (get_permission_relations p otype ns) \<subseteq> {r. reaches (relation_members otype ns) p r}"
    by (auto simp: get_permission_relations_def)
  have c: "p \<in> set (get_permission_relations p otype ns)"
    "\<forall>r \<in> set (get_permission_relations p otype ns).
       set (relation_members otype ns r) \<subseteq> set (get_permission_relations p otype ns)"
    using expand_relations_closed [of "[]" otype ns "[p]"] by (auto simp: get_permission_relations_def)
  have "r' \<in> set (get_permission_relations p otype ns)"
    if "reaches (relation_members otype ns) r r'" "r \<in> set (get_permission_relations p otype ns)" for r r'
    using that c(2) by induction auto
  then show "{r. reaches (relation_members otype ns) p r} \<subseteq> set (get_permission_relations p otype ns)"
    using c(1) by auto
qed

section \<open>The expansion as a collecting search\<close>

definition visit_key :: "string \<Rightarrow> Entity \<Rightarrow> VisitKey" where
  "visit_key p e = (p, entity_type e, entity_id e)"

definition visit_object :: "VisitKey \<Rightarrow> Entity" where
  "visit_object k = \<lparr>entity_type = fst (snd k), entity_id = snd (snd k)\<rparr>"

definition expand_succs :: "ReBACGraph \<Rightarrow> Namespaces \<Rightarrow> VisitKey \<Rightarrow> VisitKey list" where
  "expand_succs g ns k =
     (case rule_of ns (fst k) (visit_object k) of
        TuplesOnly \<Rightarrow> []
      | AnyOf ms \<Rightarrow> map (\<lambda>m. visit_key m (visit_object k)) ms
      | Through ttu \<Rightarrow>
          map (visit_key (computed_userset ttu))
            (find_related_objects g (visit_object k) (tupleset ttu) @
             (if tupleset ttu \<noteq> ''parent''
              then find_subjects_for_object g (visit_object k) (tupleset ttu) else [])))"

definition expand_out :: "ReBACGraph \<Rightarrow> Namespaces \<Rightarrow> VisitKey \<Rightarrow> SubjectSet" where
  "expand_out g ns k =
     (case rule_of ns (fst k) (visit_object k) of
        AnyOf _ \<Rightarrow> {}
      | _ \<Rightarrow> add_direct_subjects (fst k) (visit_object k) g {})"

definition expand_key ::
  "ReBACGraph \<Rightarrow> Namespaces \<Rightarrow> nat \<Rightarrow> VisitKey \<Rightarrow> SubjectSet \<times> VisitKey set \<Rightarrow> SubjectSet \<times> VisitKey set" where
  "expand_key g ns levels k st =
     expand_permission (fst k) (visit_object k) g ns st (Suc MAX_DEPTH - levels)"

lemma visit_key_simps [simp]:
  "fst (visit_key p e) = p" "visit_object (visit_key p e) = e"
  by (simp_all add: visit_key_def visit_object_def Entity_eq_iff)

lemma visit_key_object [simp]: "visit_key (fst k) (visit_object k) = k"
  by (cases k) (simp add: visit_key_def visit_object_def)

lemma fold_insert: "fold (\<lambda>x. insert (f x)) xs S = S \<union> f ` set xs"
  by (induction xs arbitrary: S) auto

lemma add_direct_subjects_eq:
  "add_direct_subjects r e g S =
     S \<union> (\<lambda>x. (entity_type x, entity_id x)) ` set (find_direct_subjects_for_object g e r) \<union>
     userset_label ` set (get_usersets g e r)"
  by (simp add: add_direct_subjects_def fold_insert)

lemma fold_expand_key:
  assumes "n \<le> MAX_DEPTH"
  shows "fold (expand_key g ns n) (map (\<lambda>x. visit_key (p x) (f x)) xs) st =
     fold (\<lambda>x st. expand_permission (p x) (f x) g ns st (MAX_DEPTH - n + 1)) xs st"
  using assms by (simp add: fold_map comp_def expand_key_def [abs_def] Suc_diff_le)

interpretation subject_search:
  collect_search "expand_succs g ns" "expand_out g ns" "expand_key g ns" "Suc MAX_DEPTH" for g ns
proof
  show "expand_key g ns 0 k st = st" for k st
    by (simp add: expand_key_def expand_permission.simps)
next
  fix n k acc vis
  assume "n < Suc MAX_DEPTH"
  then have n: "n \<le> MAX_DEPTH" by simp
  note loops = fold_expand_key [OF n, where p = "\<lambda>x. x" and f = "\<lambda>_. visit_object k"]
    fold_expand_key [OF n, where p = "\<lambda>_. p" and f = "\<lambda>x. x" for p]
  have bound: "\<not> MAX_DEPTH < Suc MAX_DEPTH - Suc n" by simp
  have key: "(fst k, entity_type (visit_object k), entity_id (visit_object k)) = k"
    by (simp add: visit_object_def)
  show "expand_key g ns (Suc n) k (acc, vis) =
      (if k \<in> vis then (acc, vis)
       else case fold (expand_key g ns n) (expand_succs g ns k) (acc, insert k vis) of
              (a, v) \<Rightarrow> (a \<union> expand_out g ns k, v))"
    unfolding expand_key_def [of _ _ "Suc n"] expand_permission.simps [of _ _ _ _ _ "Suc MAX_DEPTH - Suc n"]
    using n bound
    by (simp add: Let_def key expand_succs_def expand_out_def rule_of_def loops add_direct_subjects_eq
        Un_assoc split: option.split RelationConfig.split prod.split)
qed

lemma expand_permission_as_search:
  "expand_permission p e g ns st depth = expand_key g ns (Suc MAX_DEPTH - depth) (visit_key p e) st"
proof (cases "depth \<le> MAX_DEPTH")
  case True
  then show ?thesis by (simp add: expand_key_def)
next
  case False
  then show ?thesis by (simp add: expand_key_def expand_permission.simps)
qed

lemma expand_succs_derivable:
  assumes "k' \<in> set (expand_succs (from_tuples ts) ns k)"
    and "derivable ts ns s (fst k') (visit_object k')"
  shows "derivable ts ns s (fst k) (visit_object k)"
proof (cases "rule_of ns (fst k) (visit_object k)")
  case TuplesOnly
  then show ?thesis using assms by (simp add: expand_succs_def)
next
  case (AnyOf ms)
  then show ?thesis
    using assms by (auto simp: expand_succs_def intro: derivable.any_of)
next
  case (Through ttu)
  then show ?thesis
    using assms
    by (auto simp: expand_succs_def find_related_objects_eq find_subjects_for_object_eq
        intro: derivable.forward derivable.reverse split: if_splits)
qed

lemma reaches_derivable:
  assumes "reaches (expand_succs (from_tuples ts) ns) k k'"
    and "derivable ts ns s (fst k') (visit_object k')"
  shows "derivable ts ns s (fst k) (visit_object k)"
  using assms by induction (auto intro: expand_succs_derivable)

lemma expand_out_iff:
  "x \<in> expand_out (from_tuples ts) ns k \<longleftrightarrow>
     (\<forall>ms. rule_of ns (fst k) (visit_object k) \<noteq> AnyOf ms) \<and>
     (\<exists>t \<in> set ts. tuple_object t = visit_object k \<and> relation t = fst k \<and>
        (case subject_relation t of
           None \<Rightarrow> x = (subject_type t, subject_id t)
         | Some r \<Rightarrow> x = (subject_type t @ ''#'' @ r, subject_id t)))"
proof (cases "rule_of ns (fst k) (visit_object k)")
  case (AnyOf ms)
  then show ?thesis by (simp add: expand_out_def)
qed (auto simp: expand_out_def add_direct_subjects_eq find_direct_subjects_for_object_eq get_usersets_eq
    direct_tuple_def tuple_subject_def userset_label_def userset_of_def image_iff split: option.splits)

section \<open>Candidates where the check graph is ranked\<close>

definition cache_exact :: "ReBACTuple list \<Rightarrow> Namespaces \<Rightarrow> MemoCache \<Rightarrow> bool" where
  "cache_exact ts ns memo \<longleftrightarrow>
     (\<forall>s p e b. memo (memo_key s p e) = Some b \<longrightarrow> b = derivable ts ns s p e)"

definition ranked :: "ReBACTuple list \<Rightarrow> Namespaces \<Rightarrow> (MemoKey \<Rightarrow> nat) \<Rightarrow> bool" where
  "ranked ts ns rank \<longleftrightarrow>
     (\<forall>k k'. Inr k' \<in> set (key_items (from_tuples ts) ns k) \<longrightarrow> rank k' < rank k) \<and>
     (\<forall>k. rank k \<le> MAX_DEPTH)"

lemma cache_exact_iff:
  "string_search.memo_exact (from_tuples ts) ns (memo, vis) \<longleftrightarrow> cache_exact ts ns memo"
  unfolding string_search.memo_exact_def cache_exact_def granted_iff_derivable [symmetric]
  by (metis fst_conv memo_key_of_key)

lemma compute_permission_exact:
  assumes "ranked ts ns rank" and "cache_exact ts ns memo"
  shows "fst (compute_permission s p e (from_tuples ts) ns (memo, {}) 0) = derivable ts ns s p e \<and>
    cache_exact ts ns (fst (snd (compute_permission s p e (from_tuples ts) ns (memo, {}) 0)))"
proof -
  let ?k = "memo_key s p e"
  have rank: "rank k' < rank k" if "Inr k' \<in> set (key_items (from_tuples ts) ns k)" for k k'
    using assms(1) that unfolding ranked_def by blast
  have le: "rank ?k < Suc MAX_DEPTH"
    using assms(1) unfolding ranked_def by (blast intro: le_imp_less_Suc)
  have ex: "string_search.memo_exact (from_tuples ts) ns (memo, {})"
    using assms(2) cache_exact_iff by blast
  have sub: "snd (memo, {}) \<subseteq> dom (fst (memo, {})) \<union> {}" by simp
  note run = string_search.run_exact [where rank = rank, OF rank le_refl le ex sub]
  obtain r memo' vis' where c: "compute_key (from_tuples ts) ns (Suc MAX_DEPTH) ?k (memo, {}) = (r, (memo', vis'))"
    by (rule prod_cases3)
  show ?thesis
    using run unfolding compute_permission_as_search granted_iff_derivable c diff_zero
    by (simp add: c cache_exact_iff)
qed

lemma compute_shared_exact:
  assumes "ranked ts ns rank" and "cache_exact ts ns memo"
  shows "fst (compute_shared s (from_tuples ts) ns p e memo) = derivable ts ns s p e \<and>
    cache_exact ts ns (snd (compute_shared s (from_tuples ts) ns p e memo))"
  using compute_permission_exact [OF assms, of s p e]
  by (simp add: compute_shared_def case_prod_beta)

lemma add_matching_exact:
  assumes f: "\<And>x memo. cache_exact ts ns memo \<Longrightarrow>
      fst (f x memo) = Q x \<and> cache_exact ts ns (snd (f x memo))"
    and "cache_exact ts ns memo"
  shows "cache_exact ts ns (fst (add_matching f m keys (memo, c))) \<and>
    snd (add_matching f m keys (memo, c)) =
      c \<union> {\<lparr>entity_type = fst k, entity_id = fst (snd k)\<rparr> |k. k \<in> set keys \<and> (\<exists>x \<in> set (entries_of m k). Q x)}"
  using assms(2)
proof (induction keys arbitrary: memo c)
  case Nil
  then show ?case by (simp add: add_matching_def)
next
  case (Cons key keys)
  obtain b memo' where any: "any_st f (entries_of m key) memo = (b, memo')"
    by (cases "any_st f (entries_of m key) memo")
  have b: "b = (\<exists>x \<in> set (entries_of m key). Q x)" and ex: "cache_exact ts ns memo'"
    using string_search.any_st_exact [of "entries_of m key" "cache_exact ts ns" f Q memo] f Cons.prems any
    by auto
  have "add_matching f m (key # keys) (memo, c) = add_matching f m keys
      (memo', if b then insert \<lparr>entity_type = fst key, entity_id = fst (snd key)\<rparr> c else c)"
    by (simp add: add_matching_def any)
  then show ?case
    using Cons.IH [OF ex] b by (cases key) auto
qed

lemma entries_of_keys: "entries_of m k \<noteq> [] \<Longrightarrow> k \<in> set (map fst m)"
  by (cases "map_of m k") (force simp: entries_of_def dest: map_of_SomeD)+

lemma group_keys_entries:
  "entries_of (group_keys otype rels keys) r = filter (\<lambda>(t, i, r'). t = otype \<and> r' = r \<and> r \<in> rels) keys"
proof (induction keys rule: rev_induct)
  case Nil
  then show ?case by (simp add: group_keys_def)
next
  case (snoc key keys)
  then show ?case by (cases key) (simp add: group_keys_def)
qed

text \<open>The last step of a derivation, on the object itself.\<close>

definition terminal :: "ReBACTuple list \<Rightarrow> Namespaces \<Rightarrow> Entity \<Rightarrow> string \<Rightarrow> Entity \<Rightarrow> bool" where
  "terminal ts ns s r e \<longleftrightarrow>
     (\<exists>t \<in> set ts. tuple_object t = e \<and> relation t = r \<and> subject_relation t = None \<and>
        (tuple_subject t = s \<or> tuple_subject t = wildcard)) \<or>
     (\<exists>t \<in> set ts. tuple_object t = e \<and> relation t = r \<and>
        (\<exists>sr. subject_relation t = Some sr \<and> derivable ts ns s sr (tuple_subject t))) \<or>
     (\<exists>ttu. rule_of ns r e = Through ttu \<and>
        ((\<exists>t \<in> set ts. tuple_subject t = e \<and> relation t = tupleset ttu \<and>
            derivable ts ns s (computed_userset ttu) (tuple_object t)) \<or>
         (tupleset ttu \<noteq> ''parent'' \<and>
          (\<exists>t \<in> set ts. tuple_object t = e \<and> relation t = tupleset ttu \<and>
            derivable ts ns s (computed_userset ttu) (tuple_subject t)))))"

lemma rule_members:
  "rule_of ns p e = AnyOf ms \<Longrightarrow> set ms \<subseteq> set (relation_members (entity_type e) ns p)"
  by (auto simp: rule_of_def relation_members_def split: option.splits RelationConfig.splits)

lemma derivable_terminal:
  assumes "derivable ts ns s p e"
  shows "\<exists>r. reaches (relation_members (entity_type e) ns) p r \<and> terminal ts ns s r e"
  using assms
proof induction
  case (direct p e t)
  then have "terminal ts ns s p e" unfolding terminal_def by blast
  then show ?case by (blast intro: reaches_refl)
next
  case (userset p e t r)
  then have "terminal ts ns s p e" unfolding terminal_def by blast
  then show ?case by (blast intro: reaches_refl)
next
  case (any_of p e ms m)
  then obtain r where "reaches (relation_members (entity_type e) ns) m r" "terminal ts ns s r e"
    by blast
  moreover have "m \<in> set (relation_members (entity_type e) ns p)"
    using rule_members any_of.hyps by blast
  ultimately show ?case by (blast intro: reaches_step)
next
  case (forward p e ttu t)
  then have "terminal ts ns s p e" unfolding terminal_def by blast
  then show ?case by (blast intro: reaches_refl)
next
  case (reverse p e ttu t)
  then have "terminal ts ns s p e" unfolding terminal_def by blast
  then show ?case by (blast intro: reaches_refl)
qed

text \<open>One subject and one relation of the collection loop.\<close>

definition candidate_step ::
  "string \<Rightarrow> string list \<Rightarrow> ReBACGraph \<Rightarrow> Namespaces \<Rightarrow> Entity \<Rightarrow> string
     \<Rightarrow> MemoCache \<times> Entity set \<Rightarrow> MemoCache \<times> Entity set" where
  "candidate_step otype rels g ns subject rel st =
     add_tuple_to_userset_candidates subject rel otype g ns
       (build_tuple_to_userset_candidate_index otype rels g ns)
       (add_userset_relation_candidates subject rel g ns
         (build_userset_relation_candidate_index otype rels g)
         (fst st, add_adjacent_candidates otype g (''*'', ''*'', rel)
            (add_adjacent_candidates otype g (entity_type subject, entity_id subject, rel) (snd st))))"

lemma collect_as_steps:
  "collect_candidate_objects_for_subjects subjects p otype g ns c =
     snd (fold (\<lambda>s. fold (candidate_step otype (get_permission_relations p otype ns) g ns s)
                 (get_permission_relations p otype ns)) subjects (Map.empty, c))"
  by (simp add: collect_candidate_objects_for_subjects_def Let_def candidate_step_def [abs_def]
      case_prod_beta')

lemma add_adjacent_candidates_eq:
  "add_adjacent_candidates otype g key c =
     c \<union> {e \<in> set (entries_of (adjacency_list g) key). entity_type e = otype}"
proof -
  have "fold (\<lambda>e c. if entity_type e = otype then insert e c else c) es c =
      c \<union> {e \<in> set es. entity_type e = otype}" for es
    by (induction es arbitrary: c) auto
  then show ?thesis by (simp add: add_adjacent_candidates_def)
qed

lemma map_of_entries: "map_of m k = None \<Longrightarrow> entries_of m k = []" "map_of m k = Some xs \<Longrightarrow> entries_of m k = xs"
  by (simp_all add: entries_of_def)

lemma add_userset_relation_candidates_exact:
  assumes "ranked ts ns rank" and "cache_exact ts ns memo"
  shows "cache_exact ts ns (fst (add_userset_relation_candidates s rel (from_tuples ts) ns idx (memo, c))) \<and>
    snd (add_userset_relation_candidates s rel (from_tuples ts) ns idx (memo, c)) =
      c \<union> {\<lparr>entity_type = fst k, entity_id = fst (snd k)\<rparr> |k. k \<in> set (entries_of (keys_by_relation idx) rel) \<and>
        (\<exists>u \<in> set (entries_of (userset_index (from_tuples ts)) k).
           derivable ts ns s (ue_subject_relation u) (userset_entity u))}"
proof (cases "map_of (keys_by_relation idx) rel")
  case None
  then show ?thesis
    using assms(2) by (simp add: add_userset_relation_candidates_def map_of_entries)
next
  case (Some keys)
  note f = compute_shared_exact [OF assms(1)]
  show ?thesis
    using add_matching_exact [where Q = "\<lambda>u. derivable ts ns s (ue_subject_relation u) (userset_entity u)"
        and f = "\<lambda>u. compute_shared s (from_tuples ts) ns (ue_subject_relation u) (userset_entity u)"
        and m = "userset_index (from_tuples ts)" and keys = keys and c = c, OF f assms(2)]
    by (simp add: add_userset_relation_candidates_def Some map_of_entries(2) [OF Some])
qed

lemma add_tuple_to_userset_candidates_exact:
  assumes "ranked ts ns rank" and "cache_exact ts ns memo"
  shows "cache_exact ts ns (fst (add_tuple_to_userset_candidates s rel otype (from_tuples ts) ns idx (memo, c))) \<and>
    c \<subseteq> snd (add_tuple_to_userset_candidates s rel otype (from_tuples ts) ns idx (memo, c)) \<and>
    (\<forall>n ttu k t. map_of ns otype = Some n \<longrightarrow> map_of (relations n) rel = Some (TupleToUserset ttu) \<longrightarrow>
       derivable ts ns s (computed_userset ttu) t \<longrightarrow>
       k \<in> set (entries_of (forward_keys_by_relation idx) (tupleset ttu)) \<and>
         t \<in> set (entries_of (adjacency_list (from_tuples ts)) k) \<or>
       tupleset ttu \<noteq> ''parent'' \<and>
         k \<in> set (entries_of (reverse_keys_by_relation idx) (tupleset ttu)) \<and>
         t \<in> set (entries_of (reverse_adjacency (from_tuples ts)) k) \<longrightarrow>
       \<lparr>entity_type = fst k, entity_id = fst (snd k)\<rparr> \<in>
         snd (add_tuple_to_userset_candidates s rel otype (from_tuples ts) ns idx (memo, c)))"
proof (cases "map_of ns otype")
  case None
  then show ?thesis using assms(2) by (simp add: add_tuple_to_userset_candidates_def)
next
  case (Some n)
  show ?thesis
  proof (cases "\<exists>ttu. map_of (relations n) rel = Some (TupleToUserset ttu)")
    case False
    then show ?thesis
      using Some assms(2)
      by (auto simp: add_tuple_to_userset_candidates_def split: option.split RelationConfig.split)
  next
    case True
    then obtain ttu where ttu: "map_of (relations n) rel = Some (TupleToUserset ttu)" by blast
    let ?g = "from_tuples ts" and ?f = "compute_shared s (from_tuples ts) ns (computed_userset ttu)"
    note f = compute_shared_exact [OF assms(1), of _ s "computed_userset ttu"]
    define sweep where "sweep keys m st = (case map_of keys (tupleset ttu) of
        None \<Rightarrow> st | Some ks \<Rightarrow> add_matching ?f m ks st)"
      for keys :: "(string \<times> AdjacencyKey list) list" and m st
    have sweep: "cache_exact ts ns (fst (sweep keys m st)) \<and>
        snd (sweep keys m st) = snd st \<union> {\<lparr>entity_type = fst k, entity_id = fst (snd k)\<rparr> |k.
          k \<in> set (entries_of keys (tupleset ttu)) \<and>
          (\<exists>t \<in> set (entries_of m k). derivable ts ns s (computed_userset ttu) t)}"
      if "cache_exact ts ns (fst st)" for keys m st
      using add_matching_exact [where Q = "derivable ts ns s (computed_userset ttu)" and f = ?f
          and m = m and memo = "fst st" and c = "snd st", OF f that] that
      by (cases "map_of keys (tupleset ttu)") (auto simp: sweep_def map_of_entries)
    have eq: "add_tuple_to_userset_candidates s rel otype ?g ns idx (memo, c) =
        (let st1 = sweep (forward_keys_by_relation idx) (adjacency_list ?g) (memo, c)
         in if tupleset ttu \<noteq> ''parent'' then sweep (reverse_keys_by_relation idx) (reverse_adjacency ?g) st1
            else st1)"
      by (simp add: add_tuple_to_userset_candidates_def Some ttu sweep_def Let_def)
    let ?st1 = "sweep (forward_keys_by_relation idx) (adjacency_list ?g) (memo, c)"
    have s1: "cache_exact ts ns (fst ?st1)"
      and c1: "snd ?st1 = c \<union> {\<lparr>entity_type = fst k, entity_id = fst (snd k)\<rparr> |k.
          k \<in> set (entries_of (forward_keys_by_relation idx) (tupleset ttu)) \<and>
          (\<exists>t \<in> set (entries_of (adjacency_list ?g) k). derivable ts ns s (computed_userset ttu) t)}"
      using sweep [of "(memo, c)"] assms(2) by auto
    show ?thesis
      unfolding eq Let_def using s1 c1 sweep [OF s1] Some ttu by (cases "tupleset ttu = ''parent''") auto
  qed
qed

lemma candidate_step_exact:
  assumes "ranked ts ns rank" and "cache_exact ts ns (fst st)"
  shows "cache_exact ts ns (fst (candidate_step otype rels (from_tuples ts) ns s rel st)) \<and>
    snd st \<subseteq> snd (candidate_step otype rels (from_tuples ts) ns s rel st)"
proof -
  let ?c = "add_adjacent_candidates otype (from_tuples ts) (''*'', ''*'', rel)
    (add_adjacent_candidates otype (from_tuples ts) (entity_type s, entity_id s, rel) (snd st))"
  let ?idx = "build_userset_relation_candidate_index otype rels (from_tuples ts)"
  obtain memo1 c1 where u: "add_userset_relation_candidates s rel (from_tuples ts) ns ?idx (fst st, ?c) = (memo1, c1)"
    by (cases "add_userset_relation_candidates s rel (from_tuples ts) ns ?idx (fst st, ?c)")
  have "cache_exact ts ns memo1" and "?c \<subseteq> c1"
    using add_userset_relation_candidates_exact [OF assms, of s rel ?idx ?c] u by auto
  moreover have "snd st \<subseteq> ?c"
    by (auto simp: add_adjacent_candidates_eq)
  ultimately show ?thesis
    using add_tuple_to_userset_candidates_exact [OF assms(1), of memo1 s rel otype
        "build_tuple_to_userset_candidate_index otype rels (from_tuples ts) ns" c1]
    by (auto simp: candidate_step_def u)
qed

lemma entries_from_tuples:
  "entries_of (adjacency_list (from_tuples ts)) (entity_type e, entity_id e, r) =
     map tuple_object (filter (\<lambda>t. tuple_subject t = e \<and> relation t = r) ts)"
  "entries_of (reverse_adjacency (from_tuples ts)) (entity_type e, entity_id e, r) =
     map tuple_subject (filter (\<lambda>t. tuple_object t = e \<and> relation t = r) ts)"
  "entries_of (userset_index (from_tuples ts)) (entity_type e, entity_id e, r) =
     map userset_of (filter (\<lambda>t. \<not> direct_tuple t \<and> tuple_object t = e \<and> relation t = r) ts)"
  using find_related_objects_eq find_subjects_for_object_eq get_usersets_eq
  by (simp_all add: find_related_objects_def find_subjects_for_object_def get_usersets_def)

lemma group_keys_mem:
  assumes "x \<in> set (entries_of m (otype, i, r))" and "r \<in> rels"
  shows "(otype, i, r) \<in> set (entries_of (group_keys otype rels (map fst m)) r)"
proof -
  have "entries_of m (otype, i, r) \<noteq> []"
    using assms(1) by auto
  from entries_of_keys [OF this] assms(2) show ?thesis
    by (auto simp: group_keys_entries)
qed

lemma candidate_tuplesets_mem:
  "map_of ns otype = Some n \<Longrightarrow> map_of (relations n) r = Some (TupleToUserset ttu) \<Longrightarrow> r \<in> set rels \<Longrightarrow>
     tupleset ttu \<in> set (candidate_tuplesets otype rels ns)"
  by (force simp: candidate_tuplesets_def)

lemma rule_Through:
  "rule_of ns r e = Through ttu \<Longrightarrow>
     \<exists>n. map_of ns (entity_type e) = Some n \<and> map_of (relations n) r = Some (TupleToUserset ttu)"
  by (auto simp: rule_of_def split: option.splits RelationConfig.splits)

lemma Entity_collapse [simp]: "\<lparr>entity_type = entity_type e, entity_id = entity_id e\<rparr> = e"
  by (simp add: Entity_eq_iff)

lemma candidate_step_terminal:
  assumes "ranked ts ns rank" and "cache_exact ts ns (fst st)"
    and r: "r \<in> set rels" and "terminal ts ns s r e"
  shows "e \<in> snd (candidate_step (entity_type e) rels (from_tuples ts) ns s r st)"
proof -
  let ?g = "from_tuples ts" and ?T = "entity_type e"
  let ?c = "add_adjacent_candidates ?T ?g (''*'', ''*'', r)
    (add_adjacent_candidates ?T ?g (entity_type s, entity_id s, r) (snd st))"
  let ?idx = "build_userset_relation_candidate_index ?T rels ?g"
  let ?tidx = "build_tuple_to_userset_candidate_index ?T rels ?g ns"
  obtain memo1 c1 where u: "add_userset_relation_candidates s r ?g ns ?idx (fst st, ?c) = (memo1, c1)"
    by (cases "add_userset_relation_candidates s r ?g ns ?idx (fst st, ?c)")
  have memo1: "cache_exact ts ns memo1"
    and c1: "c1 = ?c \<union> {\<lparr>entity_type = fst k, entity_id = fst (snd k)\<rparr> |k.
        k \<in> set (entries_of (keys_by_relation ?idx) r) \<and>
        (\<exists>u \<in> set (entries_of (userset_index ?g) k). derivable ts ns s (ue_subject_relation u) (userset_entity u))}"
    using add_userset_relation_candidates_exact [OF assms(1,2), of s r ?idx ?c] u by auto
  note ttu = add_tuple_to_userset_candidates_exact [OF assms(1) memo1, of s r ?T ?tidx c1]
  have step: "candidate_step ?T rels ?g ns s r st = add_tuple_to_userset_candidates s r ?T ?g ns ?tidx (memo1, c1)"
    by (simp add: candidate_step_def u)
  from assms(4) consider
    (direct) t where "t \<in> set ts" "tuple_object t = e" "relation t = r"
      "tuple_subject t = s \<or> tuple_subject t = wildcard"
  | (userset) t sr where "t \<in> set ts" "tuple_object t = e" "relation t = r" "subject_relation t = Some sr"
      "derivable ts ns s sr (tuple_subject t)"
  | (forward) x t where "rule_of ns r e = Through x" "t \<in> set ts" "tuple_subject t = e"
      "relation t = tupleset x" "derivable ts ns s (computed_userset x) (tuple_object t)"
  | (reverse) x t where "rule_of ns r e = Through x" "tupleset x \<noteq> ''parent''" "t \<in> set ts"
      "tuple_object t = e" "relation t = tupleset x" "derivable ts ns s (computed_userset x) (tuple_subject t)"
    unfolding terminal_def by blast
  then show ?thesis
  proof cases
    case direct
    then have "e \<in> ?c"
      using entries_from_tuples(1) [of ts s r] entries_from_tuples(1) [of ts wildcard r]
      by (auto simp: add_adjacent_candidates_eq wildcard_def)
    then show ?thesis
      using c1 ttu step by auto
  next
    case userset
    let ?k = "(?T, entity_id e, r)"
    have "userset_of t \<in> set (entries_of (userset_index ?g) ?k)"
      using userset by (auto simp: entries_from_tuples direct_tuple_def)
    moreover from this have "?k \<in> set (entries_of (keys_by_relation ?idx) r)"
      using r group_keys_mem [of _ "userset_index ?g" ?T "entity_id e" r "set rels"]
      by (auto simp: build_userset_relation_candidate_index_def)
    moreover have "derivable ts ns s (ue_subject_relation (userset_of t)) (userset_entity (userset_of t))"
      using userset by (simp add: userset_of_def userset_entity_def tuple_subject_def)
    ultimately have "\<lparr>entity_type = fst ?k, entity_id = fst (snd ?k)\<rparr> \<in> c1"
      unfolding c1 by blast
    then show ?thesis
      using ttu step by auto
  next
    case forward
    obtain n where n: "map_of ns ?T = Some n" "map_of (relations n) r = Some (TupleToUserset x)"
      using rule_Through [OF forward(1)] by blast
    let ?k = "(?T, entity_id e, tupleset x)"
    have t: "tuple_object t \<in> set (entries_of (adjacency_list ?g) ?k)"
      using forward by (auto simp: entries_from_tuples)
    then have "?k \<in> set (entries_of (forward_keys_by_relation ?tidx) (tupleset x))"
      using candidate_tuplesets_mem [OF n r]
        group_keys_mem [of _ "adjacency_list ?g" ?T "entity_id e" "tupleset x" "set (candidate_tuplesets ?T rels ns)"]
      by (auto simp: build_tuple_to_userset_candidate_index_def Let_def)
    with ttu n t forward(5) have "\<lparr>entity_type = fst ?k, entity_id = fst (snd ?k)\<rparr> \<in>
        snd (add_tuple_to_userset_candidates s r ?T ?g ns ?tidx (memo1, c1))"
      by blast
    then show ?thesis
      using step by simp
  next
    case reverse
    obtain n where n: "map_of ns ?T = Some n" "map_of (relations n) r = Some (TupleToUserset x)"
      using rule_Through [OF reverse(1)] by blast
    let ?k = "(?T, entity_id e, tupleset x)"
    have t: "tuple_subject t \<in> set (entries_of (reverse_adjacency ?g) ?k)"
      using reverse by (auto simp: entries_from_tuples)
    then have "?k \<in> set (entries_of (reverse_keys_by_relation ?tidx) (tupleset x))"
      using candidate_tuplesets_mem [OF n r]
        group_keys_mem [of _ "reverse_adjacency ?g" ?T "entity_id e" "tupleset x" "set (candidate_tuplesets ?T rels ns)"]
      by (auto simp: build_tuple_to_userset_candidate_index_def Let_def)
    with ttu n t reverse(2,6) have "\<lparr>entity_type = fst ?k, entity_id = fst (snd ?k)\<rparr> \<in>
        snd (add_tuple_to_userset_candidates s r ?T ?g ns ?tidx (memo1, c1))"
      by blast
    then show ?thesis
      using step by simp
  qed
qed

lemma fold_candidate_steps:
  assumes "ranked ts ns rank" and "cache_exact ts ns (fst st)"
  shows "cache_exact ts ns (fst (fold (candidate_step otype rels (from_tuples ts) ns s) rs st)) \<and>
    snd st \<subseteq> snd (fold (candidate_step otype rels (from_tuples ts) ns s) rs st)"
  using assms(2)
proof (induction rs arbitrary: st)
  case (Cons r rs)
  have ex: "cache_exact ts ns (fst (candidate_step otype rels (from_tuples ts) ns s r st))"
    and sub: "snd st \<subseteq> snd (candidate_step otype rels (from_tuples ts) ns s r st)"
    using candidate_step_exact [OF assms(1) Cons.prems] by auto
  from Cons.IH [OF ex] subset_trans [OF sub] show ?case by simp
qed simp

lemma fold_candidate_steps_terminal:
  assumes "ranked ts ns rank" and "cache_exact ts ns (fst st)"
    and "r \<in> set rs" and "r \<in> set rels" and "terminal ts ns s r e"
  shows "e \<in> snd (fold (candidate_step (entity_type e) rels (from_tuples ts) ns s) rs st)"
  using assms(2,3)
proof (induction rs arbitrary: st)
  case (Cons r' rs)
  let ?st = "candidate_step (entity_type e) rels (from_tuples ts) ns s r' st"
  have ex: "cache_exact ts ns (fst ?st)"
    using candidate_step_exact [OF assms(1) Cons.prems(1)] by simp
  show ?case
  proof (cases "r' = r")
    case True
    then have "e \<in> snd ?st"
      using candidate_step_terminal [OF assms(1) Cons.prems(1) assms(4,5)] by simp
    moreover have "snd ?st \<subseteq> snd (fold (candidate_step (entity_type e) rels (from_tuples ts) ns s) rs ?st)"
      using fold_candidate_steps [OF assms(1) ex] by simp
    ultimately show ?thesis by auto
  next
    case False
    then show ?thesis using Cons.IH [OF ex] Cons.prems(2) by simp
  qed
qed simp

lemma fold_subjects_terminal:
  assumes "ranked ts ns rank" and "cache_exact ts ns (fst st)"
    and "s \<in> set subjects" and "r \<in> set rels" and "terminal ts ns s r e"
  shows "e \<in> snd (fold (\<lambda>s. fold (candidate_step (entity_type e) rels (from_tuples ts) ns s) rels) subjects st)"
  using assms(2,3)
proof (induction subjects arbitrary: st)
  case (Cons s' subjects)
  let ?st = "fold (candidate_step (entity_type e) rels (from_tuples ts) ns s') rels st"
  have ex: "cache_exact ts ns (fst ?st)"
    using fold_candidate_steps [OF assms(1) Cons.prems(1)] by simp
  have mono: "snd st' \<subseteq> snd (fold (\<lambda>s. fold (candidate_step (entity_type e) rels (from_tuples ts) ns s) rels) ss st')"
    if "cache_exact ts ns (fst st')" for ss st'
    using that
  proof (induction ss arbitrary: st')
    case (Cons s ss)
    let ?st = "fold (candidate_step (entity_type e) rels (from_tuples ts) ns s) rels st'"
    have ex: "cache_exact ts ns (fst ?st)" and sub: "snd st' \<subseteq> snd ?st"
      using fold_candidate_steps [OF assms(1) Cons.prems] by auto
    from Cons.IH [OF ex] subset_trans [OF sub] show ?case by simp
  qed simp
  show ?case
  proof (cases "s' = s")
    case True
    then show ?thesis
      using fold_candidate_steps_terminal [OF assms(1) Cons.prems(1) assms(4,4,5)] mono [OF ex] by auto
  next
    case False
    then show ?thesis using Cons.IH [OF ex] Cons.prems(2) by simp
  qed
qed simp

text \<open>What the expansion contributes for a derivable permission.\<close>

lemma derivable_expands:
  assumes "derivable ts ns s p e"
  shows "\<exists>k x. reaches (expand_succs (from_tuples ts) ns) (visit_key p e) k \<and>
    x \<in> expand_out (from_tuples ts) ns k \<and>
    (x = (entity_type s, entity_id s) \<or> x = (''*'', ''*'') \<or>
      (\<exists>u r. x = (entity_type u @ ''#'' @ r, entity_id u) \<and> derivable ts ns s r u))"
  (is "?G p e")
  using assms
proof induction
  case (direct p e t)
  then have "(subject_type t, subject_id t) \<in> expand_out (from_tuples ts) ns (visit_key p e)"
    by (auto simp: expand_out_iff intro!: bexI [of _ t])
  then show ?case
    using direct(6) by (intro exI [of _ "visit_key p e"] exI conjI reaches_refl)
      (auto simp: tuple_subject_def wildcard_def)
next
  case (userset p e t r)
  then have "(subject_type t @ ''#'' @ r, subject_id t) \<in> expand_out (from_tuples ts) ns (visit_key p e)"
    by (auto simp: expand_out_iff intro!: bexI [of _ t])
  moreover have "\<exists>u r'. (subject_type t @ ''#'' @ r, subject_id t) = (entity_type u @ ''#'' @ r', entity_id u) \<and>
      derivable ts ns s r' u"
    using userset(6) by (intro exI [of _ "tuple_subject t"] exI [of _ r]) (simp add: tuple_subject_def)
  ultimately show ?case
    by (blast intro: reaches_refl)
next
  case (any_of p e ms m)
  then have "visit_key m e \<in> set (expand_succs (from_tuples ts) ns (visit_key p e))"
    by (simp add: expand_succs_def)
  with any_of.IH show ?case by (blast intro: reaches_step)
next
  case (forward p e ttu t)
  then have "visit_key (computed_userset ttu) (tuple_object t) \<in>
      set (expand_succs (from_tuples ts) ns (visit_key p e))"
    by (auto simp: expand_succs_def find_related_objects_eq)
  with forward.IH show ?case by (blast intro: reaches_step)
next
  case (reverse p e ttu t)
  then have "visit_key (computed_userset ttu) (tuple_subject t) \<in>
      set (expand_succs (from_tuples ts) ns (visit_key p e))"
    by (auto simp: expand_succs_def find_subjects_for_object_eq)
  with reverse.IH show ?case by (blast intro: reaches_step)
qed

section \<open>Properties\<close>

text \<open>
  C18.  The worklist that expands a permission returns exactly the relations
  reachable from it through permission lists and unions of the object's
  namespace; it terminates for every namespace, cyclic ones included.
\<close>

theorem get_permission_relations_closure:
  "set (get_permission_relations p otype ns) = {r. reaches (relation_members otype ns) p r}"
  by (rule get_permission_relations_set)

text \<open>
  C16.  Every subject that the expansion of a permission adds holds it: a plain
  entry is a subject for which the permission is derivable, and an entry
  \<^verbatim>\<open>type#relation\<close> is a userset all of whose members have it.
\<close>

theorem expand_permission_sound:
  assumes "x \<in> fst (expand_permission p e (from_tuples ts) ns ({}, vis) depth)"
  shows "(\<exists>s. x = (entity_type s, entity_id s) \<and> derivable ts ns s p e) \<or>
    (\<exists>u r. x = (entity_type u @ ''#'' @ r, entity_id u) \<and>
       (\<forall>s. derivable ts ns s r u \<longrightarrow> derivable ts ns s p e))"
proof -
  let ?g = "from_tuples ts"
  have "x \<in> collected (expand_succs ?g ns) (expand_out ?g ns) (visit_key p e)"
    using subject_search.run_collects_only [of "Suc MAX_DEPTH - depth" ?g ns "visit_key p e" "({}, vis)"] assms
    by (auto simp: expand_permission_as_search)
  then obtain k where k: "reaches (expand_succs ?g ns) (visit_key p e) k" "x \<in> expand_out ?g ns k"
    by (auto simp: collected_def)
  then obtain t where t: "t \<in> set ts" "tuple_object t = visit_object k" "relation t = fst k"
    and any: "\<forall>ms. rule_of ns (fst k) (visit_object k) \<noteq> AnyOf ms"
    and x: "case subject_relation t of None \<Rightarrow> x = (subject_type t, subject_id t)
         | Some r \<Rightarrow> x = (subject_type t @ ''#'' @ r, subject_id t)"
    by (auto simp: expand_out_iff)
  have up: "derivable ts ns s p e" if "derivable ts ns s (fst k) (visit_object k)" for s
    using reaches_derivable [OF k(1) that] by simp
  show ?thesis
  proof (cases "subject_relation t")
    case None
    then have "derivable ts ns (tuple_subject t) (fst k) (visit_object k)"
      using derivable.direct [OF any t(1) _ t(2,3)] by simp
    then show ?thesis
      using up x None by (intro disjI1 exI [of _ "tuple_subject t"]) (simp add: tuple_subject_def)
  next
    case (Some r)
    have "derivable ts ns s (fst k) (visit_object k)" if "derivable ts ns s r (tuple_subject t)" for s
      by (rule derivable.userset [OF any t(1) Some t(2,3) that])
    then show ?thesis
      using up x Some by (intro disjI2 exI [of _ "tuple_subject t"] exI [of _ r]) (simp add: tuple_subject_def)
  qed
qed

definition team_share :: "ReBACTuple list" where
  "team_share =
     [tup (ent ''user'' ''alice'') None ''member'' (ent ''group'' ''eng''),
      tup (ent ''group'' ''eng'') (Some ''member'') ''viewer'' (ent ''file'' ''/x'')]"

lemma team_share_viewer:
  "derivable team_share [] (ent ''user'' ''alice'') ''viewer'' (ent ''file'' ''/x'')"
proof -
  let ?e = "ent ''file'' ''/x''" and ?alice = "ent ''user'' ''alice''" and ?eng = "ent ''group'' ''eng''"
  have "derivable team_share [] ?alice ''member'' ?eng"
    by (rule derivable.direct [of _ _ _ "tup ?alice None ''member'' ?eng"])
      (simp_all add: rule_of_def team_share_def tup_def ent_def tuple_object_def tuple_subject_def)
  then show ?thesis
    using derivable.userset [of "[]" "''viewer''" ?e "tup ?eng (Some ''member'') ''viewer'' ?e" team_share "''member''" ?alice]
    by (simp add: rule_of_def team_share_def tup_def ent_def tuple_object_def tuple_subject_def)
qed

theorem expand_permission_sound_witness:
  "(\<exists>s. (''group#member'', ''eng'') = (entity_type s, entity_id s) \<and>
      derivable team_share [] s ''viewer'' (ent ''file'' ''/x'')) \<or>
   (\<exists>u r. (''group#member'', ''eng'') = (entity_type u @ ''#'' @ r, entity_id u) \<and>
      (\<forall>s. derivable team_share [] s r u \<longrightarrow> derivable team_share [] s ''viewer'' (ent ''file'' ''/x'')))"
proof -
  have "(''group#member'', ''eng'') \<in>
      fst (expand_permission ''viewer'' (ent ''file'' ''/x'') (from_tuples team_share) [] ({}, {}) 0)"
    by code_simp
  then show ?thesis
    by (rule expand_permission_sound)
qed

text \<open>
  C17.  Where the keys the expansion can visit are at most \<^verbatim>\<open>MAX_DEPTH\<close> many, it
  leaves out nobody: a subject with the permission is listed itself, or the
  wildcard is, or a userset that contains the subject.
\<close>

theorem expand_permission_complete:
  assumes "length ks \<le> MAX_DEPTH" and "visit_key p e \<in> set ks"
    and "\<forall>k \<in> set ks. set (expand_succs (from_tuples ts) ns k) \<subseteq> set ks"
    and "derivable ts ns s p e"
    and "X = fst (expand_permission p e (from_tuples ts) ns ({}, {}) 0)"
  shows "(entity_type s, entity_id s) \<in> X \<or> (''*'', ''*'') \<in> X \<or>
    (\<exists>u r. (entity_type u @ ''#'' @ r, entity_id u) \<in> X \<and> derivable ts ns s r u)"
proof -
  let ?g = "from_tuples ts"
  have "card (set ks) < Suc MAX_DEPTH"
    using assms(1) card_length [of ks] by linarith
  from subject_search.run_collects [OF le_refl finite_set this assms(2)] assms(3)
  have X: "X = collected (expand_succs ?g ns) (expand_out ?g ns) (visit_key p e)"
    by (simp add: assms(5) expand_permission_as_search)
  obtain k x where "reaches (expand_succs ?g ns) (visit_key p e) k" "x \<in> expand_out ?g ns k"
    "x = (entity_type s, entity_id s) \<or> x = (''*'', ''*'') \<or>
      (\<exists>u r. x = (entity_type u @ ''#'' @ r, entity_id u) \<and> derivable ts ns s r u)"
    using derivable_expands [OF assms(4)] by blast
  then show ?thesis
    unfolding X collected_def by blast
qed

theorem expand_permission_complete_witness:
  "let X = fst (expand_permission ''viewer'' (ent ''file'' ''/x'') (from_tuples team_share) [] ({}, {}) 0)
   in (''user'', ''alice'') \<in> X \<or> (''*'', ''*'') \<in> X \<or>
     (\<exists>u r. (entity_type u @ ''#'' @ r, entity_id u) \<in> X \<and>
        derivable team_share [] (ent ''user'' ''alice'') r u)"
proof -
  let ?e = "ent ''file'' ''/x''" and ?alice = "ent ''user'' ''alice''"
  have "derivable team_share [] ?alice ''viewer'' ?e"
    by (rule team_share_viewer)
  moreover have "visit_key ''viewer'' ?e \<in> set [visit_key ''viewer'' ?e]"
    by simp
  moreover have "\<forall>k \<in> set [visit_key ''viewer'' ?e]. set (expand_succs (from_tuples team_share) [] k) \<subseteq>
      set [visit_key ''viewer'' ?e]"
    by code_simp
  moreover have "length [visit_key ''viewer'' ?e] \<le> MAX_DEPTH"
    by (simp add: MAX_DEPTH_def)
  ultimately show ?thesis
    using expand_permission_complete [of "[visit_key ''viewer'' ?e]" "''viewer''" ?e team_share "[]" ?alice, OF _ _ _ _ refl]
    by (simp add: Let_def ent_def)
qed

text \<open>
  Where every check leads only to checks of smaller rank and ranks stay
  within the depth bound, the candidate collection misses nothing: each object
  of the requested type on which one of the subjects has the permission is
  collected.
\<close>

theorem collect_candidates_complete:
  assumes "ranked ts ns rank" and "s \<in> set subjects" and "derivable ts ns s p e"
  shows "e \<in> collect_candidate_objects_for_subjects subjects p (entity_type e) (from_tuples ts) ns candidates"
proof -
  let ?rels = "get_permission_relations p (entity_type e) ns"
  obtain r where r: "r \<in> set ?rels" "terminal ts ns s r e"
    using derivable_terminal [OF assms(3)] by (auto simp: get_permission_relations_set)
  have "cache_exact ts ns (fst (Map.empty, candidates))"
    by (simp add: cache_exact_def)
  from fold_subjects_terminal [OF assms(1) this assms(2) r] show ?thesis
    by (simp add: collect_as_steps)
qed

theorem collect_candidates_complete_witness:
  "ent ''file'' ''/x'' \<in> collect_candidate_objects_for_subjects [ent ''user'' ''alice''] ''viewer'' ''file''
     (from_tuples team_share) [] {}"
proof -
  let ?e = "ent ''file'' ''/x''" and ?alice = "ent ''user'' ''alice''"
  let ?rank = "\<lambda>k. if key_permission k = ''viewer'' then 1 else 0 :: nat"
  have "?rank k' < ?rank k" if "Inr k' \<in> set (key_items (from_tuples team_share) [] k)" for k k'
  proof -
    have "\<exists>t r. t \<in> set team_share \<and> subject_relation t = Some r \<and> relation t = key_permission k \<and>
        key_permission k' = r"
      using that by (auto simp: key_items_def Inr_items Inr_relation_items rule_of_def)
    then have "key_permission k = ''viewer''" and "key_permission k' = ''member''"
      unfolding team_share_def tup_def by fastforce+
    then show ?thesis by simp
  qed
  then have "ranked team_share [] ?rank"
    by (simp add: ranked_def MAX_DEPTH_def)
  moreover have "derivable team_share [] ?alice ''viewer'' ?e"
    by (rule team_share_viewer)
  ultimately show ?thesis
    using collect_candidates_complete [of team_share "[]" ?rank ?alice "[?alice]" "''viewer''" ?e "{}"]
    by (simp add: ent_def)
qed

end
