(* ===== verification/Rebac_Interned.thy ===== *)
theory Rebac_Interned
  imports Rebac_Check
begin

text \<open>
  The interned evaluator of \<^verbatim>\<open>lib/src/rebac/graph.rs\<close> over symbols in place of
  strings, and the interned configuration of \<^verbatim>\<open>lib/src/types.rs\<close>.  The interner
  is a library of its own; what the code relies on is that it gives equal symbols
  to equal strings only, so it is a parameter \<^verbatim>\<open>intern\<close> that is injective.  The
  lemmas show that the interned evaluator answers exactly as the string-keyed
  one on the interned graph, configuration and query.
\<close>

section \<open>Data\<close>

record 'y InternedEntity =
  ie_type :: 'y
  ie_id :: 'y

record 'y InternedTuple =
  it_subject_type :: 'y
  it_subject_id :: 'y
  it_subject_relation :: "'y option"
  it_relation :: 'y
  it_object_type :: 'y
  it_object_id :: 'y

record 'y InternedUsersetEntry =
  iu_subject_type :: 'y
  iu_subject_id :: 'y
  iu_subject_relation :: 'y

type_synonym 'y InternedMemoKey = "'y \<times> 'y \<times> 'y \<times> 'y \<times> 'y"

datatype 'y InternedRelationConfig =
    IDirect
  | IUnion "'y list"
  | ITupleToUserset 'y 'y bool

record 'y InternedNamespaceConfig =
  in_relations :: "('y \<times> 'y InternedRelationConfig) list"
  in_permissions :: "('y \<times> 'y list) list"

record 'y InternedGraph =
  ig_tuple_index :: "('y \<times> 'y \<times> 'y \<times> 'y \<times> 'y) set"
  ig_adjacency_list :: "(('y \<times> 'y \<times> 'y) \<times> 'y InternedEntity list) list"
  ig_reverse_adjacency :: "(('y \<times> 'y \<times> 'y) \<times> 'y InternedEntity list) list"
  ig_userset_index :: "(('y \<times> 'y \<times> 'y) \<times> 'y InternedUsersetEntry list) list"
  ig_wildcard_subject :: "'y InternedEntity option"

section \<open>Interning the configuration\<close>

definition intern_relation_config :: "(string \<Rightarrow> 'y) \<Rightarrow> RelationConfig \<Rightarrow> 'y InternedRelationConfig" where
  "intern_relation_config intern c =
     (case c of
        Direct _ \<Rightarrow> IDirect
      | EmptyDict \<Rightarrow> IDirect
      | Union members \<Rightarrow> IUnion (map intern members)
      | TupleToUserset ttu \<Rightarrow>
          ITupleToUserset (intern (tupleset ttu)) (intern (computed_userset ttu)) (tupleset ttu = ''parent''))"

definition from_config :: "(string \<Rightarrow> 'y) \<Rightarrow> NamespaceConfig \<Rightarrow> 'y InternedNamespaceConfig" where
  "from_config intern config =
     \<lparr>in_relations = map (\<lambda>(k, v). (intern k, intern_relation_config intern v)) (relations config),
      in_permissions = map (\<lambda>(k, v). (intern k, map intern v)) (permissions config)\<rparr>"

section \<open>The interned graph\<close>

definition empty_interned_graph :: "(string \<Rightarrow> 'y) \<Rightarrow> 'y InternedGraph" where
  "empty_interned_graph intern =
     \<lparr>ig_tuple_index = {}, ig_adjacency_list = [], ig_reverse_adjacency = [], ig_userset_index = [],
      ig_wildcard_subject = Some \<lparr>ie_type = intern ''*'', ie_id = intern ''*''\<rparr>\<rparr>"

definition add_interned_tuple :: "'y InternedGraph \<Rightarrow> 'y InternedTuple \<Rightarrow> 'y InternedGraph" where
  "add_interned_tuple g t =
     (let okey = (it_object_type t, it_object_id t, it_relation t);
          g1 = (case it_subject_relation t of
                  Some sr \<Rightarrow>
                    g\<lparr>ig_userset_index := push_entry okey
                        \<lparr>iu_subject_type = it_subject_type t, iu_subject_id = it_subject_id t,
                         iu_subject_relation = sr\<rparr> (ig_userset_index g)\<rparr>
                | None \<Rightarrow>
                    g\<lparr>ig_tuple_index := insert (it_object_type t, it_object_id t, it_relation t,
                        it_subject_type t, it_subject_id t) (ig_tuple_index g)\<rparr>)
      in g1\<lparr>ig_adjacency_list := push_entry (it_subject_type t, it_subject_id t, it_relation t)
               \<lparr>ie_type = it_object_type t, ie_id = it_object_id t\<rparr> (ig_adjacency_list g1),
            ig_reverse_adjacency := push_entry okey
               \<lparr>ie_type = it_subject_type t, ie_id = it_subject_id t\<rparr> (ig_reverse_adjacency g1)\<rparr>)"

definition from_interned_tuples :: "(string \<Rightarrow> 'y) \<Rightarrow> 'y InternedTuple list \<Rightarrow> 'y InternedGraph" where
  "from_interned_tuples intern ts = foldl add_interned_tuple (empty_interned_graph intern) ts"

definition check_direct_interned ::
  "'y InternedGraph \<Rightarrow> 'y InternedEntity \<Rightarrow> 'y \<Rightarrow> 'y InternedEntity \<Rightarrow> bool" where
  "check_direct_interned g subject rel object \<longleftrightarrow>
     (ie_type object, ie_id object, rel, ie_type subject, ie_id subject) \<in> ig_tuple_index g \<or>
     (case ig_wildcard_subject g of
        None \<Rightarrow> False
      | Some w \<Rightarrow> (ie_type object, ie_id object, rel, ie_type w, ie_id w) \<in> ig_tuple_index g)"

definition find_related_interned ::
  "'y InternedGraph \<Rightarrow> 'y InternedEntity \<Rightarrow> 'y \<Rightarrow> 'y InternedEntity list" where
  "find_related_interned g subject rel =
     entries_of (ig_adjacency_list g) (ie_type subject, ie_id subject, rel)"

definition find_subjects_interned ::
  "'y InternedGraph \<Rightarrow> 'y InternedEntity \<Rightarrow> 'y \<Rightarrow> 'y InternedEntity list" where
  "find_subjects_interned g object rel =
     entries_of (ig_reverse_adjacency g) (ie_type object, ie_id object, rel)"

definition get_usersets_interned ::
  "'y InternedGraph \<Rightarrow> 'y InternedEntity \<Rightarrow> 'y \<Rightarrow> 'y InternedUsersetEntry list" where
  "get_usersets_interned g object rel =
     entries_of (ig_userset_index g) (ie_type object, ie_id object, rel)"

section \<open>The evaluator\<close>

definition interned_key ::
  "'y InternedEntity \<Rightarrow> 'y \<Rightarrow> 'y InternedEntity \<Rightarrow> 'y InternedMemoKey" where
  "interned_key s p e = (ie_type s, ie_id s, p, ie_type e, ie_id e)"

definition interned_userset_entity :: "'y InternedUsersetEntry \<Rightarrow> 'y InternedEntity" where
  "interned_userset_entity u = \<lparr>ie_type = iu_subject_type u, ie_id = iu_subject_id u\<rparr>"

type_synonym 'y InternedNamespaces = "('y \<times> 'y InternedNamespaceConfig) list"

function compute_permission_interned ::
    "'y InternedEntity \<Rightarrow> 'y \<Rightarrow> 'y InternedEntity \<Rightarrow> 'y InternedGraph \<Rightarrow> 'y InternedNamespaces
       \<Rightarrow> 'y InternedMemoKey search_state \<Rightarrow> nat \<Rightarrow> bool \<times> 'y InternedMemoKey search_state"
  and check_relation_with_usersets_interned ::
    "'y InternedEntity \<Rightarrow> 'y \<Rightarrow> 'y InternedEntity \<Rightarrow> 'y InternedGraph \<Rightarrow> 'y InternedNamespaces
       \<Rightarrow> 'y InternedMemoKey search_state \<Rightarrow> nat \<Rightarrow> bool \<times> 'y InternedMemoKey search_state" where
  "compute_permission_interned subject permission object g ns st depth =
     (if MAX_DEPTH < depth then (False, st)
      else case st of (memo, vis) \<Rightarrow>
        let key = interned_key subject permission object in
        (case memo key of
           Some result \<Rightarrow> (result, st)
         | None \<Rightarrow>
             if key \<in> vis then (False, st)
             else
               let st1 = (memo, insert key vis) in
               (case (case map_of ns (ie_type object) of
                        None \<Rightarrow> check_relation_with_usersets_interned subject permission object g ns st1 depth
                      | Some namespace \<Rightarrow>
                          (case map_of (in_permissions namespace) permission of
                             Some usersets \<Rightarrow>
                               any_st (\<lambda>userset s. compute_permission_interned subject userset object g ns s (depth + 1))
                                 usersets st1
                           | None \<Rightarrow>
                               (case map_of (in_relations namespace) permission of
                                  None \<Rightarrow> check_relation_with_usersets_interned subject permission object g ns st1 depth
                                | Some IDirect \<Rightarrow>
                                    check_relation_with_usersets_interned subject permission object g ns st1 depth
                                | Some (IUnion members) \<Rightarrow>
                                    any_st (\<lambda>rel s. compute_permission_interned subject rel object g ns s (depth + 1))
                                      members st1
                                | Some (ITupleToUserset tset computed skip_reverse) \<Rightarrow>
                                    (case any_st (\<lambda>target s. compute_permission_interned subject computed
                                                    target g ns s (depth + 1))
                                            (find_related_interned g object tset) st1 of
                                       (allowed1, st2) \<Rightarrow>
                                     (case (if \<not> allowed1 \<and> \<not> skip_reverse
                                            then any_st (\<lambda>target s. compute_permission_interned subject computed
                                                           target g ns s (depth + 1))
                                                   (find_subjects_interned g object tset) st2
                                            else (allowed1, st2)) of
                                        (allowed2, st3) \<Rightarrow>
                                        if \<not> allowed2
                                        then check_relation_with_usersets_interned subject permission object g ns st3 depth
                                        else (allowed2, st3))))))
                of (result, (memo', vis')) \<Rightarrow> (result, (memo'(key \<mapsto> result), vis')))))"
| "check_relation_with_usersets_interned subject rel object g ns st depth =
     (if check_direct_interned g subject rel object then (True, st)
      else any_st (\<lambda>userset s. compute_permission_interned subject (iu_subject_relation userset)
                      (interned_userset_entity userset) g ns s (depth + 1))
             (get_usersets_interned g object rel) st)"
  by pat_completeness auto
termination
  by (relation "measure (case_sum
        (\<lambda>(_, _, _, _, _, _, depth). 2 * (Suc MAX_DEPTH - depth))
        (\<lambda>(_, _, _, _, _, _, depth). 2 * (MAX_DEPTH - depth) + 1))") auto

declare compute_permission_interned.simps [simp del]
  check_relation_with_usersets_interned.simps [simp del]

section \<open>The evaluator as a search\<close>

definition interned_relation_items ::
  "'y InternedGraph \<Rightarrow> 'y InternedEntity \<Rightarrow> 'y \<Rightarrow> 'y InternedEntity \<Rightarrow> (bool + 'y InternedMemoKey) list" where
  "interned_relation_items g s r e =
     Inl (check_direct_interned g s r e) #
     map (\<lambda>u. Inr (interned_key s (iu_subject_relation u) (interned_userset_entity u)))
       (get_usersets_interned g e r)"

definition interned_items ::
  "'y InternedGraph \<Rightarrow> 'y InternedNamespaces \<Rightarrow> 'y InternedMemoKey \<Rightarrow> (bool + 'y InternedMemoKey) list" where
  "interned_items g ns k =
     (case k of (st, si, p, ot, oi) \<Rightarrow>
      let s = \<lparr>ie_type = st, ie_id = si\<rparr>; e = \<lparr>ie_type = ot, ie_id = oi\<rparr> in
      (case map_of ns ot of
         None \<Rightarrow> interned_relation_items g s p e
       | Some n \<Rightarrow>
           (case map_of (in_permissions n) p of
              Some us \<Rightarrow> map (\<lambda>u. Inr (interned_key s u e)) us
            | None \<Rightarrow>
                (case map_of (in_relations n) p of
                   Some (IUnion rs) \<Rightarrow> map (\<lambda>r. Inr (interned_key s r e)) rs
                 | Some (ITupleToUserset tset computed skip) \<Rightarrow>
                     map (\<lambda>t. Inr (interned_key s computed t)) (find_related_interned g e tset) @
                     (if skip then [] else
                      map (\<lambda>t. Inr (interned_key s computed t)) (find_subjects_interned g e tset)) @
                     interned_relation_items g s p e
                 | _ \<Rightarrow> interned_relation_items g s p e))))"

definition compute_interned_key ::
  "'y InternedGraph \<Rightarrow> 'y InternedNamespaces \<Rightarrow> nat \<Rightarrow> 'y InternedMemoKey
     \<Rightarrow> 'y InternedMemoKey search_state \<Rightarrow> bool \<times> 'y InternedMemoKey search_state" where
  "compute_interned_key g ns levels k st =
     (case k of (st', si, p, ot, oi) \<Rightarrow>
        compute_permission_interned \<lparr>ie_type = st', ie_id = si\<rparr> p \<lparr>ie_type = ot, ie_id = oi\<rparr> g ns st
          (Suc MAX_DEPTH - levels))"

lemma ie_collapse [simp]: "\<lparr>ie_type = ie_type e, ie_id = ie_id e\<rparr> = (e :: 'y InternedEntity)"
  by simp

lemma compute_interned_key_eq:
  "compute_interned_key g ns levels (interned_key s p e) =
     (\<lambda>st. compute_permission_interned s p e g ns st (Suc MAX_DEPTH - levels))"
  by (simp add: compute_interned_key_def interned_key_def fun_eq_iff)

lemma any_st_interned_relation_items:
  assumes "n \<le> MAX_DEPTH"
  shows "any_st (eval_item (compute_interned_key g ns n)) (interned_relation_items g s r e) st =
     check_relation_with_usersets_interned s r e g ns st (MAX_DEPTH - n)"
  using assms
  by (simp add: interned_relation_items_def check_relation_with_usersets_interned.simps any_st_map
      compute_interned_key_eq Suc_diff_le)

lemma any_st_interned_keys:
  assumes "n \<le> MAX_DEPTH"
  shows "any_st (eval_item (compute_interned_key g ns n)) (map (\<lambda>x. Inr (interned_key s (p x) (f x))) xs) st =
     any_st (\<lambda>x st. compute_permission_interned s (p x) (f x) g ns st (MAX_DEPTH - n + 1)) xs st"
  using assms by (simp add: any_st_map compute_interned_key_eq Suc_diff_le)

interpretation interned_search: memo_search "interned_items g ns" "compute_interned_key g ns" "Suc MAX_DEPTH"
  for g :: "'y InternedGraph" and ns :: "'y InternedNamespaces"
proof
  show "compute_interned_key g ns 0 k st = (False, st)" for k st
    by (cases k) (simp add: compute_interned_key_def compute_permission_interned.simps)
next
  fix n memo vis and k :: "'y InternedMemoKey"
  assume "n < Suc MAX_DEPTH"
  then have n: "n \<le> MAX_DEPTH" by simp
  have bound: "\<not> MAX_DEPTH < Suc MAX_DEPTH - Suc n" by simp
  obtain st si p ot oi where k: "k = (st, si, p, ot, oi)" by (cases k)
  note loops = any_st_interned_keys [OF n, where p = "\<lambda>x. x" and f = "\<lambda>_. \<lparr>ie_type = ot, ie_id = oi\<rparr>"]
    any_st_interned_keys [OF n, where p = "\<lambda>_. p" and f = "\<lambda>x. x" for p] any_st_interned_relation_items [OF n]
  show "compute_interned_key g ns (Suc n) k (memo, vis) =
      (case memo k of
         Some r \<Rightarrow> (r, (memo, vis))
       | None \<Rightarrow>
           if k \<in> vis then (False, (memo, vis))
           else case any_st (eval_item (compute_interned_key g ns n)) (interned_items g ns k) (memo, insert k vis) of
                  (r, (memo', vis')) \<Rightarrow> (r, (memo'(k \<mapsto> r), vis')))"
    unfolding compute_interned_key_def [of _ _ "Suc n"] k prod.case
      compute_permission_interned.simps [of _ _ _ _ _ _ "Suc MAX_DEPTH - Suc n"]
    using n bound
    by (simp add: Let_def interned_items_def interned_key_def [of "\<lparr>ie_type = st, ie_id = si\<rparr>" p "\<lparr>ie_type = ot, ie_id = oi\<rparr>"]
        any_st_append loops split: option.split InternedRelationConfig.split prod.split)
qed

section \<open>Interned and string-keyed checks agree\<close>

definition intern_entity :: "(string \<Rightarrow> 'y) \<Rightarrow> Entity \<Rightarrow> 'y InternedEntity" where
  "intern_entity intern e = \<lparr>ie_type = intern (entity_type e), ie_id = intern (entity_id e)\<rparr>"

definition intern_tuple :: "(string \<Rightarrow> 'y) \<Rightarrow> ReBACTuple \<Rightarrow> 'y InternedTuple" where
  "intern_tuple intern t =
     \<lparr>it_subject_type = intern (subject_type t), it_subject_id = intern (subject_id t),
      it_subject_relation = map_option intern (subject_relation t), it_relation = intern (relation t),
      it_object_type = intern (object_type t), it_object_id = intern (object_id t)\<rparr>"

definition intern_userset :: "(string \<Rightarrow> 'y) \<Rightarrow> UsersetEntry \<Rightarrow> 'y InternedUsersetEntry" where
  "intern_userset intern u =
     \<lparr>iu_subject_type = intern (ue_subject_type u), iu_subject_id = intern (ue_subject_id u),
      iu_subject_relation = intern (ue_subject_relation u)\<rparr>"

definition intern_key :: "(string \<Rightarrow> 'y) \<Rightarrow> MemoKey \<Rightarrow> 'y InternedMemoKey" where
  "intern_key intern k =
     (case k of (st, si, p, ot, oi) \<Rightarrow> (intern st, intern si, intern p, intern ot, intern oi))"

definition intern_graph :: "(string \<Rightarrow> 'y) \<Rightarrow> ReBACTuple list \<Rightarrow> 'y InternedGraph" where
  "intern_graph intern ts = from_interned_tuples intern (map (intern_tuple intern) ts)"

definition intern_namespaces :: "(string \<Rightarrow> 'y) \<Rightarrow> Namespaces \<Rightarrow> 'y InternedNamespaces" where
  "intern_namespaces intern ns = map (\<lambda>(k, v). (intern k, from_config intern v)) ns"

lemma map_of_intern:
  assumes "inj intern"
  shows "map_of (map (\<lambda>(k, v). (intern k, f v)) m) (intern k) = map_option f (map_of m k)"
  by (induction m) (auto simp: inj_eq [OF assms])

lemma intern_graph_snoc:
  "intern_graph intern (ts @ [t]) = add_interned_tuple (intern_graph intern ts) (intern_tuple intern t)"
  by (simp add: intern_graph_def from_interned_tuples_def)

lemmas intern_defs = intern_entity_def intern_tuple_def intern_userset_def intern_key_def
  add_interned_tuple_def add_tuple_def from_tuples_snoc intern_graph_snoc Let_def

lemma intern_lookups:
  assumes "inj intern"
  shows "find_related_interned (intern_graph intern ts) (intern_entity intern e) (intern r) =
      map (intern_entity intern) (find_related_objects (from_tuples ts) e r)"
    and "find_subjects_interned (intern_graph intern ts) (intern_entity intern e) (intern r) =
      map (intern_entity intern) (find_subjects_for_object (from_tuples ts) e r)"
    and "get_usersets_interned (intern_graph intern ts) (intern_entity intern e) (intern r) =
      map (intern_userset intern) (get_usersets (from_tuples ts) e r)"
    and "ig_tuple_index (intern_graph intern ts) = intern_key intern ` tuple_index (from_tuples ts)"
    and "ig_wildcard_subject (intern_graph intern ts) = Some (intern_entity intern wildcard)"
proof (induction ts rule: rev_induct)
  case Nil
  {
    case 1 show ?case
      by (simp add: find_related_interned_def find_related_objects_def intern_graph_def
          from_interned_tuples_def empty_interned_graph_def from_tuples_def empty_graph_def)
  next
    case 2 show ?case
      by (simp add: find_subjects_interned_def find_subjects_for_object_def intern_graph_def
          from_interned_tuples_def empty_interned_graph_def from_tuples_def empty_graph_def)
  next
    case 3 show ?case
      by (simp add: get_usersets_interned_def get_usersets_def intern_graph_def
          from_interned_tuples_def empty_interned_graph_def from_tuples_def empty_graph_def)
  next
    case 4 show ?case
      by (simp add: intern_graph_def from_interned_tuples_def empty_interned_graph_def from_tuples_def
          empty_graph_def)
  next
    case 5 show ?case
      by (simp add: intern_graph_def from_interned_tuples_def empty_interned_graph_def intern_entity_def
          wildcard_def)
  }
next
  case (snoc t ts)
  note eq = inj_eq [OF assms]
  {
    case 1 show ?case
      using snoc(1) by (cases "subject_relation t")
        (auto simp: find_related_interned_def find_related_objects_def intern_defs eq tuple_object_def)
  next
    case 2 show ?case
      using snoc(2) by (cases "subject_relation t")
        (auto simp: find_subjects_interned_def find_subjects_for_object_def intern_defs eq tuple_subject_def)
  next
    case 3 show ?case
      using snoc(3) by (cases "subject_relation t")
        (auto simp: get_usersets_interned_def get_usersets_def intern_defs eq)
  next
    case 4 show ?case
      using snoc(4) by (cases "subject_relation t") (auto simp: intern_defs)
  next
    case 5 show ?case
      using snoc(5) by (cases "subject_relation t") (auto simp: intern_defs)
  }
qed

lemma inj_intern_key: "inj intern \<Longrightarrow> inj (intern_key intern)"
  by (auto simp: inj_def intern_key_def)

lemma intern_check_direct:
  assumes "inj intern"
  shows "check_direct_interned (intern_graph intern ts) (intern_entity intern s) (intern r) (intern_entity intern e) \<longleftrightarrow>
    check_direct_relation (from_tuples ts) s r e"
proof -
  have mem: "(intern a, intern b, intern c, intern d, intern f) \<in> intern_key intern ` X \<longleftrightarrow> (a, b, c, d, f) \<in> X"
    for a b c d f X
    using inj_image_mem_iff [OF inj_intern_key [OF assms], of "(a, b, c, d, f)" X]
    by (simp add: intern_key_def)
  show ?thesis
    unfolding check_direct_interned_def check_direct_relation_def intern_lookups(4,5) [OF assms]
    by (simp add: intern_entity_def wildcard_def mem)
qed

lemma intern_key_memo_key:
  "interned_key (intern_entity intern s) (intern p) (intern_entity intern e) = intern_key intern (memo_key s p e)"
  by (simp add: interned_key_def intern_entity_def intern_key_def memo_key_def)

lemma intern_userset_parts:
  "interned_userset_entity (intern_userset intern u) = intern_entity intern (userset_entity u)"
  "iu_subject_relation (intern_userset intern u) = intern (ue_subject_relation u)"
  by (simp_all add: interned_userset_entity_def intern_userset_def userset_entity_def intern_entity_def)

lemma intern_relation_items:
  assumes "inj intern"
  shows "interned_relation_items (intern_graph intern ts) (intern_entity intern s) (intern r) (intern_entity intern e) =
    map (map_sum (\<lambda>b. b) (intern_key intern)) (relation_items (from_tuples ts) s r e)"
  using intern_check_direct [OF assms]
  by (simp add: interned_relation_items_def relation_items_def intern_lookups [OF assms]
      intern_key_memo_key intern_userset_parts comp_def)

lemma intern_items:
  assumes "inj intern"
  shows "interned_items (intern_graph intern ts) (intern_namespaces intern ns) (intern_key intern k) =
    map (map_sum (\<lambda>b. b) (intern_key intern)) (key_items (from_tuples ts) ns k)"
proof -
  obtain st si p ot oi where k: "k = (st, si, p, ot, oi)" by (cases k)
  let ?s = "\<lparr>entity_type = st, entity_id = si\<rparr>" and ?e = "\<lparr>entity_type = ot, entity_id = oi\<rparr>"
  have ent: "\<lparr>ie_type = intern st, ie_id = intern si\<rparr> = intern_entity intern ?s"
    "\<lparr>ie_type = intern ot, ie_id = intern oi\<rparr> = intern_entity intern ?e"
    by (simp_all add: intern_entity_def)
  show ?thesis
    unfolding interned_items_def key_items_def permission_items_def k key_subject_def key_permission_def
      key_object_def prod.case intern_key_def [of _ "(st, si, p, ot, oi)"] Let_def ent
    by (simp add: intern_namespaces_def map_of_intern [OF assms] from_config_def
        intern_relation_items [OF assms] intern_lookups [OF assms] intern_relation_config_def
        intern_key_memo_key comp_def
        split: option.split RelationConfig.split)
qed

text \<open>
  C15.  For every interner that keeps distinct strings apart, the interned
  evaluator on the interned tuples, namespaces and query, with fresh caches,
  answers exactly what the string-keyed evaluator answers.
\<close>

theorem interned_refines_string:
  assumes "inj intern"
  shows "fst (compute_permission_interned (intern_entity intern s) (intern p) (intern_entity intern e)
      (intern_graph intern ts) (intern_namespaces intern ns) (Map.empty, {}) 0) =
    fst (compute_permission s p e (from_tuples ts) ns (Map.empty, {}) 0)"
  using fresh_run_renamed [OF string_search.memo_search_axioms interned_search.memo_search_axioms
      inj_intern_key [OF assms] intern_items [OF assms] le_refl, of ts ns "memo_key s p e"]
  by (simp add: intern_key_memo_key [symmetric] compute_interned_key_eq compute_key_memo_key)

theorem interned_refines_string_witness:
  "fst (compute_permission_interned (intern_entity (\<lambda>x. x) (ent ''user'' ''alice'')) ''member''
      (intern_entity (\<lambda>x. x) (ent ''group'' ''b'')) (intern_graph (\<lambda>x. x) cyclic_groups)
      (intern_namespaces (\<lambda>x. x) []) (Map.empty, {}) 0)"
proof -
  have "fst (compute_permission (ent ''user'' ''alice'') ''member'' (ent ''group'' ''b'')
      (from_tuples cyclic_groups) [] (Map.empty, {}) 0)"
    by code_simp
  then show ?thesis
    using interned_refines_string [of "\<lambda>x. x" "ent ''user'' ''alice''" "''member''"
        "ent ''group'' ''b''" cyclic_groups "[]"] by simp
qed

end
