(* ===== verification/Contracts.thy ===== *)
theory Contracts
  imports Nexus_Prelude
begin

text \<open>
  The shared contracts crate: the credential every syscall carries
  (\<^verbatim>\<open>operation_context.rs\<close>), the validators of zone ids and zone-relative
  paths (\<^verbatim>\<open>zone_id.rs\<close>, \<^verbatim>\<open>zone_path.rs\<close>, \<^verbatim>\<open>zone_wire_path.rs\<close>), the reserved-path
  predicates (\<^verbatim>\<open>constants.rs\<close>), the path check of the kernel's syscalls, and the
  resolution of an agent's owner and zone (\<^verbatim>\<open>agent_context.rs\<close>).  The rules of
  the validators are generated from the JSON specifications; they are a record
  argument here, with the values of the specifications as one instance.  The
  validators work on characters, so they are polymorphic in the character type.
\<close>

section \<open>Constants and reserved paths\<close>

definition ROOT_ZONE_ID :: string where
  "ROOT_ZONE_ID = ''root''"

definition MANAGED_CONTENT_ROOT :: string where
  "MANAGED_CONTENT_ROOT = ''/__managed_content_v1__''"

definition is_managed_content_path :: "string \<Rightarrow> bool" where
  "is_managed_content_path path \<longleftrightarrow>
     path = MANAGED_CONTENT_ROOT \<or>
     (case strip_prefix MANAGED_CONTENT_ROOT path of
        None \<Rightarrow> False
      | Some tail \<Rightarrow> starts_with tail ''/'')"

definition SYSTEM_PATH_PREFIX :: string where
  "SYSTEM_PATH_PREFIX = ''/__sys__/''"

definition is_system_path :: "string \<Rightarrow> bool" where
  "is_system_path path \<longleftrightarrow> starts_with path SYSTEM_PATH_PREFIX"

section \<open>The operation context\<close>

record OperationContext =
  user_id :: string
  zone_id :: string
  is_admin :: bool
  agent_id :: "string option"
  trust_domain :: "string option"
  is_system :: bool
  groups :: "string list"
  admin_capabilities :: "string list"
  ctx_subject_type :: string
  ctx_subject_id :: "string option"
  request_id :: string
  context_zone_id :: "string option"
  zone_perms :: "(string \<times> string) list"
  ctx_propagates_cross_node :: bool

definition operation_context_new ::
  "string \<Rightarrow> string \<Rightarrow> bool \<Rightarrow> string option \<Rightarrow> bool \<Rightarrow> OperationContext" where
  "operation_context_new uid zid admin aid system =
     \<lparr>user_id = uid, zone_id = zid, is_admin = admin, agent_id = aid, trust_domain = None,
      is_system = system, groups = [], admin_capabilities = [], ctx_subject_type = ''user'',
      ctx_subject_id = None, request_id = [], context_zone_id = None, zone_perms = [],
      ctx_propagates_cross_node = False\<rparr>"

definition propagates_cross_node :: "OperationContext \<Rightarrow> bool" where
  "propagates_cross_node ctx = ctx_propagates_cross_node ctx"

definition fan_out_allowed :: "OperationContext \<Rightarrow> bool" where
  "fan_out_allowed ctx = (\<not> ctx_propagates_cross_node ctx)"

section \<open>Zone ids\<close>

datatype 'c ZoneIdError =
    ZoneIdLength nat
  | ZoneIdCharacter 'c nat
  | LeadingHyphen
  | TrailingHyphen
  | Reserved

datatype ZoneIdUse = TenantCreate | System | ExistingRef | RemoteLearned

record 'c ZoneIdRules =
  zid_min_len :: nat
  zid_max_len :: nat
  zid_charset :: "'c list"
  zid_no_leading :: 'c
  zid_no_trailing :: 'c
  zid_reserved :: "'c list list"

text \<open>First character (with its position) that fails a test.\<close>

fun find_index :: "('a \<Rightarrow> bool) \<Rightarrow> nat \<Rightarrow> 'a list \<Rightarrow> ('a \<times> nat) option" where
  "find_index P i [] = None"
| "find_index P i (x # xs) = (if P x then Some (x, i) else find_index P (Suc i) xs)"

definition validate_zone_id_for ::
  "'c ZoneIdRules \<Rightarrow> ZoneIdUse \<Rightarrow> 'c list \<Rightarrow> 'c ZoneIdError + unit" where
  "validate_zone_id_for R use zid =
     (if use \<noteq> TenantCreate \<and> zid \<in> set (zid_reserved R) then Inr ()
      else if \<not> (zid_min_len R \<le> length zid \<and> length zid \<le> zid_max_len R)
      then Inl (ZoneIdLength (length zid))
      else if starts_with zid [zid_no_leading R] then Inl LeadingHyphen
      else if ends_with zid [zid_no_trailing R] then Inl TrailingHyphen
      else case find_index (\<lambda>c. c \<notin> set (zid_charset R)) 0 zid of
             Some (got, at) \<Rightarrow> Inl (ZoneIdCharacter got at)
           | None \<Rightarrow>
               if use = TenantCreate \<and> zid \<in> set (zid_reserved R) then Inl Reserved
               else Inr ())"

definition validate_zone_id :: "'c ZoneIdRules \<Rightarrow> 'c list \<Rightarrow> 'c ZoneIdError + unit" where
  "validate_zone_id R zid = validate_zone_id_for R TenantCreate zid"

definition zone_id_charset :: string where
  "zone_id_charset = ''abcdefghijklmnopqrstuvwxyz0123456789-''"

definition zone_id_rules :: "char ZoneIdRules" where
  "zone_id_rules =
     \<lparr>zid_min_len = 3, zid_max_len = 63, zid_charset = zone_id_charset,
      zid_no_leading = CHR ''-'', zid_no_trailing = CHR ''-'',
      zid_reserved = [ROOT_ZONE_ID, ''__control__'']\<rparr>"

section \<open>Strict zone paths\<close>

datatype 'c ZonePathError =
    Empty
  | NotAbsolute
  | RepeatedSeparator nat
  | TrailingSeparator
  | ForbiddenSegment "'c list" nat
  | ForbiddenCharacter 'c nat

record 'c ZonePathRules =
  zp_separator :: 'c
  zp_root :: "'c list"
  zp_forbidden_characters :: "'c list"
  zp_forbidden_segments :: "'c list list"

fun zone_path_chars :: "'c ZonePathRules \<Rightarrow> bool \<Rightarrow> nat \<Rightarrow> 'c list \<Rightarrow> 'c ZonePathError option" where
  "zone_path_chars R previous at [] = None"
| "zone_path_chars R previous at (got # rest) =
     (if got \<in> set (zp_forbidden_characters R) then Some (ForbiddenCharacter got at)
      else if got = zp_separator R
      then if previous then Some (RepeatedSeparator at)
           else zone_path_chars R True (Suc at) rest
      else zone_path_chars R False (Suc at) rest)"

definition validate_zone_path :: "'c ZonePathRules \<Rightarrow> 'c list \<Rightarrow> 'c ZonePathError + unit" where
  "validate_zone_path R path =
     (if path = [] then Inl Empty
      else if \<not> starts_with path [zp_separator R] then Inl NotAbsolute
      else if path = zp_root R then Inr ()
      else if ends_with path [zp_separator R] then Inl TrailingSeparator
      else case zone_path_chars R False 0 path of
             Some e \<Rightarrow> Inl e
           | None \<Rightarrow>
               (case find_index (\<lambda>seg. seg \<in> set (zp_forbidden_segments R)) 1
                       (drop 1 (split_on (zp_separator R) path)) of
                  Some (got, at) \<Rightarrow> Inl (ForbiddenSegment got at)
                | None \<Rightarrow> Inr ()))"

definition zone_path_rules :: "char ZonePathRules" where
  "zone_path_rules =
     \<lparr>zp_separator = CHR ''/'', zp_root = ''/'', zp_forbidden_characters = [CHR 0x00, CHR 0x5C],
      zp_forbidden_segments = [''.'', ''..'']\<rparr>"

section \<open>Wire paths\<close>

datatype 'c WirePathError =
    WireLength nat
  | WireNotAbsolute
  | EmptyComponent nat
  | ForbiddenComponent "'c list" nat
  | ComponentLength nat nat
  | WireCharacter 'c nat nat
  | Depth nat
  | ReservedPrefix

record 'c WirePathRules =
  wp_max_len :: nat
  wp_start :: "'c list"
  wp_root :: "'c list"
  wp_slash :: 'c
  wp_reserved_prefixes :: "'c list list"
  wp_max_depth :: nat
  wp_allow_empty_components :: bool
  wp_forbidden_components :: "'c list list"
  wp_component_max_len :: nat
  wp_component_charset :: "'c list"
  wp_allow_trailing_slash :: bool

definition wire_under_prefix :: "'c WirePathRules \<Rightarrow> 'c list \<Rightarrow> 'c list \<Rightarrow> bool" where
  "wire_under_prefix R path pre \<longleftrightarrow>
     (let p = trim_end_matches (wp_slash R) pre in path = p \<or> starts_with path (p @ [wp_slash R]))"

definition wire_component :: "'c WirePathRules \<Rightarrow> nat \<Rightarrow> 'c list \<Rightarrow> 'c WirePathError option" where
  "wire_component R i component =
     (if component = [] \<and> \<not> wp_allow_empty_components R then Some (EmptyComponent i)
      else if component \<in> set (wp_forbidden_components R) then Some (ForbiddenComponent component i)
      else if wp_component_max_len R < length component then Some (ComponentLength (length component) i)
      else case find_index (\<lambda>c. c \<notin> set (wp_component_charset R)) 0 component of
             Some (got, at) \<Rightarrow> Some (WireCharacter got i at)
           | None \<Rightarrow> None)"

fun wire_components :: "'c WirePathRules \<Rightarrow> nat \<Rightarrow> 'c list list \<Rightarrow> 'c WirePathError option" where
  "wire_components R i [] = None"
| "wire_components R i (c # cs) =
     (case wire_component R i c of Some e \<Rightarrow> Some e | None \<Rightarrow> wire_components R (Suc i) cs)"

definition validate_wire_path :: "'c WirePathRules \<Rightarrow> 'c list \<Rightarrow> 'c WirePathError + unit" where
  "validate_wire_path R path =
     (if wp_max_len R < length path then Inl (WireLength (length path))
      else if \<not> starts_with path (wp_start R) then Inl WireNotAbsolute
      else if path = wp_root R then Inr ()
      else if list_ex (wire_under_prefix R path) (wp_reserved_prefixes R) then Inl ReservedPrefix
      else
        let components = split_on (wp_slash R) (drop (length (wp_start R)) path) in
        if wp_max_depth R < length components then Inl (Depth (length components))
        else case wire_components R 0 components of
               Some e \<Rightarrow> Inl e
             | None \<Rightarrow>
                 if \<not> wp_allow_trailing_slash R \<and> ends_with path [wp_slash R]
                 then Inl (EmptyComponent (length components - 1))
                 else Inr ())"

section \<open>The path check of the syscalls\<close>

datatype PathError = PathEmpty | PathNotAbsolute | PathNullByte | PathParentReference

definition validate_path_fast :: "string \<Rightarrow> PathError + unit" where
  "validate_path_fast path =
     (if path = [] then Inl PathEmpty
      else if \<not> starts_with path ''/'' then Inl PathNotAbsolute
      else if CHR 0x00 \<in> set path then Inl PathNullByte
      else if list_ex (\<lambda>seg. seg = ''..'') (split_on (CHR ''/'') path) then Inl PathParentReference
      else Inr ())"

section \<open>Agent owner and zone\<close>

datatype AgentContextError = InvalidArgument string | AgentPermissionDenied string

definition filter_nonempty :: "string option \<Rightarrow> string option" where
  "filter_nonempty r = (case r of Some [] \<Rightarrow> None | _ \<Rightarrow> r)"

definition resolve_agent_owner :: "OperationContext \<Rightarrow> string option \<Rightarrow> AgentContextError + string" where
  "resolve_agent_owner ctx requested =
     (let requested = filter_nonempty requested in
      if \<not> is_system ctx \<and> (case requested of None \<Rightarrow> False | Some owner \<Rightarrow> owner \<noteq> user_id ctx)
      then Inl (AgentPermissionDenied ''agent owner_id must match the authenticated caller'')
      else Inr (if is_system ctx
                then (case requested of Some owner \<Rightarrow> owner | None \<Rightarrow> user_id ctx)
                else user_id ctx))"

definition agent_zone_choice :: "OperationContext \<Rightarrow> string option \<Rightarrow> AgentContextError + string" where
  "agent_zone_choice ctx requested =
     (if is_system ctx
      then Inr (case requested of Some z \<Rightarrow> z | None \<Rightarrow> ROOT_ZONE_ID)
      else case requested of
             Some z \<Rightarrow>
               if \<not> is_admin ctx \<and> \<not> list_ex (\<lambda>(granted, _). granted = z) (zone_perms ctx)
               then Inl (AgentPermissionDenied
                 ''agent zone_id is not explicitly granted to the authenticated caller'')
               else Inr z
           | None \<Rightarrow>
               (case zone_perms ctx of
                  [(z, _)] \<Rightarrow> Inr z
                | [] \<Rightarrow> if is_admin ctx then Inr ROOT_ZONE_ID
                       else Inl (InvalidArgument
                         ''agent zone_id is required when the caller has no explicit zone grant'')
                | _ \<Rightarrow> Inl (InvalidArgument
                    ''agent zone_id is required when the caller has multiple explicit zone grants'')))"

definition resolve_agent_zone ::
  "char ZoneIdRules \<Rightarrow> OperationContext \<Rightarrow> string option \<Rightarrow> AgentContextError + string" where
  "resolve_agent_zone R ctx requested =
     (case agent_zone_choice ctx (filter_nonempty requested) of
        Inl e \<Rightarrow> Inl e
      | Inr z \<Rightarrow>
          (case validate_zone_id_for R ExistingRef z of
             Inl _ \<Rightarrow> Inl (InvalidArgument ''invalid agent zone_id'')
           | Inr _ \<Rightarrow> Inr z))"

section \<open>What the validators accept\<close>

lemma find_index_None: "find_index P i xs = None \<longleftrightarrow> (\<forall>x \<in> set xs. \<not> P x)"
  by (induction xs arbitrary: i) auto

lemma validate_zone_id_for_iff:
  "validate_zone_id_for R use zid = Inr () \<longleftrightarrow>
     (use \<noteq> TenantCreate \<and> zid \<in> set (zid_reserved R)) \<or>
     (zid_min_len R \<le> length zid \<and> length zid \<le> zid_max_len R \<and>
      \<not> starts_with zid [zid_no_leading R] \<and> \<not> ends_with zid [zid_no_trailing R] \<and>
      set zid \<subseteq> set (zid_charset R) \<and> (use = TenantCreate \<longrightarrow> zid \<notin> set (zid_reserved R)))"
proof -
  have "(\<exists>x \<in> set zid. x \<notin> set (zid_charset R)) \<longleftrightarrow> \<not> set zid \<subseteq> set (zid_charset R)"
    by auto
  then show ?thesis
    using find_index_None [of "\<lambda>c. c \<notin> set (zid_charset R)" 0 zid]
    by (cases "find_index (\<lambda>c. c \<notin> set (zid_charset R)) 0 zid") (auto simp: validate_zone_id_for_def)
qed

lemma zone_path_chars_iff:
  "(zone_path_chars R True i xs = None \<longleftrightarrow>
      (\<forall>c \<in> set xs. c \<notin> set (zp_forbidden_characters R)) \<and>
      (\<forall>p \<in> set (butlast (split_on (zp_separator R) xs)). p \<noteq> [])) \<and>
   (zone_path_chars R False i xs = None \<longleftrightarrow>
      (\<forall>c \<in> set xs. c \<notin> set (zp_forbidden_characters R)) \<and>
      (\<forall>p \<in> set (butlast (tl (split_on (zp_separator R) xs))). p \<noteq> []))"
proof (induction xs arbitrary: i)
  case (Cons x xs)
  obtain p ps where parts: "split_on (zp_separator R) xs = p # ps"
    by (cases "split_on (zp_separator R) xs") auto
  show ?case
    using Cons.IH [of "Suc i"] by (auto simp: parts)
qed simp

lemma last_split_on: "s \<noteq> [] \<Longrightarrow> last (split_on c s) = [] \<longleftrightarrow> last s = c"
proof (induction s)
  case (Cons x xs)
  show ?case
  proof (cases xs)
    case Nil
    then show ?thesis by simp
  next
    case (Cons y ys)
    obtain p ps where parts: "split_on c xs = p # ps"
      by (cases "split_on c xs") auto
    have "last (split_on c (x # xs)) = [] \<longleftrightarrow> last (split_on c xs) = []"
    proof (cases "x = c")
      case True
      then show ?thesis by simp
    next
      case False
      have "p \<noteq> [] \<or> ps \<noteq> []"
        using parts Cons by (cases "y = c") (auto split: list.splits)
      then show ?thesis
        using False parts Cons.prems \<open>xs = y # ys\<close>
        by (cases ps) (auto split: list.splits)
    qed
    then show ?thesis
      using Cons.IH \<open>xs = y # ys\<close> by simp
  qed
qed simp

lemma all_butlast_last: "xs \<noteq> [] \<Longrightarrow> (\<forall>x \<in> set xs. P x) \<longleftrightarrow> (\<forall>x \<in> set (butlast xs). P x) \<and> P (last xs)"
  by (cases xs rule: rev_cases) auto

definition strict_segment :: "'c ZonePathRules \<Rightarrow> 'c list \<Rightarrow> bool" where
  "strict_segment R seg \<longleftrightarrow>
     seg \<noteq> [] \<and> seg \<notin> set (zp_forbidden_segments R) \<and> zp_separator R \<notin> set seg \<and>
     (\<forall>c \<in> set seg. c \<notin> set (zp_forbidden_characters R))"

lemma set_join_with: "set (join_with sep ps) \<subseteq> set sep \<union> (\<Union>p \<in> set ps. set p)"
  by (induction sep ps rule: join_with.induct) auto

lemma split_on_subset: "p \<in> set (split_on c s) \<Longrightarrow> set p \<subseteq> set s"
proof (induction s arbitrary: p)
  case (Cons x xs)
  then show ?case by (fastforce split: if_splits list.splits)
qed simp

lemma validate_zone_path_parts:
  assumes root: "zp_root R = [zp_separator R]" and sep: "zp_separator R \<notin> set (zp_forbidden_characters R)"
    and rest: "rest \<noteq> []"
  shows "validate_zone_path R (zp_separator R # rest) = Inr () \<longleftrightarrow>
    (\<forall>seg \<in> set (split_on (zp_separator R) rest). strict_segment R seg)"
proof -
  let ?s = "zp_separator R" and ?parts = "split_on (zp_separator R) rest"
  have sw: "starts_with (?s # rest) [?s]"
    by (simp add: starts_with_def)
  have ew: "ends_with (?s # rest) [?s] \<longleftrightarrow> last ?parts = []"
  proof -
    have "ends_with (?s # rest) [?s] \<longleftrightarrow> last rest = ?s"
      using rest by (cases rest rule: rev_cases) (auto simp: ends_with_iff Cons_eq_append_conv)
    then show ?thesis
      using last_split_on [OF rest, of ?s] by simp
  qed
  have chars: "zone_path_chars R False 0 (?s # rest) = None \<longleftrightarrow>
      (\<forall>c \<in> set rest. c \<notin> set (zp_forbidden_characters R)) \<and> (\<forall>p \<in> set (butlast ?parts). p \<noteq> [])"
    using zone_path_chars_iff [of R 0 "?s # rest"] sep by auto
  have segs: "find_index (\<lambda>seg. seg \<in> set (zp_forbidden_segments R)) 1 (drop 1 (split_on ?s (?s # rest))) = None
      \<longleftrightarrow> (\<forall>seg \<in> set ?parts. seg \<notin> set (zp_forbidden_segments R))"
    by (simp add: find_index_None)
  have c1: "(\<forall>c \<in> set rest. c \<notin> set (zp_forbidden_characters R)) \<longleftrightarrow>
      (\<forall>p \<in> set ?parts. \<forall>c \<in> set p. c \<notin> set (zp_forbidden_characters R))"
    (is "?L \<longleftrightarrow> ?R")
  proof
    assume ?L
    then show ?R using split_on_subset [of _ ?s rest] by blast
  next
    assume ?R
    have "set rest \<subseteq> {?s} \<union> (\<Union>p \<in> set ?parts. set p)"
      using set_join_with [of "[?s]" ?parts] by (simp add: join_split_on)
    then have "c = ?s \<or> (\<exists>p \<in> set ?parts. c \<in> set p)" if "c \<in> set rest" for c
      using that by auto
    with \<open>?R\<close> sep show ?L by metis
  qed
  have c2: "\<forall>p \<in> set ?parts. ?s \<notin> set p"
    using split_on_fresh_parts by fast
  have c3: "validate_zone_path R (?s # rest) = Inr () \<longleftrightarrow> last ?parts \<noteq> [] \<and>
      zone_path_chars R False 0 (?s # rest) = None \<and>
      find_index (\<lambda>seg. seg \<in> set (zp_forbidden_segments R)) 1 (drop 1 (split_on ?s (?s # rest))) = None"
    using rest sw ew by (simp add: validate_zone_path_def root split: option.split)
  have c4: "(\<forall>p \<in> set ?parts. p \<noteq> []) \<longleftrightarrow> (\<forall>p \<in> set (butlast ?parts). p \<noteq> []) \<and> last ?parts \<noteq> []"
    by (rule all_butlast_last) simp
  show ?thesis
    unfolding c3 chars segs strict_segment_def ball_conj_distrib c4 c1
    using c2 by argo
qed

lemma validate_zone_path_iff:
  assumes root: "zp_root R = [zp_separator R]" and sep: "zp_separator R \<notin> set (zp_forbidden_characters R)"
  shows "validate_zone_path R path = Inr () \<longleftrightarrow>
    path = [zp_separator R] \<or>
    (\<exists>segs. segs \<noteq> [] \<and> path = zp_separator R # join_with [zp_separator R] segs \<and>
       (\<forall>seg \<in> set segs. strict_segment R seg))"
proof (cases "\<exists>rest. path = zp_separator R # rest")
  case False
  then show ?thesis
    by (auto simp: validate_zone_path_def starts_with_iff)
next
  case True
  then obtain rest where path: "path = zp_separator R # rest" by blast
  show ?thesis
  proof (cases "rest = []")
    case True
    then show ?thesis by (simp add: path validate_zone_path_def root starts_with_def)
  next
    case False
    have "(\<exists>segs. segs \<noteq> [] \<and> rest = join_with [zp_separator R] segs \<and> (\<forall>seg \<in> set segs. strict_segment R seg))
        \<longleftrightarrow> (\<forall>seg \<in> set (split_on (zp_separator R) rest). strict_segment R seg)"
    proof
      assume "\<exists>segs. segs \<noteq> [] \<and> rest = join_with [zp_separator R] segs \<and> (\<forall>seg \<in> set segs. strict_segment R seg)"
      then obtain segs where "segs \<noteq> []" "rest = join_with [zp_separator R] segs"
        "\<forall>seg \<in> set segs. strict_segment R seg" by blast
      then show "\<forall>seg \<in> set (split_on (zp_separator R) rest). strict_segment R seg"
        by (simp add: split_on_join strict_segment_def)
    next
      assume "\<forall>seg \<in> set (split_on (zp_separator R) rest). strict_segment R seg"
      then show "\<exists>segs. segs \<noteq> [] \<and> rest = join_with [zp_separator R] segs \<and> (\<forall>seg \<in> set segs. strict_segment R seg)"
        by (intro exI [of _ "split_on (zp_separator R) rest"]) (simp add: join_split_on)
    qed
    then show ?thesis
      using validate_zone_path_parts [OF assms False] False by (simp add: path)
  qed
qed

section \<open>Properties\<close>

text \<open>
  Under the rules of the zone-id specification, an id is admitted for the
  creation of a tenant zone exactly when it has 3 to 63 characters, all of them
  lower-case letters, digits or hyphens, no hyphen at either end, and is not
  reserved; for every other use the reserved ids are admitted as well.
\<close>

theorem zone_id_admission:
  "validate_zone_id_for zone_id_rules use zid = Inr () \<longleftrightarrow>
     (use \<noteq> TenantCreate \<and> zid \<in> {ROOT_ZONE_ID, ''__control__''}) \<or>
     (3 \<le> length zid \<and> length zid \<le> 63 \<and> hd zid \<noteq> CHR ''-'' \<and> last zid \<noteq> CHR ''-'' \<and>
      set zid \<subseteq> set zone_id_charset \<and> (use = TenantCreate \<longrightarrow> zid \<noteq> ROOT_ZONE_ID))"
proof -
  have sw: "starts_with zid ''-'' \<longleftrightarrow> zid \<noteq> [] \<and> hd zid = CHR ''-''"
    by (cases zid) (auto simp: starts_with_iff)
  have ew: "ends_with zid ''-'' \<longleftrightarrow> zid \<noteq> [] \<and> last zid = CHR ''-''"
    by (cases zid rule: rev_cases) (auto simp: ends_with_iff)
  have control: "\<not> set ''__control__'' \<subseteq> set zone_id_charset"
    by (simp add: zone_id_charset_def)
  show ?thesis
  proof (cases "3 \<le> length zid \<and> set zid \<subseteq> set zone_id_charset")
    case True
    then have "zid \<noteq> []" and "zid \<noteq> ''__control__''"
      using control by auto
    with True show ?thesis
      unfolding validate_zone_id_for_iff by (simp add: zone_id_rules_def sw ew)
  next
    case False
    then show ?thesis
      unfolding validate_zone_id_for_iff by (auto simp: zone_id_rules_def)
  qed
qed

theorem zone_id_admission_witness:
  "validate_zone_id_for zone_id_rules TenantCreate ''team-a1'' = Inr () \<and>
   validate_zone_id_for zone_id_rules TenantCreate ''root'' \<noteq> Inr () \<and>
   validate_zone_id_for zone_id_rules ExistingRef ''root'' = Inr ()"
  unfolding zone_id_admission by (simp add: ROOT_ZONE_ID_def zone_id_charset_def)

text \<open>
  The strict zone-path validator accepts exactly the root and the paths
  written as a slash before each of one or more segments, where a segment is
  not empty, not a dot or a double dot, and has no slash, backslash or null
  character.
\<close>

theorem zone_path_admission:
  "validate_zone_path zone_path_rules path = Inr () \<longleftrightarrow>
     path = ''/'' \<or>
     (\<exists>segs. segs \<noteq> [] \<and> path = ''/'' @ join_with ''/'' segs \<and>
        (\<forall>seg \<in> set segs. seg \<notin> {[], ''.'', ''..''} \<and>
           CHR ''/'' \<notin> set seg \<and> CHR 0x5C \<notin> set seg \<and> CHR 0x00 \<notin> set seg))"
proof -
  have "strict_segment zone_path_rules seg \<longleftrightarrow> seg \<notin> {[], ''.'', ''..''} \<and>
      CHR ''/'' \<notin> set seg \<and> CHR 0x5C \<notin> set seg \<and> CHR 0x00 \<notin> set seg" for seg
    by (auto simp: strict_segment_def zone_path_rules_def)
  moreover have "zp_root zone_path_rules = [zp_separator zone_path_rules]"
    "zp_separator zone_path_rules \<notin> set (zp_forbidden_characters zone_path_rules)"
    "zp_separator zone_path_rules = CHR ''/''"
    by (simp_all add: zone_path_rules_def)
  ultimately show ?thesis
    using validate_zone_path_iff [of zone_path_rules path] by simp
qed

theorem zone_path_admission_witness:
  "validate_zone_path zone_path_rules ''/docs/a.txt'' = Inr ()"
  unfolding zone_path_admission
  by (rule disjI2, rule exI [of _ "[''docs'', ''a.txt'']"]) simp

text \<open>
  Every strict zone path also passes the path check of the syscalls.
\<close>

theorem strict_zone_path_is_syscall_path:
  assumes "validate_zone_path zone_path_rules path = Inr ()"
  shows "validate_path_fast path = Inr ()"
proof (cases "path = ''/''")
  case True
  then show ?thesis by (simp add: validate_path_fast_def starts_with_def)
next
  case False
  have rules: "zp_root zone_path_rules = [zp_separator zone_path_rules]"
    "zp_separator zone_path_rules \<notin> set (zp_forbidden_characters zone_path_rules)"
    by (simp_all add: zone_path_rules_def)
  obtain segs where segs: "segs \<noteq> []" "path = CHR ''/'' # join_with ''/'' segs"
    "\<forall>seg \<in> set segs. strict_segment zone_path_rules seg"
    using assms False unfolding validate_zone_path_iff [OF rules] by (auto simp: zone_path_rules_def)
  have seg: "CHR ''/'' \<notin> set seg" "CHR 0x00 \<notin> set seg" "seg \<noteq> ''..''" if "seg \<in> set segs" for seg
    using segs(3) that by (auto simp: strict_segment_def zone_path_rules_def)
  have "CHR 0x00 \<notin> set path"
    using set_join_with [of "''/''" segs] seg(2) by (auto simp: segs(2))
  moreover have "split_on (CHR ''/'') path = [] # segs"
    using segs(1) seg(1) by (simp add: segs(2) split_on_join)
  ultimately show ?thesis
    using seg(3) by (auto simp: validate_path_fast_def segs(2) starts_with_def list_ex_iff)
qed

theorem strict_zone_path_is_syscall_path_witness: "validate_path_fast ''/docs/a.txt'' = Inr ()"
  by (rule strict_zone_path_is_syscall_path) code_simp

text \<open>
  An agent call that is neither a system nor an admin call acts for the
  authenticated caller and inside a zone that the caller was granted; any other
  owner or zone it asks for is refused.
\<close>

theorem agent_context_confined:
  assumes "\<not> is_system ctx" and "\<not> is_admin ctx"
  shows "(resolve_agent_owner ctx requested = Inr uid \<longrightarrow> uid = user_id ctx) \<and>
    (resolve_agent_zone R ctx requested = Inr z \<longrightarrow> z \<in> fst ` set (zone_perms ctx))"
proof (intro conjI impI)
  show "uid = user_id ctx" if "resolve_agent_owner ctx requested = Inr uid"
    using that assms by (auto simp: resolve_agent_owner_def Let_def split: if_splits)
next
  assume "resolve_agent_zone R ctx requested = Inr z"
  then have "agent_zone_choice ctx (filter_nonempty requested) = Inr z"
    by (auto simp: resolve_agent_zone_def split: sum.splits)
  then show "z \<in> fst ` set (zone_perms ctx)"
    using assms by (force simp: agent_zone_choice_def list_ex_iff split: option.splits list.splits if_splits)
qed

theorem agent_context_confined_witness:
  "resolve_agent_zone zone_id_rules
     ((operation_context_new ''alice'' ''root'' False None False)\<lparr>zone_perms := [(''team-a'', ''rw'')]\<rparr>)
     (Some ''team-b'') \<noteq> Inr ''team-b''"
  using agent_context_confined [of "(operation_context_new ''alice'' ''root'' False None False)\<lparr>zone_perms := [(''team-a'', ''rw'')]\<rparr>"
      "Some ''team-b''" _ zone_id_rules "''team-b''"]
  by (simp add: operation_context_new_def)

end
