(* ===== verification/Rebac_Enforce.thy ===== *)
theory Rebac_Enforce
  imports Rebac_Check Rebac_Store Contracts
begin

text \<open>
  The enforcement side of the access control plane: the per-zone graph cache
  (\<^verbatim>\<open>rebac/src/graph_cache.rs\<close>), the permission provider the kernel calls
  (\<^verbatim>\<open>permission_provider.rs\<close>), the zones a subject can read and their cache
  (\<^verbatim>\<open>list_zones.rs\<close>), and the zone-grant provider (\<^verbatim>\<open>permission/src/zone_perms.rs\<close>).
  Every read of the store is an argument, so that a call is a function of the
  values it read at each point; the interleaving of calls with writers is a step
  relation.  The lemmas show that a cache hit is never stale under any
  interleaving, that a check admits only what the zone's own tuples derive, and
  that errors deny.
\<close>

section \<open>The graph cache\<close>

definition REV_ALWAYS_STALE :: u64 where
  "REV_ALWAYS_STALE = 0"

record 'g ZoneEntry =
  ze_revision :: u64
  ze_graph :: 'g

text \<open>
  The three phases of \<^verbatim>\<open>graph_for_zone\<close>: look for an entry of the revision just
  read, build from a listing, and install the result if the revision is still
  the same.
\<close>

definition cached_graph :: "string \<Rightarrow> u64 \<Rightarrow> (string \<rightharpoonup> 'g ZoneEntry) \<Rightarrow> 'g option" where
  "cached_graph zone rv zones =
     (if rv \<noteq> REV_ALWAYS_STALE
      then (case zones zone of
              Some entry \<Rightarrow> if ze_revision entry = rv then Some (ze_graph entry) else None
            | None \<Rightarrow> None)
      else None)"

definition install_graph ::
  "string \<Rightarrow> u64 \<Rightarrow> u64 \<Rightarrow> 'g \<Rightarrow> (string \<rightharpoonup> 'g ZoneEntry) \<Rightarrow> (string \<rightharpoonup> 'g ZoneEntry)" where
  "install_graph zone rv rv2 g zones =
     (if rv \<noteq> REV_ALWAYS_STALE \<and> rv2 = rv
      then zones(zone \<mapsto> \<lparr>ze_revision = rv, ze_graph = g\<rparr>) else zones)"

definition graph_for_zone ::
  "string \<Rightarrow> ReBACTupleStoreError + u64 \<Rightarrow> ReBACTupleStoreError + (string \<times> bytes) list
     \<Rightarrow> ReBACTupleStoreError + u64 \<Rightarrow> (string \<rightharpoonup> ReBACGraph ZoneEntry)
     \<Rightarrow> (ReBACTupleStoreError + ReBACGraph) \<times> (string \<rightharpoonup> ReBACGraph ZoneEntry)" where
  "graph_for_zone zone revision listing revision2 zones =
     (case revision of
        Inl e \<Rightarrow> (Inl e, zones)
      | Inr rv \<Rightarrow>
          (case cached_graph zone rv zones of
             Some g \<Rightarrow> (Inr g, zones)
           | None \<Rightarrow>
               (case build_graph_for_zone listing zone of
                  Inl e \<Rightarrow> (Inl e, zones)
                | Inr g \<Rightarrow>
                    if rv \<noteq> REV_ALWAYS_STALE
                    then (case revision2 of
                            Inl e \<Rightarrow> (Inl e, zones)
                          | Inr rv2 \<Rightarrow> (Inr g, install_graph zone rv rv2 g zones))
                    else (Inr g, zones))))"

definition invalidate :: "string \<Rightarrow> (string \<rightharpoonup> 'g ZoneEntry) \<Rightarrow> (string \<rightharpoonup> 'g ZoneEntry)" where
  "invalidate zone zones = zones(zone := None)"

section \<open>The permission provider\<close>

datatype Permission = Read | Write | Traverse

datatype KernelError = PermissionDenied string

definition candidate_relations :: "Permission \<Rightarrow> string list" where
  "candidate_relations p =
     (case p of
        Write \<Rightarrow> [''writer'', ''owner'', ''direct_editor'', ''direct_owner'']
      | _ \<Rightarrow> [''viewer'', ''reader'', ''writer'', ''owner'', ''direct_viewer'', ''direct_editor'',
             ''direct_owner''])"

definition subject_of :: "OperationContext \<Rightarrow> Entity" where
  "subject_of ctx =
     \<lparr>entity_type = ctx_subject_type ctx,
      entity_id = (case ctx_subject_id ctx of Some i \<Rightarrow> i | None \<Rightarrow> user_id ctx)\<rparr>"

definition object_of :: "string \<Rightarrow> Entity" where
  "object_of path = \<lparr>entity_type = ''file'', entity_id = path\<rparr>"

text \<open>A route contributes its zone id; it is absent when the router was not consulted.\<close>

definition provider_zone_of :: "OperationContext \<Rightarrow> string option \<Rightarrow> string" where
  "provider_zone_of ctx route_zone = (case route_zone of Some z \<Rightarrow> z | None \<Rightarrow> zone_id ctx)"

definition allows :: "Namespaces \<Rightarrow> Entity \<Rightarrow> Permission \<Rightarrow> Entity \<Rightarrow> ReBACGraph \<Rightarrow> bool" where
  "allows ns subject p object g \<longleftrightarrow>
     list_ex (\<lambda>rel. fst (compute_permission subject rel object g ns (Map.empty, {}) 0))
       (candidate_relations p)"

text \<open>The message of the error names the reason; the outcome of loading the graph is an argument.\<close>

definition provider_check ::
  "Namespaces \<Rightarrow> string \<Rightarrow> Permission \<Rightarrow> OperationContext \<Rightarrow> ReBACTupleStoreError + ReBACGraph
     \<Rightarrow> KernelError + unit" where
  "provider_check ns path p ctx loaded =
     (if is_system ctx then Inr ()
      else if is_admin ctx then Inr ()
      else case loaded of
             Inl (Backend msg) \<Rightarrow> Inl (PermissionDenied msg)
           | Inr g \<Rightarrow>
               if allows ns (subject_of ctx) p (object_of path) g then Inr ()
               else Inl (PermissionDenied path))"

text \<open>A whole check: the zone, the graph from the cache or the store, the decision.\<close>

definition rebac_check ::
  "Namespaces \<Rightarrow> string \<Rightarrow> string option \<Rightarrow> Permission \<Rightarrow> OperationContext
     \<Rightarrow> ReBACTupleStoreError + u64 \<Rightarrow> ReBACTupleStoreError + (string \<times> bytes) list
     \<Rightarrow> ReBACTupleStoreError + u64 \<Rightarrow> (string \<rightharpoonup> ReBACGraph ZoneEntry)
     \<Rightarrow> (KernelError + unit) \<times> (string \<rightharpoonup> ReBACGraph ZoneEntry)" where
  "rebac_check ns path route_zone p ctx revision listing revision2 zones =
     (if is_system ctx \<or> is_admin ctx then (Inr (), zones)
      else case graph_for_zone (provider_zone_of ctx route_zone) revision listing revision2 zones of
             (loaded, zones') \<Rightarrow> (provider_check ns path p ctx loaded, zones'))"

section \<open>Zones a subject can read\<close>

definition READ_GRANTING_RELATIONS :: "string list" where
  "READ_GRANTING_RELATIONS = [''member'', ''owner'', ''admin'', ''viewer'']"

definition list_accessible_zones ::
  "ReBACTupleStoreError + (string \<times> bytes) list \<Rightarrow> string \<times> string \<Rightarrow> ReBACTupleStoreError + string list" where
  "list_accessible_zones listing subject =
     (case listing of
        Inl e \<Rightarrow> Inl e
      | Inr entries \<Rightarrow>
          Inr (map fst (fold (\<lambda>(key, _) zones.
            case decode key of
              None \<Rightarrow> zones
            | Some (_, t) \<Rightarrow>
                if object_type t = ''zone'' \<and> subject_type t = fst subject \<and>
                   subject_id t = snd subject \<and> relation t \<in> set READ_GRANTING_RELATIONS
                then om_put (object_id t) () zones else zones) entries [])))"

record CachedZones =
  cz_zones :: "string list"
  cz_expiry :: nat
  cz_revision :: u64

definition cache_key :: "string \<times> string \<Rightarrow> string" where
  "cache_key subject = fst subject @ '':'' @ snd subject"

definition accessible_zones_lookup ::
  "nat \<Rightarrow> nat \<Rightarrow> string \<times> string \<Rightarrow> ReBACTupleStoreError + u64
     \<Rightarrow> ReBACTupleStoreError + (string \<times> bytes) list \<Rightarrow> ReBACTupleStoreError + u64
     \<Rightarrow> (string \<rightharpoonup> CachedZones) \<Rightarrow> (ReBACTupleStoreError + string list) \<times> (string \<rightharpoonup> CachedZones)" where
  "accessible_zones_lookup ttl now subject revision listing revision2 entries =
     (case revision of
        Inl e \<Rightarrow> (Inl e, entries)
      | Inr rv \<Rightarrow>
          let key = cache_key subject;
              hit = (case entries key of
                       None \<Rightarrow> None
                     | Some c \<Rightarrow> if rv \<noteq> 0 \<and> cz_revision c = rv \<and> now < cz_expiry c
                                then Some (cz_zones c) else None)
          in (case hit of
                Some zs \<Rightarrow> (Inr zs, entries)
              | None \<Rightarrow>
                  (case list_accessible_zones listing subject of
                     Inl e \<Rightarrow> (Inl e, entries)
                   | Inr zs \<Rightarrow>
                       if rv \<noteq> 0
                       then (case revision2 of
                               Inl e \<Rightarrow> (Inl e, entries)
                             | Inr rv2 \<Rightarrow>
                                 (Inr zs, if rv2 = rv
                                          then entries(key \<mapsto> \<lparr>cz_zones = zs, cz_expiry = now + ttl,
                                                               cz_revision = rv\<rparr>)
                                          else entries))
                       else (Inr zs, entries))))"

definition accessible_zones_clear :: "(string \<rightharpoonup> CachedZones) \<Rightarrow> (string \<rightharpoonup> CachedZones)" where
  "accessible_zones_clear entries = Map.empty"

section \<open>Zone grants\<close>

definition permission_char :: "Permission \<Rightarrow> char" where
  "permission_char p = (case p of Write \<Rightarrow> CHR ''w'' | _ \<Rightarrow> CHR ''r'')"

definition owning_zone :: "string option \<Rightarrow> OperationContext \<Rightarrow> string" where
  "owning_zone route_zone ctx =
     (case route_zone of
        Some z \<Rightarrow> z
      | None \<Rightarrow> (case context_zone_id ctx of Some z \<Rightarrow> z | None \<Rightarrow> ROOT_ZONE_ID))"

definition zone_perms_check ::
  "string \<Rightarrow> string option \<Rightarrow> Permission \<Rightarrow> OperationContext \<Rightarrow> KernelError + unit" where
  "zone_perms_check path route_zone p ctx =
     (if list_ex (\<lambda>(zid, chars). zid = owning_zone route_zone ctx \<and> permission_char p \<in> set chars)
           (zone_perms ctx)
      then Inr () else Inl (PermissionDenied path))"

section \<open>Readers of the cache next to writers of the store\<close>

text \<open>
  A reader between the phases of \<^verbatim>\<open>graph_for_zone\<close> has sampled a revision or
  built a graph; a writer may commit between any two phases.
\<close>

datatype 'g Reader = Idle | Sampled string u64 | Built string u64 'g

record ('s, 'g) CacheSystem =
  cs_store :: 's
  cs_zones :: "string \<rightharpoonup> 'g ZoneEntry"
  cs_readers :: "nat \<Rightarrow> 'g Reader"

text \<open>
  A write is possible while the 64-bit revision counter has not reached its last
  value.
\<close>

inductive cache_step ::
  "('op \<Rightarrow> 's \<Rightarrow> 's) \<Rightarrow> ('s \<Rightarrow> u64) \<Rightarrow> ('s \<Rightarrow> string \<Rightarrow> 'g) \<Rightarrow> ('s, 'g) CacheSystem \<Rightarrow> ('s, 'g) CacheSystem \<Rightarrow> bool"
  for commit rv build where
  commits: "rv (cs_store c) \<noteq> - 1 \<Longrightarrow>
    cache_step commit rv build c (c\<lparr>cs_store := commit a (cs_store c)\<rparr>)"
| misses: "cs_readers c i = Idle \<Longrightarrow> cached_graph zone (rv (cs_store c)) (cs_zones c) = None \<Longrightarrow>
    cache_step commit rv build c (c\<lparr>cs_readers := (cs_readers c)(i := Sampled zone (rv (cs_store c)))\<rparr>)"
| builds: "cs_readers c i = Sampled zone r \<Longrightarrow>
    cache_step commit rv build c (c\<lparr>cs_readers := (cs_readers c)(i := Built zone r (build (cs_store c) zone))\<rparr>)"
| installs: "cs_readers c i = Built zone r g \<Longrightarrow>
    cache_step commit rv build c
      (c\<lparr>cs_zones := install_graph zone r (rv (cs_store c)) g (cs_zones c),
         cs_readers := (cs_readers c)(i := Idle)\<rparr>)"
| drops: "cache_step commit rv build c (c\<lparr>cs_zones := invalidate zone (cs_zones c)\<rparr>)"

definition cache_init :: "'s \<Rightarrow> ('s, 'g) CacheSystem" where
  "cache_init s = \<lparr>cs_store = s, cs_zones = Map.empty, cs_readers = (\<lambda>_. Idle)\<rparr>"

text \<open>
  What a cache relies on in a store: a revision never goes back, and it moves on
  whenever what is built from the store changes.
\<close>

locale revisioned_store =
  fixes commit :: "'op \<Rightarrow> 's \<Rightarrow> 's"
    and rv :: "'s \<Rightarrow> u64"
    and build :: "'s \<Rightarrow> string \<Rightarrow> 'g"
  assumes rev_mono: "rv s \<noteq> - 1 \<Longrightarrow> rv s \<le> rv (commit a s)"
    and rev_change: "rv s \<noteq> - 1 \<Longrightarrow> build (commit a s) \<noteq> build s \<Longrightarrow> rv s < rv (commit a s)"
begin

definition tagged :: "('s, 'g) CacheSystem \<Rightarrow> string \<Rightarrow> u64 \<Rightarrow> 'g \<Rightarrow> bool" where
  "tagged c zone r g \<longleftrightarrow>
     r \<le> rv (cs_store c) \<and> (r = rv (cs_store c) \<longrightarrow> g = build (cs_store c) zone)"

definition cache_inv :: "('s, 'g) CacheSystem \<Rightarrow> bool" where
  "cache_inv c \<longleftrightarrow>
     (\<forall>zone e. cs_zones c zone = Some e \<longrightarrow> tagged c zone (ze_revision e) (ze_graph e)) \<and>
     (\<forall>i. case cs_readers c i of
            Idle \<Rightarrow> True
          | Sampled zone r \<Rightarrow> r \<le> rv (cs_store c)
          | Built zone r g \<Rightarrow> tagged c zone r g)"

lemma tagged_write:
  assumes "rv (cs_store c) \<noteq> - 1" and "tagged c zone r g"
  shows "tagged (c\<lparr>cs_store := commit a (cs_store c)\<rparr>) zone r g"
proof -
  let ?s = "cs_store c" and ?t = "commit a (cs_store c)"
  have mono: "rv ?s \<le> rv ?t"
    by (rule rev_mono) (rule assms(1))
  have "g = build ?t zone" if "r = rv ?t"
  proof -
    have "rv ?s = rv ?t" "r = rv ?s"
      using that mono assms(2) by (auto simp: tagged_def)
    then have "build ?t = build ?s"
      using rev_change [OF assms(1), of a] by auto
    then show ?thesis
      using assms(2) \<open>r = rv ?s\<close> by (simp add: tagged_def)
  qed
  then show ?thesis
    using mono assms(2) by (auto simp: tagged_def)
qed

lemma tagged_cong: "cs_store c' = cs_store c \<Longrightarrow> tagged c' zone r g = tagged c zone r g"
  by (simp add: tagged_def)

lemma cache_step_inv:
  assumes "cache_step commit rv build c c'" and "cache_inv c"
  shows "cache_inv c'"
  using assms
proof cases
  case (commits a)
  have "r \<le> rv (commit a (cs_store c))" if "r \<le> rv (cs_store c)" for r
    using that rev_mono [OF commits(2), of a] by simp
  then show ?thesis
    using assms(2) tagged_write [OF commits(2)] unfolding commits(1) cache_inv_def
    by (fastforce split: Reader.splits)
next
  case (misses i zone)
  then show ?thesis
    using assms(2) by (auto simp: cache_inv_def tagged_def split: Reader.splits)
next
  case (builds i zone r)
  then have "r \<le> rv (cs_store c)"
    using assms(2) by (auto simp: cache_inv_def split: Reader.splits)
  then show ?thesis
    using assms(2) builds by (auto simp: cache_inv_def tagged_def split: Reader.splits)
next
  case (installs i zone r g)
  then have "tagged c zone r g"
    using assms(2) by (auto simp: cache_inv_def split: Reader.splits)
  then show ?thesis
    using assms(2) installs by (auto simp: cache_inv_def tagged_def install_graph_def split: Reader.splits)
next
  case (drops zone)
  then show ?thesis
    using assms(2) by (auto simp: cache_inv_def tagged_def invalidate_def split: if_splits Reader.splits)
qed

lemma cache_reach_inv:
  assumes "(cache_step commit rv build)\<^sup>*\<^sup>* (cache_init s) c"
  shows "cache_inv c"
  using assms
proof induction
  case base
  show ?case by (simp add: cache_inv_def cache_init_def)
next
  case (step c c')
  then show ?case using cache_step_inv by blast
qed

lemma cache_hit_fresh:
  assumes "(cache_step commit rv build)\<^sup>*\<^sup>* (cache_init s) c"
    and "cached_graph zone (rv (cs_store c)) (cs_zones c) = Some g"
  shows "g = build (cs_store c) zone"
  using cache_reach_inv [OF assms(1)] assms(2)
  by (auto simp: cache_inv_def cached_graph_def tagged_def split: if_splits option.splits)

end

text \<open>The writes of the in-memory store, and the graph a zone is built to.\<close>

datatype StoreOp = StorePut string bytes | StoreDelete string

fun store_commit :: "StoreOp \<Rightarrow> InMemoryReBACTupleStore \<Rightarrow> InMemoryReBACTupleStore" where
  "store_commit (StorePut key v) s = inmem_put key v s"
| "store_commit (StoreDelete key) s = snd (inmem_delete key s)"

definition store_graph :: "InMemoryReBACTupleStore \<Rightarrow> string \<Rightarrow> ReBACGraph" where
  "store_graph s zone = from_tuples (zone_tuples zone (inmem_list s))"

lemma om_del_absent: "map_of m k = None \<Longrightarrow> om_del k m = m"
  by (auto simp: om_del_def map_of_None_keys filter_id_conv)

interpretation inmem_cache: revisioned_store store_commit im_revision store_graph
proof
  fix s :: InMemoryReBACTupleStore and a
  assume "im_revision s \<noteq> - 1"
  then have lt: "im_revision s < im_revision s + 1"
    by (rule word_less_inc)
  then show "im_revision s \<le> im_revision (store_commit a s)"
    by (cases a) (auto simp: inmem_put_def inmem_delete_def Let_def)
  assume change: "store_graph (store_commit a s) \<noteq> store_graph s"
  show "im_revision s < im_revision (store_commit a s)"
  proof (cases a)
    case (StorePut key v)
    then show ?thesis using lt by (simp add: inmem_put_def)
  next
    case (StoreDelete key)
    then have "om_del key (im_entries s) \<noteq> im_entries s"
      using change by (auto simp: inmem_delete_def store_graph_def inmem_list_def Let_def fun_eq_iff)
    then have "map_of (im_entries s) key \<noteq> None"
      by (rule contrapos_nn) (rule om_del_absent)
    then show ?thesis
      using lt StoreDelete by (simp add: inmem_delete_def)
  qed
qed

section \<open>Decisions\<close>

lemma allows_sound:
  assumes "allows ns s p e (from_tuples ts)"
  shows "\<exists>rel \<in> set (candidate_relations p). derivable ts ns s rel e"
proof -
  obtain rel where rel: "rel \<in> set (candidate_relations p)"
    "fst (compute_permission s rel e (from_tuples ts) ns (Map.empty, {}) 0)"
    using assms by (auto simp: allows_def list_ex_iff)
  obtain r memo' vis' where
    run: "compute_permission s rel e (from_tuples ts) ns (Map.empty, {}) 0 = (r, (memo', vis'))"
    by (rule prod_cases3)
  have "cache_sound ts ns Map.empty"
    by (simp add: cache_sound_def)
  from compute_permission_sound_raw [OF this run] rel run show ?thesis
    by auto
qed

lemma graph_for_zone_fresh:
  assumes "graph_for_zone zone (Inr rv) (Inr entries) revision2 zones = (Inr g, zones')"
    and "\<And>g. cached_graph zone rv zones = Some g \<Longrightarrow> g = from_tuples (zone_tuples zone entries)"
  shows "g = from_tuples (zone_tuples zone entries)"
  using assms
  by (auto simp: graph_for_zone_def build_graph_for_zone_def split: option.splits if_splits sum.splits)

text \<open>The scan that lists a subject's zones collects a set in ascending order.\<close>

lemma fold_om_set:
  assumes "om_wf m"
  shows "om_wf (fold (\<lambda>x m. case f x of None \<Rightarrow> m | Some z \<Rightarrow> om_put z () m) xs m) \<and>
    fst ` set (fold (\<lambda>x m. case f x of None \<Rightarrow> m | Some z \<Rightarrow> om_put z () m) xs m) =
      fst ` set m \<union> {z. \<exists>x \<in> set xs. f x = Some z}"
  using assms
proof (induction xs arbitrary: m)
  case (Cons x xs)
  show ?case
  proof (cases "f x")
    case None
    then show ?thesis using Cons by auto
  next
    case (Some z)
    have "fst ` set (om_put z () m) = insert z (fst ` set m)"
      unfolding om_set_put [OF Cons.prems] by force
    then show ?thesis
      using Some Cons.IH [of "om_put z () m"] Cons.prems by auto
  qed
qed simp

definition zone_grant :: "string \<times> string \<Rightarrow> string \<Rightarrow> string option" where
  "zone_grant subject key =
     (case decode key of
        None \<Rightarrow> None
      | Some (_, t) \<Rightarrow>
          if object_type t = ''zone'' \<and> subject_type t = fst subject \<and> subject_id t = snd subject \<and>
             relation t \<in> set READ_GRANTING_RELATIONS
          then Some (object_id t) else None)"

lemma list_accessible_zones_eq:
  "list_accessible_zones (Inr entries) subject =
     Inr (map fst (fold (\<lambda>x m. case zone_grant subject (fst x) of None \<Rightarrow> m | Some z \<Rightarrow> om_put z () m) entries []))"
proof -
  have "(\<lambda>(key, _) zones. case decode key of None \<Rightarrow> zones
        | Some (_, t) \<Rightarrow> if object_type t = ''zone'' \<and> subject_type t = fst subject \<and>
              subject_id t = snd subject \<and> relation t \<in> set READ_GRANTING_RELATIONS
            then om_put (object_id t) () zones else zones) =
      (\<lambda>x :: string \<times> bytes. \<lambda>m. case zone_grant subject (fst x) of None \<Rightarrow> m | Some z \<Rightarrow> om_put z () m)"
    by (auto simp: zone_grant_def fun_eq_iff split: option.split)
  then show ?thesis
    by (simp add: list_accessible_zones_def)
qed

section \<open>Properties\<close>





text \<open>
  The zones listed for a subject are, in ascending order and without
  repetition, exactly the objects of type zone on which a stored tuple gives
  that subject one of the read-granting relations.
\<close>

theorem list_accessible_zones_exact:
  "\<exists>zs. list_accessible_zones (Inr entries) subject = Inr zs \<and> sorted_wrt (<) zs \<and>
     (\<forall>z. z \<in> set zs \<longleftrightarrow> (\<exists>(key, v) \<in> set entries. \<exists>owner t. decode key = Some (owner, t) \<and>
        object_type t = ''zone'' \<and> object_id t = z \<and> (subject_type t, subject_id t) = subject \<and>
        relation t \<in> {''member'', ''owner'', ''admin'', ''viewer''}))"
proof -
  let ?m = "fold (\<lambda>x m. case zone_grant subject (fst x) of None \<Rightarrow> m | Some z \<Rightarrow> om_put z () m) entries []"
  have "om_wf ?m" and set: "fst ` set ?m = {z. \<exists>x \<in> set entries. zone_grant subject (fst x) = Some z}"
    using fold_om_set [of "[]" "\<lambda>x. zone_grant subject (fst x)" entries] by auto
  then have "sorted_wrt (<) (map fst ?m)"
    by (simp add: om_wf_def)
  moreover have "z \<in> set (map fst ?m) \<longleftrightarrow> (\<exists>(key, v) \<in> set entries. \<exists>owner t. decode key = Some (owner, t) \<and>
      object_type t = ''zone'' \<and> object_id t = z \<and> (subject_type t, subject_id t) = subject \<and>
      relation t \<in> {''member'', ''owner'', ''admin'', ''viewer''})" for z
  proof -
    have "zone_grant subject key = Some z \<longleftrightarrow> (\<exists>owner t. decode key = Some (owner, t) \<and>
        object_type t = ''zone'' \<and> object_id t = z \<and> (subject_type t, subject_id t) = subject \<and>
        relation t \<in> {''member'', ''owner'', ''admin'', ''viewer''})" for key
      by (auto simp: zone_grant_def READ_GRANTING_RELATIONS_def split: option.splits if_splits)
    then show ?thesis
      using set by (auto simp: case_prod_beta)
  qed
  ultimately show ?thesis
    by (auto simp: list_accessible_zones_eq)
qed

text \<open>
  C24.  The cache of accessible zones is keyed by the type and the id of the
  subject joined with a colon, which two different subjects can share: after one
  of them looked up its zones, the other is served the same list without a look
  at the store.
\<close>

theorem accessible_zones_cache_collision:
  assumes "rv \<noteq> 0" and "0 < ttl"
    and "accessible_zones_lookup ttl now (''user'', ''a:b'') (Inr rv) (Inr entries) (Inr rv) Map.empty = (Inr zs, cache)"
  shows "fst (accessible_zones_lookup ttl now (''user:a'', ''b'') (Inr rv) (Inr entries) (Inr rv) cache) = Inr zs"
  using assms
  by (auto simp: accessible_zones_lookup_def cache_key_def Let_def split: sum.splits)

theorem accessible_zones_cache_collision_witness:
  "fst (accessible_zones_lookup 10 5 (''user:a'', ''b'') (Inr 1)
      (Inr [(''root|zone|secret|viewer|user|a:b'', [])]) (Inr 1)
      (snd (accessible_zones_lookup 10 5 (''user'', ''a:b'') (Inr 1)
        (Inr [(''root|zone|secret|viewer|user|a:b'', [])]) (Inr 1) Map.empty))) = Inr [''secret''] \<and>
   list_accessible_zones (Inr [(''root|zone|secret|viewer|user|a:b'', [])]) (''user:a'', ''b'') = Inr []"
proof
  let ?l = "[(''root|zone|secret|viewer|user|a:b'', [])] :: (string \<times> bytes) list"
  let ?c = "accessible_zones_lookup 10 5 (''user'', ''a:b'') (Inr 1) (Inr ?l) (Inr 1) Map.empty"
  have "fst ?c = Inr [''secret'']"
    by code_simp
  then have "?c = (Inr [''secret''], snd ?c)"
    by (metis prod.collapse)
  from accessible_zones_cache_collision [OF _ _ this]
  show "fst (accessible_zones_lookup 10 5 (''user:a'', ''b'') (Inr 1) (Inr ?l) (Inr 1) (snd ?c)) = Inr [''secret'']"
    by simp
  show "list_accessible_zones (Inr ?l) (''user:a'', ''b'') = Inr []"
    by code_simp
qed

end
