(* ===== verification/Byte_Codec.thy ===== *)
theory Byte_Codec
  imports Nexus_Prelude
begin

text \<open>
  Byte buffers: slices that panic out of range, fixed-width integers in both
  byte orders, and length-prefixed frames.  The channels of
  \<^verbatim>\<open>kernel/src/core/pipe\<close> and \<^verbatim>\<open>kernel/src/core/stream\<close> and the records of the
  replicated state machine are written with them.
\<close>

section \<open>Slices\<close>

text \<open>\<^verbatim>\<open>buf[a..a + n]\<close> as a value and as a target; \<^const>\<open>None\<close> is the panic.\<close>

definition slice :: "'a list \<Rightarrow> nat \<Rightarrow> nat \<Rightarrow> 'a list option" where
  "slice buf a n = (if a + n \<le> length buf then Some (take n (drop a buf)) else None)"

definition write_slice :: "'a list \<Rightarrow> nat \<Rightarrow> 'a list \<Rightarrow> 'a list option" where
  "write_slice buf a d =
     (if a + length d \<le> length buf then Some (take a buf @ d @ drop (a + length d) buf) else None)"

lemma slice_Some_iff:
  "slice buf a n = Some d \<longleftrightarrow> a + n \<le> length buf \<and> length d = n \<and> (\<forall>i < n. d ! i = buf ! (a + i))"
  by (auto simp: slice_def list_eq_iff_nth_eq)

lemma write_slice_Some:
  assumes "a + length d \<le> length buf"
  obtains buf' where "write_slice buf a d = Some buf'" and "length buf' = length buf"
    and "\<And>i. i < length d \<Longrightarrow> buf' ! (a + i) = d ! i"
    and "\<And>j. j < a \<or> a + length d \<le> j \<Longrightarrow> buf' ! j = buf ! j"
proof
  let ?b = "take a buf @ d @ drop (a + length d) buf"
  show "write_slice buf a d = Some ?b" and "length ?b = length buf"
    using assms by (auto simp: write_slice_def)
  show "?b ! (a + i) = d ! i" if "i < length d" for i
    using assms that by (simp add: nth_append)
  show "?b ! j = buf ! j" if "j < a \<or> a + length d \<le> j" for j
  proof (cases "j < length buf")
    case True
    then show ?thesis using assms that by (auto simp: nth_append)
  next
    case False
    then have "?b ! j = drop (a + length d) buf ! (j - (a + length d))"
      using assms by (auto simp: nth_append)
    also have "\<dots> = buf ! j"
      using assms False by (simp add: nth_drop)
    finally show ?thesis .
  qed
qed

section \<open>Fixed-width integers\<close>

primrec le_bytes :: "nat \<Rightarrow> nat \<Rightarrow> bytes" where
  "le_bytes 0 v = []"
| "le_bytes (Suc n) v = word_of_nat (v mod 256) # le_bytes n (v div 256)"

primrec le_value :: "bytes \<Rightarrow> nat" where
  "le_value [] = 0"
| "le_value (b # bs) = unat b + 256 * le_value bs"

definition be_bytes :: "nat \<Rightarrow> nat \<Rightarrow> bytes" where
  "be_bytes n v = rev (le_bytes n v)"

definition be_value :: "bytes \<Rightarrow> nat" where
  "be_value bs = le_value (rev bs)"

lemma length_le_bytes [simp]: "length (le_bytes n v) = n"
  by (induction n arbitrary: v) auto

lemma length_be_bytes [simp]: "length (be_bytes n v) = n"
  by (simp add: be_bytes_def)

lemma unat_byte [simp]: "unat (word_of_nat (v mod 256) :: u8) = v mod 256"
  by (simp add: unsigned_of_nat take_bit_eq_mod)

lemma le_value_bytes: "le_value (le_bytes n v) = v mod 256 ^ n"
proof (induction n arbitrary: v)
  case (Suc n)
  then show ?case
    by (simp add: mod_mult2_eq [of v 256 "256 ^ n"] add.commute)
qed simp

lemma le_round_trip [simp]: "v < 256 ^ n \<Longrightarrow> le_value (le_bytes n v) = v"
  by (simp add: le_value_bytes)

lemma be_round_trip [simp]: "v < 256 ^ n \<Longrightarrow> be_value (be_bytes n v) = v"
  by (simp add: be_value_def be_bytes_def)

lemma unat_u8_lt: "unat (b :: u8) < 256"
  using unsigned_less [of b] by simp

lemma le_value_lt: "le_value bs < 256 ^ length bs"
proof (induction bs)
  case (Cons b bs)
  have "unat b < 256"
    by (rule unat_u8_lt)
  then have "unat b + 256 * le_value bs < 256 + 256 * le_value bs"
    by simp
  also have "\<dots> \<le> 256 * 256 ^ length bs"
    using Cons mult_le_mono2 [of "Suc (le_value bs)" "256 ^ length bs" 256] by simp
  finally show ?case by simp
qed simp

lemma le_bytes_value: "le_bytes (length bs) (le_value bs) = bs"
proof (induction bs)
  case (Cons b bs)
  have "unat b < 256"
    by (rule unat_u8_lt)
  then show ?case
    using Cons by simp
qed simp

lemma be_bytes_inj: "be_bytes n v = be_bytes n w \<Longrightarrow> v < 256 ^ n \<Longrightarrow> w < 256 ^ n \<Longrightarrow> v = w"
  using be_round_trip by metis

section \<open>Length-prefixed frames\<close>

definition HEADER_SIZE :: nat where
  "HEADER_SIZE = 4"

text \<open>A frame: the length in four bytes, least significant first, then the payload.\<close>

definition frame_at :: "bytes \<Rightarrow> nat \<Rightarrow> bytes \<Rightarrow> bool" where
  "frame_at buf i d \<longleftrightarrow>
     slice buf i HEADER_SIZE = Some (le_bytes 4 (length d)) \<and>
     slice buf (i + HEADER_SIZE) (length d) = Some d"

lemma frame_at_bound: "frame_at buf i d \<Longrightarrow> i + HEADER_SIZE + length d \<le> length buf"
  by (auto simp: frame_at_def slice_Some_iff)

lemma slice_cong:
  assumes "slice buf i n = Some d" and "length buf' = length buf"
    and "\<And>j. i \<le> j \<Longrightarrow> j < i + n \<Longrightarrow> buf' ! j = buf ! j"
  shows "slice buf' i n = Some d"
  using assms by (auto simp: slice_Some_iff)

lemma frame_at_cong:
  assumes "frame_at buf i d" and "length buf' = length buf"
    and "\<And>j. i \<le> j \<Longrightarrow> j < i + HEADER_SIZE + length d \<Longrightarrow> buf' ! j = buf ! j"
  shows "frame_at buf' i d"
  using assms unfolding frame_at_def by (auto intro!: slice_cong [of buf])

lemma write_frame:
  assumes "i + HEADER_SIZE + length d \<le> length buf"
  obtains b1 b2 where "write_slice buf i (le_bytes 4 (length d)) = Some b1"
    and "write_slice b1 (i + HEADER_SIZE) d = Some b2"
    and "length b2 = length buf" and "frame_at b2 i d"
    and "\<And>j. j < i \<or> i + HEADER_SIZE + length d \<le> j \<Longrightarrow> b2 ! j = buf ! j"
proof -
  have "i + length (le_bytes 4 (length d)) \<le> length buf"
    using assms by (simp add: HEADER_SIZE_def)
  then obtain b1 where b1: "write_slice buf i (le_bytes 4 (length d)) = Some b1" "length b1 = length buf"
    "\<And>k. k < 4 \<Longrightarrow> b1 ! (i + k) = le_bytes 4 (length d) ! k"
    "\<And>j. j < i \<or> i + 4 \<le> j \<Longrightarrow> b1 ! j = buf ! j"
    by (rule write_slice_Some) auto
  have "i + HEADER_SIZE + length d \<le> length b1"
    using assms b1(2) by simp
  then obtain b2 where b2: "write_slice b1 (i + HEADER_SIZE) d = Some b2" "length b2 = length b1"
    "\<And>k. k < length d \<Longrightarrow> b2 ! (i + HEADER_SIZE + k) = d ! k"
    "\<And>j. j < i + HEADER_SIZE \<or> i + HEADER_SIZE + length d \<le> j \<Longrightarrow> b2 ! j = b1 ! j"
    by (rule write_slice_Some) auto
  have "frame_at b2 i d"
    using assms b1(2,3) b2 by (auto simp: frame_at_def slice_Some_iff HEADER_SIZE_def)
  moreover have "b2 ! j = buf ! j" if "j < i \<or> i + HEADER_SIZE + length d \<le> j" for j
    using that b1(4) [of j] b2(4) [of j] by (auto simp: HEADER_SIZE_def)
  ultimately show thesis
    using that b1(1,2) b2(1,2) by simp
qed

end
