(* ===== verification/Pipe_Ring.thy ===== *)
theory Pipe_Ring
  imports Byte_Codec
begin

text \<open>
  The in-memory pipe of \<^verbatim>\<open>kernel/src/core/pipe/mod.rs\<close>: a byte ring of twice the
  user capacity with counters \<^verbatim>\<open>head\<close> and \<^verbatim>\<open>tail\<close> that only grow, frames with a
  four-byte length, and a zero length as the mark that the rest of the ring up
  to its end is skipped.  A push runs under the writer mutex and a pop under the
  reader mutex; the model runs each as one step.  The byte counters are natural
  numbers: a 64-bit count of bytes ever sent does not overflow.  The lemmas show
  that the ring refines a queue of messages and that no slice is out of range.
\<close>

section \<open>The ring\<close>

datatype PipeError =
    PipeClosed
  | PipeFull nat nat
  | PipeEmpty
  | PipeClosedEmpty
  | PipeOversized nat nat

text \<open>A call returns, fails, or panics on a slice out of range.\<close>

datatype 'a PipeOutcome = Panic | Err PipeError | Ok 'a

record MemoryPipeBackend =
  pp_ring :: bytes
  pp_ring_cap :: nat
  pp_user_capacity :: nat
  pp_head :: nat
  pp_tail :: nat
  pp_closed :: bool
  pp_push_count :: u64
  pp_pop_count :: u64
  pp_msg_count :: nat
  pp_used_bytes :: nat

definition pipe_new :: "nat \<Rightarrow> MemoryPipeBackend" where
  "pipe_new capacity =
     \<lparr>pp_ring = replicate (capacity * 2) 0, pp_ring_cap = capacity * 2, pp_user_capacity = capacity,
      pp_head = 0, pp_tail = 0, pp_closed = False, pp_push_count = 0, pp_pop_count = 0,
      pp_msg_count = 0, pp_used_bytes = 0\<rparr>"

text \<open>The wrap: the skip mark at the tail, and the tail moved to the start of the ring.\<close>

definition pipe_wrap :: "nat \<Rightarrow> nat \<Rightarrow> nat \<Rightarrow> nat \<Rightarrow> bytes \<Rightarrow> (bytes \<times> nat \<times> nat) option" where
  "pipe_wrap frame_len contiguous tail_idx tail ring =
     (if frame_len > contiguous
      then (case write_slice ring tail_idx (le_bytes 4 0) of
              None \<Rightarrow> None
            | Some ring' \<Rightarrow> Some (ring', tail + contiguous, 0))
      else Some (ring, tail, tail_idx))"

definition pipe_write :: "bytes \<Rightarrow> MemoryPipeBackend \<Rightarrow> nat PipeOutcome \<times> MemoryPipeBackend" where
  "pipe_write data p =
     (let frame_len = HEADER_SIZE + length data;
          tail_idx = pp_tail p mod pp_ring_cap p
      in case pipe_wrap frame_len (pp_ring_cap p - tail_idx) tail_idx (pp_tail p) (pp_ring p) of
           None \<Rightarrow> (Panic, p)
         | Some (ring, current_tail, write_idx) \<Rightarrow>
             (case write_slice ring write_idx (le_bytes 4 (length data)) of
                None \<Rightarrow> (Panic, p)
              | Some ring1 \<Rightarrow>
                  (case write_slice ring1 (write_idx + HEADER_SIZE) data of
                     None \<Rightarrow> (Panic, p)
                   | Some ring2 \<Rightarrow>
                       (Ok (length data),
                        p\<lparr>pp_ring := ring2, pp_tail := current_tail + frame_len,
                          pp_msg_count := pp_msg_count p + 1,
                          pp_used_bytes := pp_used_bytes p + length data,
                          pp_push_count := pp_push_count p + 1\<rparr>))))"

definition pipe_push :: "bytes \<Rightarrow> MemoryPipeBackend \<Rightarrow> nat PipeOutcome \<times> MemoryPipeBackend" where
  "pipe_push data p =
     (let payload_len = length data; cap = pp_user_capacity p; used = pp_used_bytes p
      in if pp_closed p then (Err PipeClosed, p)
         else if payload_len = 0 then (Ok 0, p)
         else if payload_len > cap then (Err (PipeOversized payload_len cap), p)
         else if used + payload_len > cap then (Err (PipeFull used cap), p)
         else let frame_len = HEADER_SIZE + payload_len;
                  tail_idx = pp_tail p mod pp_ring_cap p;
                  contiguous = pp_ring_cap p - tail_idx
              in if frame_len > contiguous \<and> contiguous < HEADER_SIZE then (Err (PipeFull used cap), p)
                 else if (pp_tail p - pp_head p) +
                         (if frame_len > contiguous then contiguous + frame_len else frame_len)
                         > pp_ring_cap p
                 then (Err (PipeFull used cap), p)
                 else pipe_write data p)"

text \<open>
  The loop of \<^verbatim>\<open>pop_position\<close>, with the head it persists on every skip;
  \<^const>\<open>None\<close> is a loop that does not end.
\<close>

partial_function (option) pop_scan ::
  "bytes \<Rightarrow> nat \<Rightarrow> nat \<Rightarrow> bool \<Rightarrow> nat \<Rightarrow> ((nat \<times> nat \<times> nat) PipeOutcome \<times> nat) option" where
  "pop_scan ring cap tail closed head =
     (if head = tail then Some (Err (if closed then PipeClosedEmpty else PipeEmpty), head)
      else case slice ring (head mod cap) HEADER_SIZE of
             None \<Rightarrow> Some (Panic, head)
           | Some hdr \<Rightarrow>
               if le_value hdr = 0 then pop_scan ring cap tail closed (head + (cap - head mod cap))
               else Some (Ok (head mod cap + HEADER_SIZE, le_value hdr, HEADER_SIZE + le_value hdr), head))"

declare pop_scan.simps [code]

definition pop_position ::
  "MemoryPipeBackend \<Rightarrow> ((nat \<times> nat \<times> nat) PipeOutcome \<times> MemoryPipeBackend) option" where
  "pop_position p =
     (case pop_scan (pp_ring p) (pp_ring_cap p) (pp_tail p) (pp_closed p) (pp_head p) of
        None \<Rightarrow> None
      | Some (r, head) \<Rightarrow> Some (r, p\<lparr>pp_head := head\<rparr>))"

definition commit_pop :: "nat \<Rightarrow> nat \<Rightarrow> MemoryPipeBackend \<Rightarrow> MemoryPipeBackend" where
  "commit_pop total_advance payload_len p =
     p\<lparr>pp_head := pp_head p + total_advance, pp_msg_count := pp_msg_count p - 1,
       pp_used_bytes := pp_used_bytes p - payload_len, pp_pop_count := pp_pop_count p + 1\<rparr>"

definition pipe_pop :: "MemoryPipeBackend \<Rightarrow> (bytes PipeOutcome \<times> MemoryPipeBackend) option" where
  "pipe_pop p =
     (case pop_position p of
        None \<Rightarrow> None
      | Some (Panic, p') \<Rightarrow> Some (Panic, p')
      | Some (Err e, p') \<Rightarrow> Some (Err e, p')
      | Some (Ok (payload_start, payload_len, total_advance), p') \<Rightarrow>
          (case slice (pp_ring p') payload_start payload_len of
             None \<Rightarrow> Some (Panic, p')
           | Some data \<Rightarrow> Some (Ok data, commit_pop total_advance payload_len p')))"

definition pipe_close :: "MemoryPipeBackend \<Rightarrow> MemoryPipeBackend" where
  "pipe_close p = p\<lparr>pp_closed := True\<rparr>"

definition pipe_is_closed :: "MemoryPipeBackend \<Rightarrow> bool" where
  "pipe_is_closed p = pp_closed p"

definition pipe_is_empty :: "MemoryPipeBackend \<Rightarrow> bool" where
  "pipe_is_empty p \<longleftrightarrow> pp_msg_count p = 0"

definition pipe_is_full :: "MemoryPipeBackend \<Rightarrow> bool" where
  "pipe_is_full p \<longleftrightarrow> pp_used_bytes p \<ge> pp_user_capacity p"

definition pipe_size :: "MemoryPipeBackend \<Rightarrow> nat" where
  "pipe_size p = pp_used_bytes p"

section \<open>The frames between head and tail\<close>

text \<open>
  The messages a reader finds from position \<^term>\<open>h\<close> to position \<^term>\<open>t\<close>;
  positions count bytes ever written and are taken modulo the ring.
\<close>

inductive frames :: "bytes \<Rightarrow> nat \<Rightarrow> nat \<Rightarrow> nat \<Rightarrow> bytes list \<Rightarrow> bool" for buf cap where
  no_frame: "frames buf cap t t []"
| next_frame: "frame_at buf (h mod cap) d \<Longrightarrow> d \<noteq> [] \<Longrightarrow> length d < 256 ^ 4 \<Longrightarrow>
    frames buf cap (h + (HEADER_SIZE + length d)) t ms \<Longrightarrow> frames buf cap h t (d # ms)"
| skip_mark: "slice buf (h mod cap) HEADER_SIZE = Some (le_bytes 4 0) \<Longrightarrow>
    frames buf cap (h + (cap - h mod cap)) t ms \<Longrightarrow> frames buf cap h t ms"

lemma frames_le: "frames buf cap h t ms \<Longrightarrow> h \<le> t"
  by (induction rule: frames.induct) auto

lemma frames_append:
  "frames buf cap h t ms \<Longrightarrow> frames buf cap t t' ms' \<Longrightarrow> frames buf cap h t' (ms @ ms')"
  by (induction rule: frames.induct) (auto intro: frames.intros)

lemma mod_shift: "h mod cap + i < cap \<Longrightarrow> (h + i) mod cap = h mod (cap :: nat) + i"
  by (metis mod_add_left_eq mod_less)

lemma ring_agree:
  assumes "h mod cap + n \<le> cap" and "h + n \<le> t" and "h mod cap \<le> j" and "j < h mod cap + n"
    and "\<And>q. h \<le> q \<Longrightarrow> q < t \<Longrightarrow> buf' ! (q mod cap) = buf ! (q mod cap)"
  shows "buf' ! j = buf ! j"
proof -
  let ?i = "j - h mod cap"
  have "(h + ?i) mod cap = j"
    using mod_shift [of h cap ?i] assms(1,3,4) by simp
  moreover have "h + ?i < t"
    using assms(2-4) by linarith
  ultimately show ?thesis
    using assms(5) [of "h + ?i"] by simp
qed

lemma frames_cong:
  assumes "frames buf cap h t ms" and "length buf = cap" and "length buf' = cap"
    and "\<And>q. h \<le> q \<Longrightarrow> q < t \<Longrightarrow> buf' ! (q mod cap) = buf ! (q mod cap)"
  shows "frames buf' cap h t ms"
  using assms
proof (induction rule: frames.induct)
  case (no_frame t)
  show ?case by (rule frames.no_frame)
next
  case (next_frame h d t ms)
  have bound: "h mod cap + (HEADER_SIZE + length d) \<le> cap"
    using frame_at_bound [OF next_frame.hyps(1)] next_frame.prems(1) by simp
  have le: "h + (HEADER_SIZE + length d) \<le> t"
    using next_frame.hyps(4) by (rule frames_le)
  have "buf' ! j = buf ! j" if "h mod cap \<le> j" "j < h mod cap + HEADER_SIZE + length d" for j
    using that next_frame.prems(3) by (intro ring_agree [OF bound le, of j buf' buf]) (simp_all add: add.assoc)
  then have "frame_at buf' (h mod cap) d"
    using frame_at_cong [OF next_frame.hyps(1)] next_frame.prems(1,2) by simp
  moreover have "frames buf' cap (h + (HEADER_SIZE + length d)) t ms"
    using next_frame.IH next_frame.prems by simp
  ultimately show ?case
    using next_frame.hyps(2,3) by (blast intro: frames.next_frame)
next
  case (skip_mark h t ms)
  have bound: "h mod cap + HEADER_SIZE \<le> cap"
    using skip_mark.hyps(1) skip_mark.prems(1) by (simp add: slice_Some_iff)
  have le: "h + (cap - h mod cap) \<le> t"
    using skip_mark.hyps(2) by (rule frames_le)
  then have le': "h + HEADER_SIZE \<le> t"
    using bound by linarith
  have "buf' ! j = buf ! j" if "h mod cap \<le> j" "j < h mod cap + HEADER_SIZE" for j
    using that skip_mark.prems(3) by (intro ring_agree [OF bound le', of j buf' buf]) simp_all
  then have "slice buf' (h mod cap) HEADER_SIZE = Some (le_bytes 4 0)"
    using slice_cong [OF skip_mark.hyps(1)] skip_mark.prems(1,2) by simp
  moreover have "frames buf' cap (h + (cap - h mod cap)) t ms"
    using skip_mark.IH skip_mark.prems by simp
  ultimately show ?case
    by (rule frames.skip_mark)
qed

text \<open>The scan ends, on the first frame or on the tail.\<close>

definition scan_result :: "bytes \<Rightarrow> nat \<Rightarrow> bool \<Rightarrow> nat \<Rightarrow> bytes list \<Rightarrow> (nat \<times> nat \<times> nat) PipeOutcome" where
  "scan_result buf cap closed h ms =
     (case ms of
        [] \<Rightarrow> Err (if closed then PipeClosedEmpty else PipeEmpty)
      | d # _ \<Rightarrow> Ok (h mod cap + HEADER_SIZE, length d, HEADER_SIZE + length d))"

lemma pop_scan_frames:
  assumes "frames buf cap h t ms" and "length buf = cap"
  shows "\<exists>h'. pop_scan buf cap t closed h = Some (scan_result buf cap closed h' ms, h') \<and>
    h \<le> h' \<and> h' \<le> t \<and>
    (case ms of [] \<Rightarrow> h' = t
     | d # ms' \<Rightarrow> frame_at buf (h' mod cap) d \<and> d \<noteq> [] \<and> frames buf cap (h' + (HEADER_SIZE + length d)) t ms')"
  using assms
proof (induction rule: frames.induct)
  case (no_frame t)
  then show ?case by (subst pop_scan.simps) (simp add: scan_result_def)
next
  case (next_frame h d t ms)
  have "h \<noteq> t" "h \<le> t"
    using frames_le [OF next_frame.hyps(4)] by (simp_all add: HEADER_SIZE_def)
  moreover have "slice buf (h mod cap) HEADER_SIZE = Some (le_bytes 4 (length d))"
    using next_frame.hyps(1) by (simp add: frame_at_def)
  ultimately show ?case
    using next_frame.hyps by (subst pop_scan.simps) (simp add: scan_result_def)
next
  case (skip_mark h t ms)
  have bound: "h mod cap + HEADER_SIZE \<le> cap"
    using skip_mark.hyps(1) skip_mark.prems by (simp add: slice_Some_iff)
  have "h \<noteq> t" "h \<le> t"
    using frames_le [OF skip_mark.hyps(2)] bound by (auto simp: HEADER_SIZE_def)
  then have "pop_scan buf cap t closed h = pop_scan buf cap t closed (h + (cap - h mod cap))"
    using skip_mark.hyps(1) by (subst pop_scan.simps) simp
  moreover obtain h' where "pop_scan buf cap t closed (h + (cap - h mod cap)) = Some (scan_result buf cap closed h' ms, h')"
    "h + (cap - h mod cap) \<le> h'" "h' \<le> t"
    "case ms of [] \<Rightarrow> h' = t
     | d # ms' \<Rightarrow> frame_at buf (h' mod cap) d \<and> d \<noteq> [] \<and> frames buf cap (h' + (HEADER_SIZE + length d)) t ms'"
    using skip_mark.IH [OF skip_mark.prems] by blast
  ultimately show ?case
    by (intro exI [of _ h']) simp
qed

section \<open>The pipe represents a queue\<close>

definition pipe_rep :: "MemoryPipeBackend \<Rightarrow> bytes list \<Rightarrow> bool" where
  "pipe_rep p ms \<longleftrightarrow>
     length (pp_ring p) = pp_ring_cap p \<and> pp_ring_cap p = pp_user_capacity p * 2 \<and>
     pp_user_capacity p < 256 ^ 4 \<and> pp_tail p \<le> pp_head p + pp_ring_cap p \<and>
     frames (pp_ring p) (pp_ring_cap p) (pp_head p) (pp_tail p) ms \<and>
     pp_msg_count p = length ms \<and> pp_used_bytes p = length (concat ms) \<and>
     pp_used_bytes p \<le> pp_user_capacity p"

lemma pipe_rep_new: "capacity < 256 ^ 4 \<Longrightarrow> pipe_rep (pipe_new capacity) []"
  by (simp add: pipe_rep_def pipe_new_def frames.no_frame)

lemma pipe_rep_close: "pipe_rep p ms \<Longrightarrow> pipe_rep (pipe_close p) ms"
  by (auto simp: pipe_rep_def pipe_close_def)

lemma pipe_pop_rep:
  assumes "pipe_rep p ms"
  shows "\<exists>p'. pipe_pop p =
      Some (case ms of [] \<Rightarrow> Err (if pp_closed p then PipeClosedEmpty else PipeEmpty) | d # _ \<Rightarrow> Ok d, p') \<and>
    pipe_rep p' (tl ms) \<and> pp_closed p' = pp_closed p"
proof -
  let ?buf = "pp_ring p" and ?cap = "pp_ring_cap p" and ?t = "pp_tail p"
  have fr: "frames ?buf ?cap (pp_head p) ?t ms" and len: "length ?buf = ?cap"
    using assms by (auto simp: pipe_rep_def)
  obtain h' where h': "pop_scan ?buf ?cap ?t (pp_closed p) (pp_head p) =
      Some (scan_result ?buf ?cap (pp_closed p) h' ms, h')" "pp_head p \<le> h'" "h' \<le> ?t"
    and at: "case ms of [] \<Rightarrow> h' = ?t
     | d # ms' \<Rightarrow> frame_at ?buf (h' mod ?cap) d \<and> d \<noteq> [] \<and> frames ?buf ?cap (h' + (HEADER_SIZE + length d)) ?t ms'"
    using pop_scan_frames [OF fr len] by blast
  show ?thesis
  proof (cases ms)
    case Nil
    then show ?thesis
      using assms h' at
      by (auto simp: pipe_pop_def pop_position_def scan_result_def pipe_rep_def intro: frames.no_frame)
  next
    case (Cons d ms')
    then have fr_d: "slice ?buf (h' mod ?cap + HEADER_SIZE) (length d) = Some d"
      using at by (simp add: frame_at_def)
    let ?p = "commit_pop (HEADER_SIZE + length d) (length d) (p\<lparr>pp_head := h'\<rparr>)"
    have "pipe_pop p = Some (Ok d, ?p)"
      using h' Cons fr_d by (simp add: pipe_pop_def pop_position_def scan_result_def)
    moreover have "pipe_rep ?p ms'"
      using assms h' at Cons by (auto simp: pipe_rep_def commit_pop_def)
    ultimately show ?thesis
      using Cons by (simp add: commit_pop_def)
  qed
qed

text \<open>Positions less than a ring apart have different indices.\<close>

lemma mod_distinct:
  assumes "q < w" and "w < q + (cap :: nat)"
  shows "q mod cap \<noteq> w mod cap"
proof
  assume "q mod cap = w mod cap"
  then have "cap dvd w - q"
    using mod_eq_dvd_iff_nat [of q w cap] assms(1) by simp
  then show False
    using assms by (auto dest!: dvd_imp_le)
qed

lemma mod_round_up: "0 < cap \<Longrightarrow> (t + (cap - t mod cap)) mod cap = (0 :: nat)"
proof -
  assume "0 < cap"
  then have "t + (cap - t mod cap) = cap * (t div cap) + cap"
    using mult_div_mod_eq [of cap t] mod_less_divisor [of cap t] by linarith
  then show ?thesis by simp
qed

text \<open>A write of at most the free space leaves the bytes between head and tail alone.\<close>

lemma ring_disjoint:
  assumes "h \<le> q" and "q < t" and "t + n \<le> h + cap" and "t mod cap + n \<le> (cap :: nat)"
  shows "q mod cap < t mod cap \<or> t mod cap + n \<le> q mod cap"
proof (rule ccontr)
  assume "\<not> (q mod cap < t mod cap \<or> t mod cap + n \<le> q mod cap)"
  then have j: "t mod cap \<le> q mod cap" "q mod cap < t mod cap + n"
    by auto
  let ?w = "t + (q mod cap - t mod cap)"
  have "?w mod cap = q mod cap"
    using mod_shift [of t cap "q mod cap - t mod cap"] j assms(4) by simp
  moreover have "q < ?w" "?w < q + cap"
    using assms j by linarith+
  ultimately show False
    using mod_distinct by metis
qed

lemma frames_single:
  assumes "frame_at buf (t mod cap) d" and "d \<noteq> []" and "length d < 256 ^ 4"
  shows "frames buf cap t (t + (HEADER_SIZE + length d)) [d]"
  using assms by (rule frames.next_frame) (rule frames.no_frame)

lemma pipe_write_fits:
  assumes "frames ring cap head tail ms" and "length ring = cap"
    and "data \<noteq> []" and "length data < 256 ^ 4"
    and "tail mod cap + (HEADER_SIZE + length data) \<le> cap"
    and "tail + (HEADER_SIZE + length data) \<le> head + cap"
  shows "\<exists>b1 b2. write_slice ring (tail mod cap) (le_bytes 4 (length data)) = Some b1 \<and>
    write_slice b1 (tail mod cap + HEADER_SIZE) data = Some b2 \<and> length b2 = cap \<and>
    frames b2 cap head (tail + (HEADER_SIZE + length data)) (ms @ [data])"
proof -
  have "tail mod cap + HEADER_SIZE + length data \<le> length ring"
    using assms(2,5) by simp
  then obtain b1 b2 where b: "write_slice ring (tail mod cap) (le_bytes 4 (length data)) = Some b1"
    "write_slice b1 (tail mod cap + HEADER_SIZE) data = Some b2" "length b2 = length ring"
    "frame_at b2 (tail mod cap) data"
    and keep: "\<And>j. j < tail mod cap \<or> tail mod cap + HEADER_SIZE + length data \<le> j \<Longrightarrow> b2 ! j = ring ! j"
    by (rule write_frame) blast
  have "b2 ! (q mod cap) = ring ! (q mod cap)" if "head \<le> q" "q < tail" for q
    using ring_disjoint [OF that assms(6,5)] by (intro keep) (simp add: add.assoc)
  then have "frames b2 cap head tail ms"
    using frames_cong [OF assms(1,2)] b(3) assms(2) by simp
  then have "frames b2 cap head (tail + (HEADER_SIZE + length data)) (ms @ [data])"
    using frames_single [OF b(4) assms(3,4)] by (rule frames_append)
  then show ?thesis
    using b(1-3) assms(2) by auto
qed

lemma pipe_write_wraps:
  assumes "frames ring cap head tail ms" and "length ring = cap"
    and "tail mod cap + HEADER_SIZE \<le> cap" and "tail + (cap - tail mod cap) \<le> head + cap"
  shows "\<exists>b. write_slice ring (tail mod cap) (le_bytes 4 0) = Some b \<and> length b = cap \<and>
    frames b cap head (tail + (cap - tail mod cap)) ms \<and> (tail + (cap - tail mod cap)) mod cap = 0"
proof -
  have "tail mod cap + length (le_bytes 4 0) \<le> length ring"
    using assms(2,3) by (simp add: HEADER_SIZE_def)
  then obtain b where b: "write_slice ring (tail mod cap) (le_bytes 4 0) = Some b" "length b = length ring"
    "\<And>i. i < 4 \<Longrightarrow> b ! (tail mod cap + i) = le_bytes 4 0 ! i"
    "\<And>j. j < tail mod cap \<or> tail mod cap + 4 \<le> j \<Longrightarrow> b ! j = ring ! j"
    by (rule write_slice_Some) auto
  have fits: "tail + HEADER_SIZE \<le> head + cap"
    using assms(3,4) by linarith
  have "b ! (q mod cap) = ring ! (q mod cap)" if "head \<le> q" "q < tail" for q
    using ring_disjoint [OF that fits assms(3)] by (intro b(4)) (simp add: HEADER_SIZE_def)
  then have "frames b cap head tail ms"
    using frames_cong [OF assms(1,2)] b(2) assms(2) by simp
  moreover have "tail mod cap + HEADER_SIZE \<le> length b"
    unfolding b(2) assms(2) by (rule assms(3))
  then have "slice b (tail mod cap) HEADER_SIZE = Some (le_bytes 4 0)"
    unfolding slice_Some_iff HEADER_SIZE_def by (intro conjI allI impI length_le_bytes b(3) [symmetric])
  then have "frames b cap tail (tail + (cap - tail mod cap)) []"
    by (rule frames.skip_mark) (rule frames.no_frame)
  ultimately have "frames b cap head (tail + (cap - tail mod cap)) (ms @ [])"
    by (rule frames_append)
  moreover have "0 < cap"
    using assms(3) by (simp add: HEADER_SIZE_def)
  ultimately show ?thesis
    using b(1,2) assms(2) mod_round_up by auto
qed

lemma pipe_write_step:
  assumes rep: "pipe_rep p ms" and "data \<noteq> []" and cap: "pp_used_bytes p + length data \<le> pp_user_capacity p"
    and wrap: "pipe_wrap (HEADER_SIZE + length data) (pp_ring_cap p - pp_tail p mod pp_ring_cap p)
      (pp_tail p mod pp_ring_cap p) (pp_tail p) (pp_ring p) = Some (r, t, t mod pp_ring_cap p)"
    and fr: "frames r (pp_ring_cap p) (pp_head p) t ms" "length r = pp_ring_cap p"
    and s: "t mod pp_ring_cap p + (HEADER_SIZE + length data) \<le> pp_ring_cap p"
      "t + (HEADER_SIZE + length data) \<le> pp_head p + pp_ring_cap p"
  shows "\<exists>p'. pipe_write data p = (Ok (length data), p') \<and> pipe_rep p' (ms @ [data]) \<and> pp_closed p' = pp_closed p"
proof -
  have "length data < 256 ^ 4"
    using rep cap by (simp add: pipe_rep_def)
  from pipe_write_fits [OF fr \<open>data \<noteq> []\<close> this s] obtain b1 b2 where
    b: "write_slice r (t mod pp_ring_cap p) (le_bytes 4 (length data)) = Some b1"
    "write_slice b1 (t mod pp_ring_cap p + HEADER_SIZE) data = Some b2"
    and b2: "length b2 = pp_ring_cap p"
    "frames b2 (pp_ring_cap p) (pp_head p) (t + (HEADER_SIZE + length data)) (ms @ [data])"
    by auto
  let ?p = "p\<lparr>pp_ring := b2, pp_tail := t + (HEADER_SIZE + length data), pp_msg_count := pp_msg_count p + 1,
    pp_used_bytes := pp_used_bytes p + length data, pp_push_count := pp_push_count p + 1\<rparr>"
  have "pipe_write data p = (Ok (length data), ?p)"
    by (simp add: pipe_write_def Let_def wrap b)
  moreover have "pipe_rep ?p (ms @ [data])"
    using rep cap b2 s(2) by (simp add: pipe_rep_def)
  ultimately show ?thesis by simp
qed

lemma pipe_write_rep:
  fixes p data
  defines "contiguous \<equiv> pp_ring_cap p - pp_tail p mod pp_ring_cap p" and "frame_len \<equiv> HEADER_SIZE + length data"
  assumes rep: "pipe_rep p ms" and ne: "data \<noteq> []" and cap: "pp_used_bytes p + length data \<le> pp_user_capacity p"
    and "\<not> (frame_len > contiguous \<and> contiguous < HEADER_SIZE)"
    and space: "(pp_tail p - pp_head p) + (if frame_len > contiguous then contiguous + frame_len else frame_len)
      \<le> pp_ring_cap p"
  shows "\<exists>p'. pipe_write data p = (Ok (length data), p') \<and> pipe_rep p' (ms @ [data]) \<and> pp_closed p' = pp_closed p"
proof -
  let ?cap = "pp_ring_cap p" and ?head = "pp_head p" and ?tail = "pp_tail p"
  have fr: "frames (pp_ring p) ?cap ?head ?tail ms" and len: "length (pp_ring p) = ?cap"
    using rep by (auto simp: pipe_rep_def)
  have "0 < frame_len"
    by (simp add: frame_len_def HEADER_SIZE_def)
  then have pos: "?tail mod ?cap < ?cap"
    using space by (intro mod_less_divisor) (auto split: if_splits)
  have order: "?head \<le> ?tail"
    using fr by (rule frames_le)
  show ?thesis
  proof (cases "frame_len > contiguous")
    case False
    show ?thesis
    proof (rule pipe_write_step [OF rep ne cap _ fr len])
      show "pipe_wrap (HEADER_SIZE + length data) (?cap - ?tail mod ?cap) (?tail mod ?cap) ?tail (pp_ring p) =
        Some (pp_ring p, ?tail, ?tail mod ?cap)"
        using False by (simp add: pipe_wrap_def frame_len_def contiguous_def)
      show "?tail mod ?cap + (HEADER_SIZE + length data) \<le> ?cap"
        using False pos by (simp add: frame_len_def contiguous_def)
      show "?tail + (HEADER_SIZE + length data) \<le> ?head + ?cap"
        using False space order by (simp add: frame_len_def)
    qed
  next
    case True
    then have t: "?tail mod ?cap + HEADER_SIZE \<le> ?cap" and n: "?tail + contiguous + frame_len \<le> ?head + ?cap"
      using assms(6) space order pos by (auto simp: contiguous_def)
    then have "?tail + (?cap - ?tail mod ?cap) \<le> ?head + ?cap"
      by (simp add: contiguous_def)
    from pipe_write_wraps [OF fr len t this] obtain b where
      b: "write_slice (pp_ring p) (?tail mod ?cap) (le_bytes 4 0) = Some b"
      and fr': "frames b ?cap ?head (?tail + contiguous) ms" "length b = ?cap"
      and zero: "(?tail + contiguous) mod ?cap = 0"
      unfolding contiguous_def by auto
    show ?thesis
    proof (rule pipe_write_step [OF rep ne cap _ fr'])
      show "pipe_wrap (HEADER_SIZE + length data) (?cap - ?tail mod ?cap) (?tail mod ?cap) ?tail (pp_ring p) =
        Some (b, ?tail + contiguous, (?tail + contiguous) mod ?cap)"
        using True b zero by (simp add: pipe_wrap_def frame_len_def contiguous_def)
      show "(?tail + contiguous) mod ?cap + (HEADER_SIZE + length data) \<le> ?cap"
        using zero True space by (simp add: frame_len_def)
      show "?tail + contiguous + (HEADER_SIZE + length data) \<le> ?head + ?cap"
        using n by (simp add: frame_len_def)
    qed
  qed
qed

lemma pipe_push_rep:
  assumes "pipe_rep p ms"
  shows "(\<exists>p'. pipe_push data p = (Ok (length data), p') \<and> \<not> pp_closed p \<and>
      pipe_rep p' (if data = [] then ms else ms @ [data])) \<or>
    (\<exists>e. pipe_push data p = (Err e, p))"
proof (cases "pp_closed p \<or> data = [] \<or> pp_used_bytes p + length data > pp_user_capacity p")
  case True
  then show ?thesis
    using assms by (auto simp: pipe_push_def Let_def)
next
  case False
  let ?contiguous = "pp_ring_cap p - pp_tail p mod pp_ring_cap p" and ?frame_len = "HEADER_SIZE + length data"
  let ?stuck = "?frame_len > ?contiguous \<and> ?contiguous < HEADER_SIZE"
  let ?need = "if ?frame_len > ?contiguous then ?contiguous + ?frame_len else ?frame_len"
  have push: "pipe_push data p =
      (if ?stuck \<or> (pp_tail p - pp_head p) + ?need > pp_ring_cap p
       then (Err (PipeFull (pp_used_bytes p) (pp_user_capacity p)), p) else pipe_write data p)"
    using False by (simp add: pipe_push_def Let_def del: add_diff_assoc)
  show ?thesis
  proof (cases "?stuck \<or> (pp_tail p - pp_head p) + ?need > pp_ring_cap p")
    case True
    then show ?thesis using push by simp
  next
    case ok: False
    then have "\<exists>p'. pipe_write data p = (Ok (length data), p') \<and> pipe_rep p' (ms @ [data]) \<and> pp_closed p' = pp_closed p"
      using False by (intro pipe_write_rep [OF assms]) auto
    moreover have "pipe_push data p = pipe_write data p"
      using push ok by simp
    ultimately show ?thesis
      using False by auto
  qed
qed

section \<open>First in, first out\<close>

text \<open>
  A channel: a send that is accepted or refused, a receive that may find nothing,
  and a close.  A run records what was accepted and what was received.
\<close>

datatype 'm ChannelOp = Send 'm | Receive | Shut

fun channel_run ::
  "('m \<Rightarrow> 's \<Rightarrow> bool \<times> 's) \<Rightarrow> ('s \<Rightarrow> 'm option \<times> 's) \<Rightarrow> ('s \<Rightarrow> 's) \<Rightarrow> 'm ChannelOp list \<Rightarrow> 's
     \<Rightarrow> 'm list \<times> 'm list \<times> 's" where
  "channel_run send receive shut [] s = ([], [], s)"
| "channel_run send receive shut (Send m # ops) s =
     (case send m s of (accepted, s') \<Rightarrow>
        (case channel_run send receive shut ops s' of (sent, received, s'') \<Rightarrow>
           (if accepted then m # sent else sent, received, s'')))"
| "channel_run send receive shut (Receive # ops) s =
     (case receive s of (got, s') \<Rightarrow>
        (case channel_run send receive shut ops s' of (sent, received, s'') \<Rightarrow>
           (sent, case got of None \<Rightarrow> received | Some m \<Rightarrow> m # received, s'')))"
| "channel_run send receive shut (Shut # ops) s = channel_run send receive shut ops (shut s)"

locale fifo_channel =
  fixes rep :: "'s \<Rightarrow> 'm list \<Rightarrow> bool"
    and send :: "'m \<Rightarrow> 's \<Rightarrow> bool \<times> 's"
    and receive :: "'s \<Rightarrow> 'm option \<times> 's"
    and shut :: "'s \<Rightarrow> 's"
  assumes send_rep: "rep s ms \<Longrightarrow> send m s = (accepted, s') \<Longrightarrow> rep s' (if accepted then ms @ [m] else ms)"
    and receive_rep: "rep s ms \<Longrightarrow> receive s = (got, s') \<Longrightarrow>
      got = (case ms of [] \<Rightarrow> None | m # _ \<Rightarrow> Some m) \<and> rep s' (tl ms)"
    and shut_rep: "rep s ms \<Longrightarrow> rep (shut s) ms"
begin

lemma run_in_order:
  assumes "rep s ms" and "channel_run send receive shut ops s = (sent, received, s')"
  shows "\<exists>rest. ms @ sent = received @ rest \<and> rep s' rest"
  using assms
proof (induction ops arbitrary: s ms sent received)
  case Nil
  then show ?case by auto
next
  case (Cons op ops)
  show ?case
  proof (cases op)
    case (Send m)
    obtain accepted s1 where s1: "send m s = (accepted, s1)" by (cases "send m s")
    obtain sent1 where run: "channel_run send receive shut ops s1 = (sent1, received, s')"
      "sent = (if accepted then m # sent1 else sent1)"
      using Cons.prems(2) Send s1 by (auto split: prod.splits)
    from Cons.IH [OF send_rep [OF Cons.prems(1) s1] run(1)] run(2) show ?thesis
      by (auto split: if_splits)
  next
    case Receive
    obtain got s1 where s1: "receive s = (got, s1)" by (cases "receive s")
    obtain received1 where run: "channel_run send receive shut ops s1 = (sent, received1, s')"
      "received = (case got of None \<Rightarrow> received1 | Some m \<Rightarrow> m # received1)"
      using Cons.prems(2) Receive s1 by (auto split: prod.splits)
    have "got = (case ms of [] \<Rightarrow> None | m # _ \<Rightarrow> Some m)" and rep: "rep s1 (tl ms)"
      using receive_rep [OF Cons.prems(1) s1] by auto
    with Cons.IH [OF rep run(1)] run(2) show ?thesis
      by (cases ms) auto
  next
    case Shut
    with Cons.IH [OF shut_rep [OF Cons.prems(1)]] Cons.prems(2) show ?thesis
      by simp
  qed
qed

end

text \<open>
  The pipe as a channel.  A message of length zero is acknowledged and not
  queued; a pop that does not end would be a receive without a result.
\<close>

definition pipe_send :: "bytes \<Rightarrow> MemoryPipeBackend \<Rightarrow> bool \<times> MemoryPipeBackend" where
  "pipe_send m p = (case pipe_push m p of (Ok n, p') \<Rightarrow> (n > 0, p') | (_, p') \<Rightarrow> (False, p'))"

definition pipe_receive :: "MemoryPipeBackend \<Rightarrow> bytes option \<times> MemoryPipeBackend" where
  "pipe_receive p = (case pipe_pop p of Some (Ok m, p') \<Rightarrow> (Some m, p') | Some (_, p') \<Rightarrow> (None, p') | None \<Rightarrow> (None, p))"

interpretation pipe: fifo_channel pipe_rep pipe_send pipe_receive pipe_close
proof
  fix s ms m accepted s'
  assume "pipe_rep s ms" and "pipe_send m s = (accepted, s')"
  then show "pipe_rep s' (if accepted then ms @ [m] else ms)"
    using pipe_push_rep [of s ms m] by (auto simp: pipe_send_def split: if_splits)
next
  fix s ms got s'
  assume "pipe_rep s ms" and "pipe_receive s = (got, s')"
  then show "got = (case ms of [] \<Rightarrow> None | m # _ \<Rightarrow> Some m) \<and> pipe_rep s' (tl ms)"
    using pipe_pop_rep [of s ms] by (auto simp: pipe_receive_def split: list.splits)
next
  fix s ms
  show "pipe_rep s ms \<Longrightarrow> pipe_rep (pipe_close s) ms"
    by (rule pipe_rep_close)
qed

lemma pipe_rep_counts:
  "pipe_rep p ms \<Longrightarrow> pp_msg_count p = length ms \<and> pp_used_bytes p = length (concat ms) \<and>
     length (concat ms) \<le> pp_user_capacity p"
  by (simp add: pipe_rep_def)

section \<open>Properties\<close>

text \<open>
  In every sequence of pushes, pops and closes on a new pipe, the messages
  popped are the first of the messages accepted, in the same order, none lost,
  repeated or altered; what is left is counted by the message and byte counters
  and stays within the capacity.
\<close>

theorem pipe_first_in_first_out:
  assumes "capacity < 256 ^ 4"
    and "channel_run pipe_send pipe_receive pipe_close ops (pipe_new capacity) = (sent, received, p)"
  shows "\<exists>rest. sent = received @ rest \<and> pp_msg_count p = length rest \<and>
    pp_used_bytes p = length (concat rest) \<and> length (concat rest) \<le> pp_user_capacity p"
proof -
  obtain rest where "[] @ sent = received @ rest" "pipe_rep p rest"
    using pipe.run_in_order [OF pipe_rep_new [OF assms(1)] assms(2)] by blast
  then show ?thesis
    using pipe_rep_counts by auto
qed

theorem pipe_first_in_first_out_witness:
  "\<exists>rest. [[1, 2], [3], [4 :: u8]] = [[1, 2], [3]] @ rest \<and> length rest = 1"
proof -
  let ?run = "channel_run pipe_send pipe_receive pipe_close
    [Send [1, 2], Send [3], Receive, Send [4], Receive] (pipe_new 10)"
  have c: "fst ?run = [[1, 2], [3], [4]]" "fst (snd ?run) = [[1, 2], [3]]"
    "pp_msg_count (snd (snd ?run)) = 1"
    by code_simp+
  have "?run = (fst ?run, fst (snd ?run), snd (snd ?run))"
    by simp
  from pipe_first_in_first_out [OF _ this] c show ?thesis
    by auto
qed

text \<open>
  C25.  On every state that represents a queue a push and a pop return, and never
  with a panic: a push either fails and changes nothing, or returns the length
  of the message and queues it behind the others; a pop returns the first
  message and removes it, and on an empty queue reports that it is empty, or
  closed and empty.
\<close>

theorem pipe_refines_queue:
  assumes "pipe_rep p ms"
  shows "((\<exists>p'. pipe_push data p = (Ok (length data), p') \<and> \<not> pp_closed p \<and>
        pipe_rep p' (if data = [] then ms else ms @ [data])) \<or>
      (\<exists>e. pipe_push data p = (Err e, p))) \<and>
    (\<exists>p'. pipe_pop p =
        Some (case ms of [] \<Rightarrow> Err (if pp_closed p then PipeClosedEmpty else PipeEmpty) | d # _ \<Rightarrow> Ok d, p') \<and>
      pipe_rep p' (tl ms) \<and> pp_closed p' = pp_closed p)"
  using pipe_push_rep [OF assms] pipe_pop_rep [OF assms] by blast

theorem pipe_refines_queue_witness:
  "\<exists>p'. pipe_push [7] (pipe_new 8) = (Ok 1, p') \<and> pipe_rep p' [[7]]"
proof -
  have "pipe_rep (pipe_new 8) []"
    by (rule pipe_rep_new) simp
  from pipe_refines_queue [OF this, of "[7]"] show ?thesis
  proof
    have "fst (pipe_push [7] (pipe_new 8)) = Ok 1"
      by code_simp
    then show ?thesis
      if "(\<exists>p'. pipe_push [7] (pipe_new 8) = (Ok (length [7]), p') \<and> \<not> pp_closed (pipe_new 8) \<and>
          pipe_rep p' (if [7] = [] then [] else [] @ [[7]])) \<or> (\<exists>e. pipe_push [7] (pipe_new 8) = (Err e, pipe_new 8))"
      using that by auto
  qed
qed

definition stuck_pipe :: MemoryPipeBackend where
  "stuck_pipe = snd (snd (channel_run pipe_send pipe_receive pipe_close
     [Send [1, 2, 3, 4, 5], Receive, Send [1, 2, 3, 4, 5], Receive] (pipe_new 10)))"

text \<open>
  C26.  A pipe can stop accepting data for good: with capacity ten, after two
  messages of five bytes were pushed and popped, the pipe is empty, and every
  push of a message is refused as full or oversized while a pop finds nothing,
  neither changing the state.
\<close>

theorem pipe_stuck_when_empty:
  "pipe_is_empty stuck_pipe \<and> pipe_pop stuck_pipe = Some (Err PipeEmpty, stuck_pipe) \<and>
   pipe_push (x # data) stuck_pipe \<in>
     {(Err (PipeFull 0 10), stuck_pipe), (Err (PipeOversized (length data + 1) 10), stuck_pipe)}"
proof -
  have f: "pp_msg_count stuck_pipe = 0" "pp_closed stuck_pipe = False" "pp_user_capacity stuck_pipe = 10"
    "pp_used_bytes stuck_pipe = 0" "pp_tail stuck_pipe = 18" "pp_head stuck_pipe = 18" "pp_ring_cap stuck_pipe = 20"
    by code_simp+
  have "pipe_pop stuck_pipe = Some (Err PipeEmpty, stuck_pipe)"
    unfolding pipe_pop_def pop_position_def by (subst pop_scan.simps) (simp add: f)
  moreover have "pipe_push (x # data) stuck_pipe \<in>
     {(Err (PipeFull 0 10), stuck_pipe), (Err (PipeOversized (length data + 1) 10), stuck_pipe)}"
    by (simp add: pipe_push_def Let_def f HEADER_SIZE_def)
  ultimately show ?thesis
    using f by (simp add: pipe_is_empty_def)
qed

end
