(* ===== verification/Stream_Buffer.thy ===== *)
theory Stream_Buffer
  imports Byte_Codec
begin

text \<open>
  The in-memory stream of \<^verbatim>\<open>kernel/src/core/stream/mod.rs\<close>: a linear buffer of
  frames with a tail that only grows, read by byte offset, and the key prefix of
  the durable streams of \<^verbatim>\<open>stream/wal.rs\<close>.  The lemmas show that the buffer is the
  sequence of the messages appended, that a reader that follows the offsets sees
  them in order, and that an append changes no read that had succeeded.
\<close>

section \<open>The buffer\<close>

datatype StreamError =
    StreamClosed
  | StreamFull nat nat
  | StreamEmpty
  | StreamClosedEmpty
  | StreamOversized nat nat
  | InvalidOffset nat nat
  | StreamTruncated nat nat
  | ReadFailed string
  | NotReplicated string

text \<open>A call returns, fails, or panics on a slice out of range.\<close>

datatype 'a StreamOutcome = SPanic | SErr StreamError | SOk 'a

record MemoryStreamBackend =
  sb_buf :: bytes
  sb_capacity :: nat
  sb_tail :: nat
  sb_closed :: bool
  sb_push_count :: u64
  sb_msg_count :: nat
  sb_last_append_ms :: int

definition stream_new :: "nat \<Rightarrow> MemoryStreamBackend" where
  "stream_new capacity =
     \<lparr>sb_buf = replicate capacity 0, sb_capacity = capacity, sb_tail = 0, sb_closed = False,
      sb_push_count = 0, sb_msg_count = 0, sb_last_append_ms = 0\<rparr>"

definition stamp_now_monotonic :: "int \<Rightarrow> int \<Rightarrow> int" where
  "stamp_now_monotonic now_ms target = max target now_ms"

definition last_append_ms :: "MemoryStreamBackend \<Rightarrow> int option" where
  "last_append_ms s = (if sb_last_append_ms s = 0 then None else Some (sb_last_append_ms s))"

definition stream_push ::
  "int \<Rightarrow> bytes \<Rightarrow> MemoryStreamBackend \<Rightarrow> nat StreamOutcome \<times> MemoryStreamBackend" where
  "stream_push now_ms data s =
     (let payload_len = length data; tail = sb_tail s
      in if sb_closed s then (SErr StreamClosed, s)
         else if payload_len = 0 then (SOk tail, s)
         else if payload_len > sb_capacity s then (SErr (StreamOversized payload_len (sb_capacity s)), s)
         else let frame_len = HEADER_SIZE + payload_len
              in if tail + frame_len > sb_capacity s then (SErr (StreamFull tail (sb_capacity s)), s)
                 else case write_slice (sb_buf s) tail (le_bytes 4 payload_len) of
                        None \<Rightarrow> (SPanic, s)
                      | Some buf1 \<Rightarrow>
                          (case write_slice buf1 (tail + HEADER_SIZE) data of
                             None \<Rightarrow> (SPanic, s)
                           | Some buf2 \<Rightarrow>
                               (SOk tail,
                                s\<lparr>sb_buf := buf2, sb_tail := tail + frame_len,
                                  sb_msg_count := sb_msg_count s + 1,
                                  sb_push_count := sb_push_count s + 1,
                                  sb_last_append_ms := stamp_now_monotonic now_ms (sb_last_append_ms s)\<rparr>)))"

definition read_at_position :: "nat \<Rightarrow> MemoryStreamBackend \<Rightarrow> (nat \<times> nat \<times> nat) StreamOutcome" where
  "read_at_position byte_offset s =
     (let tail = sb_tail s
      in if byte_offset \<ge> tail then SErr (if sb_closed s then StreamClosedEmpty else StreamEmpty)
         else if byte_offset + HEADER_SIZE > tail then SErr (InvalidOffset byte_offset tail)
         else case slice (sb_buf s) byte_offset HEADER_SIZE of
                None \<Rightarrow> SPanic
              | Some hdr \<Rightarrow>
                  let payload_len = le_value hdr; payload_start = byte_offset + HEADER_SIZE;
                      next_offset = payload_start + payload_len
                  in if next_offset > tail then SErr (InvalidOffset byte_offset tail)
                     else SOk (payload_start, payload_len, next_offset))"

definition read_at :: "nat \<Rightarrow> MemoryStreamBackend \<Rightarrow> (bytes \<times> nat) StreamOutcome" where
  "read_at byte_offset s =
     (case read_at_position byte_offset s of
        SPanic \<Rightarrow> SPanic
      | SErr e \<Rightarrow> SErr e
      | SOk (payload_start, payload_len, next_offset) \<Rightarrow>
          (case slice (sb_buf s) payload_start payload_len of
             None \<Rightarrow> SPanic
           | Some data \<Rightarrow> SOk (data, next_offset)))"

fun read_batch :: "nat \<Rightarrow> nat \<Rightarrow> MemoryStreamBackend \<Rightarrow> (bytes list \<times> nat) StreamOutcome" where
  "read_batch off 0 s = SOk ([], off)"
| "read_batch off (Suc count) s =
     (case read_at off s of
        SOk (data, next_off) \<Rightarrow>
          (case read_batch next_off count s of
             SOk (rest, last_off) \<Rightarrow> SOk (data # rest, last_off)
           | failed \<Rightarrow> failed)
      | SErr StreamEmpty \<Rightarrow> SOk ([], off)
      | SErr StreamClosedEmpty \<Rightarrow> SOk ([], off)
      | SErr e \<Rightarrow> SErr e
      | SPanic \<Rightarrow> SPanic)"

definition stream_close :: "MemoryStreamBackend \<Rightarrow> MemoryStreamBackend" where
  "stream_close s = s\<lparr>sb_closed := True\<rparr>"

definition tail_offset :: "MemoryStreamBackend \<Rightarrow> nat" where
  "tail_offset s = sb_tail s"

section \<open>Keys of durable streams\<close>

definition WAL_STREAM_KEY_PREFIX :: string where
  "WAL_STREAM_KEY_PREFIX = ''/__wal_stream__/''"

definition wal_stream_prefix :: "string \<Rightarrow> string" where
  "wal_stream_prefix stream_id = WAL_STREAM_KEY_PREFIX @ stream_id @ ''/''"

definition watch_path_from_wal_stream_key :: "string \<Rightarrow> string option" where
  "watch_path_from_wal_stream_key key =
     (case strip_prefix WAL_STREAM_KEY_PREFIX key of
        None \<Rightarrow> None
      | Some rest \<Rightarrow>
          (case rfind (CHR ''/'') rest of
             None \<Rightarrow> None
           | Some i \<Rightarrow> if take i rest = [] then None else Some (take i rest)))"

section \<open>The buffer is the sequence of its messages\<close>

text \<open>The offset of the message with index \<^term>\<open>k\<close>.\<close>

definition offset_of :: "bytes list \<Rightarrow> nat \<Rightarrow> nat" where
  "offset_of ms k = length (concat (take k ms)) + HEADER_SIZE * length (take k ms)"

definition stream_rep :: "MemoryStreamBackend \<Rightarrow> bytes list \<Rightarrow> bool" where
  "stream_rep s ms \<longleftrightarrow>
     length (sb_buf s) = sb_capacity s \<and> sb_capacity s < 256 ^ 4 \<and> sb_tail s \<le> sb_capacity s \<and>
     sb_tail s = offset_of ms (length ms) \<and> sb_msg_count s = length ms \<and>
     (\<forall>k < length ms. ms ! k \<noteq> [] \<and> frame_at (sb_buf s) (offset_of ms k) (ms ! k))"

lemma offset_of_Suc: "k < length ms \<Longrightarrow> offset_of ms (Suc k) = offset_of ms k + HEADER_SIZE + length (ms ! k)"
  by (simp add: offset_of_def take_Suc_conv_app_nth algebra_simps)

lemma offset_of_append: "k \<le> length ms \<Longrightarrow> offset_of (ms @ ns) k = offset_of ms k"
  by (simp add: offset_of_def)

lemma offset_of_snoc: "offset_of (ms @ [m]) (Suc (length ms)) = offset_of ms (length ms) + HEADER_SIZE + length m"
  by (simp add: offset_of_def algebra_simps)

lemma offset_of_mono: "j \<le> k \<Longrightarrow> k \<le> length ms \<Longrightarrow> offset_of ms j \<le> offset_of ms k"
proof (induction k rule: nat_induct)
  case (Suc k)
  then show ?case
    by (cases "j = Suc k") (auto simp: offset_of_Suc)
qed simp

lemma offset_of_lt: "k < length ms \<Longrightarrow> offset_of ms k + HEADER_SIZE + length (ms ! k) \<le> offset_of ms (length ms)"
  using offset_of_mono [of "Suc k" "length ms" ms] by (simp add: offset_of_Suc)

lemma stream_rep_new: "capacity < 256 ^ 4 \<Longrightarrow> stream_rep (stream_new capacity) []"
  by (simp add: stream_rep_def stream_new_def offset_of_def)

lemma stream_rep_close: "stream_rep s ms \<Longrightarrow> stream_rep (stream_close s) ms"
  by (simp add: stream_rep_def stream_close_def)

lemma stream_push_writes:
  assumes rep: "stream_rep s ms" and "\<not> sb_closed s" and "data \<noteq> []"
    and fits: "sb_tail s + HEADER_SIZE + length data \<le> sb_capacity s"
  obtains buf where "stream_push now_ms data s = (SOk (sb_tail s),
      s\<lparr>sb_buf := buf, sb_tail := sb_tail s + (HEADER_SIZE + length data), sb_msg_count := sb_msg_count s + 1,
        sb_push_count := sb_push_count s + 1, sb_last_append_ms := max (sb_last_append_ms s) now_ms\<rparr>)"
    and "length buf = length (sb_buf s)" and "frame_at buf (sb_tail s) data"
    and "\<And>j. j < sb_tail s \<Longrightarrow> buf ! j = sb_buf s ! j"
proof -
  have "sb_tail s + HEADER_SIZE + length data \<le> length (sb_buf s)"
    using rep fits by (simp add: stream_rep_def)
  then obtain b1 b2 where b: "write_slice (sb_buf s) (sb_tail s) (le_bytes 4 (length data)) = Some b1"
    "write_slice b1 (sb_tail s + HEADER_SIZE) data = Some b2" "length b2 = length (sb_buf s)"
    "frame_at b2 (sb_tail s) data"
    "\<And>j. j < sb_tail s \<or> sb_tail s + HEADER_SIZE + length data \<le> j \<Longrightarrow> b2 ! j = sb_buf s ! j"
    by (rule write_frame) blast
  show thesis
  proof (rule that [of b2])
    show "stream_push now_ms data s = (SOk (sb_tail s),
      s\<lparr>sb_buf := b2, sb_tail := sb_tail s + (HEADER_SIZE + length data), sb_msg_count := sb_msg_count s + 1,
        sb_push_count := sb_push_count s + 1, sb_last_append_ms := max (sb_last_append_ms s) now_ms\<rparr>)"
      using assms(2-4) b(1,2) by (simp add: stream_push_def Let_def stamp_now_monotonic_def)
  qed (use b(3-5) in auto)
qed

lemma stream_push_rep:
  assumes rep: "stream_rep s ms"
  shows "(\<exists>s'. stream_push now_ms data s = (SOk (sb_tail s), s') \<and> \<not> sb_closed s \<and>
      stream_rep s' (if data = [] then ms else ms @ [data]) \<and>
      (\<forall>j < sb_tail s. sb_buf s' ! j = sb_buf s ! j) \<and> sb_tail s \<le> sb_tail s' \<and>
      sb_last_append_ms s \<le> sb_last_append_ms s') \<or>
    (\<exists>e. stream_push now_ms data s = (SErr e, s))"
proof (cases "sb_closed s \<or> data = [] \<or> sb_tail s + HEADER_SIZE + length data > sb_capacity s")
  case True
  then show ?thesis
    using rep by (auto simp: stream_push_def Let_def)
next
  case False
  then have c: "\<not> sb_closed s" "data \<noteq> []" "sb_tail s + HEADER_SIZE + length data \<le> sb_capacity s"
    by (auto simp: not_less)
  obtain buf where push: "stream_push now_ms data s = (SOk (sb_tail s),
      s\<lparr>sb_buf := buf, sb_tail := sb_tail s + (HEADER_SIZE + length data), sb_msg_count := sb_msg_count s + 1,
        sb_push_count := sb_push_count s + 1, sb_last_append_ms := max (sb_last_append_ms s) now_ms\<rparr>)"
    and len: "length buf = length (sb_buf s)" and new: "frame_at buf (sb_tail s) data"
    and keep: "\<And>j. j < sb_tail s \<Longrightarrow> buf ! j = sb_buf s ! j"
    by (rule stream_push_writes [OF rep c]) blast
  have tail: "sb_tail s = offset_of ms (length ms)"
    using rep by (simp add: stream_rep_def)
  have old: "ms ! k \<noteq> []" "frame_at (sb_buf s) (offset_of ms k) (ms ! k)" if "k < length ms" for k
    using rep that unfolding stream_rep_def by blast+
  have kept: "frame_at buf (offset_of ms k) (ms ! k)" if "k < length ms" for k
  proof (rule frame_at_cong [OF old(2) [OF that] len])
    show "buf ! j = sb_buf s ! j" if "j < offset_of ms k + HEADER_SIZE + length (ms ! k)" for j
      using offset_of_lt [OF \<open>k < length ms\<close>] that tail by (intro keep) simp
  qed
  have frames: "(ms @ [data]) ! k \<noteq> [] \<and> frame_at buf (offset_of (ms @ [data]) k) ((ms @ [data]) ! k)"
    if "k < length (ms @ [data])" for k
  proof (cases "k = length ms")
    case True
    then show ?thesis
      using new tail c(2) by (simp add: offset_of_append)
  next
    case False
    then have "k < length ms"
      using that by simp
    then show ?thesis
      using kept old(1) by (simp add: offset_of_append nth_append)
  qed
  have "stream_rep (s\<lparr>sb_buf := buf, sb_tail := sb_tail s + (HEADER_SIZE + length data),
      sb_msg_count := sb_msg_count s + 1, sb_push_count := sb_push_count s + 1,
      sb_last_append_ms := max (sb_last_append_ms s) now_ms\<rparr>) (ms @ [data])"
    unfolding stream_rep_def
  proof (intro conjI)
    show "\<forall>k < length (ms @ [data]). (ms @ [data]) ! k \<noteq> [] \<and>
        frame_at (sb_buf (s\<lparr>sb_buf := buf, sb_tail := sb_tail s + (HEADER_SIZE + length data),
          sb_msg_count := sb_msg_count s + 1, sb_push_count := sb_push_count s + 1,
          sb_last_append_ms := max (sb_last_append_ms s) now_ms\<rparr>)) (offset_of (ms @ [data]) k) ((ms @ [data]) ! k)"
      using frames by simp
  qed (use rep len tail c offset_of_snoc [of ms data] in \<open>simp_all add: stream_rep_def\<close>)
  then show ?thesis
    using push keep c by auto
qed

lemma read_at_message:
  assumes "stream_rep s ms" and "k < length ms"
  shows "read_at (offset_of ms k) s = SOk (ms ! k, offset_of ms (Suc k))"
proof -
  have f: "frame_at (sb_buf s) (offset_of ms k) (ms ! k)" and tail: "sb_tail s = offset_of ms (length ms)"
    using assms by (auto simp: stream_rep_def)
  have "length (ms ! k) < 256 ^ 4"
    using frame_at_bound [OF f] assms(1) by (simp add: stream_rep_def)
  then show ?thesis
    using f tail offset_of_lt [OF assms(2)] offset_of_Suc [OF assms(2)]
    by (simp add: read_at_def read_at_position_def Let_def frame_at_def HEADER_SIZE_def)
qed

lemma read_at_end:
  assumes "stream_rep s ms"
  shows "read_at (offset_of ms (length ms)) s = SErr (if sb_closed s then StreamClosedEmpty else StreamEmpty)"
  using assms by (simp add: read_at_def read_at_position_def stream_rep_def Let_def)

lemma read_batch_messages:
  assumes "stream_rep s ms" and "k \<le> length ms"
  shows "read_batch (offset_of ms k) count s =
    SOk (take count (drop k ms), offset_of ms (k + length (take count (drop k ms))))"
  using assms(2)
proof (induction count arbitrary: k)
  case (Suc count)
  show ?case
  proof (cases "k = length ms")
    case True
    then show ?thesis
      using read_at_end [OF assms(1)] by simp
  next
    case False
    then have k: "k < length ms"
      using Suc.prems by simp
    then show ?thesis
      using read_at_message [OF assms(1) k] Suc.IH [of "Suc k"]
      by (simp add: Cons_nth_drop_Suc [symmetric])
  qed
qed simp

lemma read_at_stable:
  assumes "read_at off s = SOk r" and "sb_tail s \<le> sb_tail s'" and "length (sb_buf s') = length (sb_buf s)"
    and "\<And>j. j < sb_tail s \<Longrightarrow> sb_buf s' ! j = sb_buf s ! j"
  shows "read_at off s' = SOk r"
proof -
  obtain hdr data where lo: "off < sb_tail s" "off + HEADER_SIZE + le_value hdr \<le> sb_tail s"
    and h: "slice (sb_buf s) off HEADER_SIZE = Some hdr"
    and d: "slice (sb_buf s) (off + HEADER_SIZE) (le_value hdr) = Some data"
    and r: "r = (data, off + HEADER_SIZE + le_value hdr)"
    using assms(1)
    by (auto simp: read_at_def read_at_position_def Let_def not_less split: if_splits option.splits)
  have "slice (sb_buf s') off HEADER_SIZE = Some hdr"
    using slice_cong [OF h assms(3)] assms(4) lo by simp
  moreover have "slice (sb_buf s') (off + HEADER_SIZE) (le_value hdr) = Some data"
    using slice_cong [OF d assms(3)] assms(4) lo by simp
  ultimately show ?thesis
    using lo r assms(2) by (simp add: read_at_def read_at_position_def Let_def)
qed

lemma wal_prefix_round_trip:
  assumes "stream_id \<noteq> []" and "CHR ''/'' \<notin> set seq"
  shows "watch_path_from_wal_stream_key (wal_stream_prefix stream_id @ seq) = Some stream_id"
proof -
  have strip: "strip_prefix WAL_STREAM_KEY_PREFIX (wal_stream_prefix stream_id @ seq) =
      Some (stream_id @ CHR ''/'' # seq)"
    by (simp add: wal_stream_prefix_def strip_prefix_Some)
  then show ?thesis
    using assms by (simp add: watch_path_from_wal_stream_key_def)
qed

section \<open>Runs\<close>

datatype StreamOp = StreamPush int bytes | StreamShut

text \<open>A run gives the messages that were appended and the stream at the end.\<close>

fun stream_run :: "StreamOp list \<Rightarrow> MemoryStreamBackend \<Rightarrow> bytes list \<times> MemoryStreamBackend" where
  "stream_run [] s = ([], s)"
| "stream_run (StreamPush now_ms data # ops) s =
     (case stream_push now_ms data s of (r, s') \<Rightarrow>
        (case stream_run ops s' of (appended, s'') \<Rightarrow>
           (case r of SOk _ \<Rightarrow> if data = [] then appended else data # appended | _ \<Rightarrow> appended, s'')))"
| "stream_run (StreamShut # ops) s = stream_run ops (stream_close s)"

lemma stream_run_rep:
  assumes "stream_rep s ms" and "stream_run ops s = (appended, s')"
  shows "stream_rep s' (ms @ appended)"
  using assms
proof (induction ops arbitrary: s ms appended)
  case (Cons op ops)
  show ?case
  proof (cases op)
    case (StreamPush now_ms data)
    obtain r s1 where push: "stream_push now_ms data s = (r, s1)"
      by (cases "stream_push now_ms data s")
    obtain rest where run: "stream_run ops s1 = (rest, s')"
      and app: "appended = (case r of SOk _ \<Rightarrow> if data = [] then rest else data # rest | _ \<Rightarrow> rest)"
      using Cons.prems(2) StreamPush push by (auto split: prod.splits)
    from stream_push_rep [OF Cons.prems(1), of now_ms data] push
    have "stream_rep s1 (ms @ (case r of SOk _ \<Rightarrow> if data = [] then [] else [data] | _ \<Rightarrow> []))"
      using Cons.prems(1) by auto
    from Cons.IH [OF this run] app show ?thesis
      by (auto split: StreamOutcome.splits if_splits)
  next
    case StreamShut
    then show ?thesis
      using Cons.IH [OF stream_rep_close [OF Cons.prems(1)]] Cons.prems(2) by simp
  qed
qed simp

section \<open>Properties\<close>

text \<open>
  C27.  After any sequence of pushes and closes on a new stream, a batch read
  from the offset of any message returns the messages appended from that one on,
  in order and unaltered, up to the number asked for, and the offset of the next
  message; the tail is the offset after the last.
\<close>

theorem stream_reads_appended:
  assumes "capacity < 256 ^ 4" and "stream_run ops (stream_new capacity) = (appended, s)"
    and "k \<le> length appended"
  shows "read_batch (offset_of appended k) count s =
      SOk (take count (drop k appended), offset_of appended (k + length (take count (drop k appended)))) \<and>
    sb_tail s = offset_of appended (length appended)"
proof -
  have "stream_rep s ([] @ appended)"
    using stream_run_rep [OF stream_rep_new [OF assms(1)] assms(2)] .
  then show ?thesis
    using read_batch_messages assms(3) by (auto simp: stream_rep_def)
qed

theorem stream_reads_appended_witness:
  "read_batch 6 5 (snd (stream_run [StreamPush 1 [1, 2], StreamPush 2 [3], StreamShut, StreamPush 3 [4]] (stream_new 16))) =
     SOk ([[3]], 11)"
proof -
  let ?run = "stream_run [StreamPush 1 [1, 2], StreamPush 2 [3], StreamShut, StreamPush 3 [4]] (stream_new 16)"
  have "fst ?run = [[1, 2], [3]]"
    by code_simp
  then have "?run = ([[1, 2], [3]], snd ?run)"
    by (metis prod.collapse)
  from stream_reads_appended [OF _ this, of 1 5] show ?thesis
    by (simp add: offset_of_def HEADER_SIZE_def)
qed

text \<open>
  Appending never changes what a reader has been given: a read that
  succeeded at any offset gives the same result after a push, the message just
  pushed is read back at the offset the push returned, and the time of the last
  append does not go back.
\<close>

theorem stream_append_preserves_reads:
  assumes "stream_rep s ms" and "stream_push now_ms data s = (r, s')"
  shows "(read_at off s = SOk x \<longrightarrow> read_at off s' = SOk x) \<and>
    (\<forall>at. r = SOk at \<and> data \<noteq> [] \<longrightarrow> read_at at s' = SOk (data, sb_tail s')) \<and>
    sb_last_append_ms s \<le> sb_last_append_ms s'"
proof -
  consider (ok) "r = SOk (sb_tail s)" "stream_rep s' (if data = [] then ms else ms @ [data])"
      "\<forall>j < sb_tail s. sb_buf s' ! j = sb_buf s ! j" "sb_tail s \<le> sb_tail s'"
      "sb_last_append_ms s \<le> sb_last_append_ms s'"
    | (failed) e where "r = SErr e" "s' = s"
    using stream_push_rep [OF assms(1), of now_ms data] assms(2) by auto
  then show ?thesis
  proof cases
    case ok
    have cap: "sb_capacity s' = sb_capacity s"
      using assms(2) by (auto simp: stream_push_def Let_def split: if_splits option.splits)
    have len: "length (sb_buf s') = length (sb_buf s)"
      using assms(1) ok(2) cap by (auto simp: stream_rep_def)
    have "read_at (sb_tail s) s' = SOk (data, sb_tail s')" if "data \<noteq> []"
    proof -
      have rep: "stream_rep s' (ms @ [data])"
        using ok(2) that by simp
      have "sb_tail s = offset_of (ms @ [data]) (length ms)"
        using assms(1) by (simp add: stream_rep_def offset_of_append)
      then show ?thesis
        using read_at_message [OF rep, of "length ms"] rep by (simp add: stream_rep_def)
    qed
    then show ?thesis
      using read_at_stable [OF _ ok(4) len] ok by auto
  next
    case failed
    then show ?thesis by simp
  qed
qed

theorem stream_append_preserves_reads_witness:
  "read_at 0 (snd (stream_push 9 [8] (snd (stream_push 5 [7] (stream_new 16))))) = SOk ([7], 5) \<and>
   sb_last_append_ms (snd (stream_push 9 [8] (snd (stream_push 5 [7] (stream_new 16))))) \<ge> 5"
proof -
  let ?s = "snd (stream_push 5 [7] (stream_new 16))"
  have new: "stream_rep (stream_new 16) []"
    by (rule stream_rep_new) simp
  have "\<exists>ms. stream_rep ?s ms"
    using stream_push_rep [OF new, of 5 "[7]"] new by auto
  then obtain ms where rep: "stream_rep ?s ms" ..
  have "read_at 0 ?s = SOk ([7], 5)" "sb_last_append_ms ?s = 5"
    by code_simp+
  then show ?thesis
    using stream_append_preserves_reads [OF rep, of 9 "[8]" "fst (stream_push 9 [8] ?s)" "snd (stream_push 9 [8] ?s)" 0 "([7], 5)"]
    by simp
qed

end
