(* ===== verification/Replication_Log.thy ===== *)
theory Replication_Log
  imports Nexus_Prelude
begin

text \<open>
  The write-ahead log of eventually consistent writes
  (\<^verbatim>\<open>raft/src/raft/replication_log.rs\<close>).  The log table, the persisted counters
  and the counters in memory are separate fields, so that a restart is the loss
  of the latter.  A table keyed by eight big-endian bytes is an ordered map keyed
  by the number; sequence numbers are natural numbers, as a 64-bit counter of
  appends does not overflow.  An append is its two atomic parts, the allocation
  of a number and the commit of its transaction, so that appends interleave.
\<close>

section \<open>The log\<close>

record ReplicationEntry =
  re_command :: bytes
  re_timestamp :: nat
  re_node_id :: nat

record ReplicationMeta =
  rm_next_seq :: "nat option"
  rm_watermark :: "nat option"
  rm_earliest :: "nat option"

record ReplicationLog =
  rl_log :: "(nat, ReplicationEntry) omap"
  rl_meta :: ReplicationMeta
  rl_next_seq :: nat
  rl_watermark :: nat
  rl_earliest :: nat
  rl_node_id :: nat

definition unwrap_or :: "'a \<Rightarrow> 'a option \<Rightarrow> 'a" where
  "unwrap_or d x = (case x of None \<Rightarrow> d | Some v \<Rightarrow> v)"

lemma unwrap_or_simps [simp]: "unwrap_or d None = d" "unwrap_or d (Some v) = v"
  by (simp_all add: unwrap_or_def)

definition replication_log_new ::
  "(nat, ReplicationEntry) omap \<Rightarrow> ReplicationMeta \<Rightarrow> nat \<Rightarrow> ReplicationLog" where
  "replication_log_new log meta node_id =
     \<lparr>rl_log = log, rl_meta = meta, rl_next_seq = unwrap_or 1 (rm_next_seq meta),
      rl_watermark = unwrap_or 0 (rm_watermark meta), rl_earliest = unwrap_or 1 (rm_earliest meta),
      rl_node_id = node_id\<rparr>"

text \<open>The two parts of an append.\<close>

definition allocate_seq :: "ReplicationLog \<Rightarrow> nat \<times> ReplicationLog" where
  "allocate_seq l = (rl_next_seq l, l\<lparr>rl_next_seq := rl_next_seq l + 1\<rparr>)"

definition commit_entry :: "nat \<Rightarrow> bytes \<Rightarrow> nat \<Rightarrow> ReplicationLog \<Rightarrow> ReplicationLog" where
  "commit_entry seq command_bytes now l =
     (let entry = \<lparr>re_command = command_bytes, re_timestamp = now, re_node_id = rl_node_id l\<rparr>;
          current_persisted = unwrap_or 1 (rm_next_seq (rl_meta l))
      in l\<lparr>rl_log := om_put seq entry (rl_log l),
           rl_meta := (rl_meta l)\<lparr>rm_next_seq := Some (max current_persisted (seq + 1))\<rparr>\<rparr>)"

definition replication_append :: "bytes \<Rightarrow> nat \<Rightarrow> ReplicationLog \<Rightarrow> nat \<times> ReplicationLog" where
  "replication_append command_bytes now l =
     (case allocate_seq l of (seq, l') \<Rightarrow> (seq, commit_entry seq command_bytes now l'))"

definition remove_entry :: "nat \<Rightarrow> ReplicationLog \<Rightarrow> ReplicationLog" where
  "remove_entry seq l = l\<lparr>rl_log := om_del seq (rl_log l)\<rparr>"

datatype TokenStatus = Committed | Pending

definition is_committed :: "nat \<Rightarrow> ReplicationLog \<Rightarrow> TokenStatus option" where
  "is_committed token l =
     (if token = 0 \<or> token \<ge> rl_next_seq l then None
      else Some (if token \<le> rl_watermark l then Committed else Pending))"

definition max_seq :: "ReplicationLog \<Rightarrow> nat" where
  "max_seq l = rl_next_seq l"

definition advance_watermark :: "nat \<Rightarrow> ReplicationLog \<Rightarrow> ReplicationLog" where
  "advance_watermark new_watermark l =
     (if new_watermark > rl_watermark l
      then l\<lparr>rl_watermark := new_watermark, rl_meta := (rl_meta l)\<lparr>rm_watermark := Some new_watermark\<rparr>\<rparr>
      else l)"

definition drain_unreplicated :: "ReplicationLog \<Rightarrow> (nat \<times> ReplicationEntry) list" where
  "drain_unreplicated l =
     (if rl_earliest l \<ge> rl_next_seq l then []
      else filter (\<lambda>(seq, _). rl_earliest l \<le> seq \<and> seq \<le> rl_next_seq l - 1) (rl_log l))"

definition earliest_seq :: "ReplicationLog \<Rightarrow> nat" where
  "earliest_seq l = rl_earliest l"

definition replication_compact :: "nat \<Rightarrow> ReplicationLog \<Rightarrow> nat \<times> ReplicationLog" where
  "replication_compact up_to_seq l =
     (if up_to_seq < rl_earliest l then (0, l)
      else let seqs = [rl_earliest l..<up_to_seq + 1];
               deleted = length (filter (\<lambda>seq. map_of (rl_log l) seq \<noteq> None) seqs)
           in (deleted,
               l\<lparr>rl_log := fold om_del seqs (rl_log l), rl_earliest := up_to_seq + 1,
                 rl_meta := (rl_meta l)\<lparr>rm_earliest := Some (up_to_seq + 1)\<rparr>\<rparr>))"

section \<open>Appenders, the replication task and restarts\<close>

text \<open>
  A system run: the log, the appends in flight (number, command, time), and the
  tokens that were handed to callers, latest last.
\<close>

record ReplicationRun =
  rr_log :: ReplicationLog
  rr_inflight :: "(nat \<times> bytes \<times> nat) set"
  rr_tokens :: "nat list"

inductive replication_step :: "ReplicationRun \<Rightarrow> ReplicationRun \<Rightarrow> bool" where
  allocates: "allocate_seq (rr_log r) = (seq, l) \<Longrightarrow>
    replication_step r (r\<lparr>rr_log := l, rr_inflight := insert (seq, cmd, now) (rr_inflight r)\<rparr>)"
| commits: "(seq, cmd, now) \<in> rr_inflight r \<Longrightarrow>
    replication_step r (r\<lparr>rr_log := commit_entry seq cmd now (rr_log r),
      rr_inflight := rr_inflight r - {(seq, cmd, now)}, rr_tokens := rr_tokens r @ [seq]\<rparr>)"
| fails: "(seq, cmd, now) \<in> rr_inflight r \<Longrightarrow>
    replication_step r (r\<lparr>rr_inflight := rr_inflight r - {(seq, cmd, now)}\<rparr>)"
| advances: "replication_step r (r\<lparr>rr_log := advance_watermark w (rr_log r)\<rparr>)"
| compacts: "replication_step r (r\<lparr>rr_log := snd (replication_compact up_to (rr_log r))\<rparr>)"
| removes: "replication_step r (r\<lparr>rr_log := remove_entry seq (rr_log r)\<rparr>)"
| restarts: "replication_step r
    (r\<lparr>rr_log := replication_log_new (rl_log (rr_log r)) (rl_meta (rr_log r)) (rl_node_id (rr_log r)),
       rr_inflight := {}\<rparr>)"

definition replication_init :: "nat \<Rightarrow> ReplicationRun" where
  "replication_init node_id =
     \<lparr>rr_log = replication_log_new [] \<lparr>rm_next_seq = None, rm_watermark = None, rm_earliest = None\<rparr> node_id,
      rr_inflight = {}, rr_tokens = []\<rparr>"

text \<open>
  Numbers in flight are below the counter in memory, distinct, and not handed
  out; every number handed out and every key of the table is below the persisted
  counter, which the counter in memory never trails; the counters in memory are
  those a restart would read, the next number apart.
\<close>

definition replication_inv :: "ReplicationRun \<Rightarrow> bool" where
  "replication_inv r \<longleftrightarrow>
     (let l = rr_log r; pers = unwrap_or 1 (rm_next_seq (rl_meta l))
      in om_wf (rl_log l) \<and> 1 \<le> pers \<and> pers \<le> rl_next_seq l \<and>
         rl_watermark l = unwrap_or 0 (rm_watermark (rl_meta l)) \<and>
         rl_earliest l = unwrap_or 1 (rm_earliest (rl_meta l)) \<and>
         (\<forall>(seq, e) \<in> set (rl_log l). 1 \<le> seq \<and> seq < pers) \<and>
         distinct (rr_tokens r) \<and> (\<forall>t \<in> set (rr_tokens r). 1 \<le> t \<and> t < pers) \<and>
         (\<forall>(seq, c, n) \<in> rr_inflight r. 1 \<le> seq \<and> seq < rl_next_seq l \<and> seq \<notin> set (rr_tokens r)) \<and>
         inj_on fst (rr_inflight r))"

lemma replication_init_inv: "replication_inv (replication_init node_id)"
  by (simp add: replication_inv_def replication_init_def replication_log_new_def)

lemma commit_entry_inv:
  assumes inv: "replication_inv r" and fl: "(seq, cmd, now) \<in> rr_inflight r"
  shows "replication_inv (r\<lparr>rr_log := commit_entry seq cmd now (rr_log r),
      rr_inflight := rr_inflight r - {(seq, cmd, now)}, rr_tokens := rr_tokens r @ [seq]\<rparr>)"
proof -
  have seq: "1 \<le> seq" "seq < rl_next_seq (rr_log r)" "seq \<notin> set (rr_tokens r)"
    and inj: "inj_on fst (rr_inflight r)" and wf: "om_wf (rl_log (rr_log r))"
    using inv fl by (auto simp: replication_inv_def Let_def)
  have other: "s \<noteq> seq" if "(s, c, n) \<in> rr_inflight r - {(seq, cmd, now)}" for s c n
    using inj_onD [OF inj, of "(s, c, n)" "(seq, cmd, now)"] that fl by auto
  have "inj_on fst (rr_inflight r - {(seq, cmd, now)})"
    using inj by (rule inj_on_diff)
  then show ?thesis
    using inv seq other wf
    by (auto simp: replication_inv_def commit_entry_def Let_def om_set_put less_max_iff_disj)
qed

lemma replication_step_inv:
  assumes "replication_step r r'" and "replication_inv r"
  shows "replication_inv r'"
  using assms
proof cases
  case (allocates seq l cmd now)
  have "inj_on fst (insert (seq, cmd, now) (rr_inflight r))"
    using assms(2) allocates by (auto simp: replication_inv_def Let_def allocate_seq_def inj_on_insert)
  then show ?thesis
    using assms(2) allocates by (auto simp: replication_inv_def Let_def allocate_seq_def)
next
  case (commits seq cmd now)
  then show ?thesis using commit_entry_inv assms(2) by simp
next
  case (fails seq cmd now)
  then show ?thesis
    using assms(2) by (auto simp: replication_inv_def Let_def inj_on_diff)
next
  case (advances w)
  then show ?thesis
    using assms(2) by (auto simp: replication_inv_def Let_def advance_watermark_def)
next
  case (compacts up_to)
  then show ?thesis
    using assms(2)
    by (auto simp: replication_inv_def Let_def replication_compact_def om_dels_set om_dels_wf simp del: upt_Suc)
next
  case (removes seq)
  then show ?thesis
    using assms(2) by (auto simp: replication_inv_def Let_def remove_entry_def om_set_del)
next
  case restarts
  then show ?thesis
    using assms(2) by (auto simp: replication_inv_def Let_def replication_log_new_def)
qed

lemma replication_reach_inv:
  "replication_step\<^sup>*\<^sup>* (replication_init node_id) r \<Longrightarrow> replication_inv r"
  by (induction rule: rtranclp_induct) (auto intro: replication_init_inv replication_step_inv)

lemma replication_step_watermark:
  assumes "replication_step r r'" and "replication_inv r"
  shows "rl_watermark (rr_log r) \<le> rl_watermark (rr_log r') \<and> set (rr_tokens r) \<subseteq> set (rr_tokens r')"
  using assms
  by cases (auto simp: allocate_seq_def commit_entry_def advance_watermark_def replication_compact_def
      remove_entry_def replication_log_new_def replication_inv_def Let_def)

lemma token_known:
  "replication_inv r \<Longrightarrow> t \<in> set (rr_tokens r) \<Longrightarrow>
     is_committed t (rr_log r) = Some (if t \<le> rl_watermark (rr_log r) then Committed else Pending)"
  by (auto simp: replication_inv_def is_committed_def Let_def)

text \<open>A run with one append.\<close>

definition one_append :: ReplicationRun where
  "one_append =
     \<lparr>rr_log = snd (replication_append [9] 5 (rr_log (replication_init 7))), rr_inflight = {}, rr_tokens = [1]\<rparr>"

lemma one_append_reached: "replication_step\<^sup>*\<^sup>* (replication_init 7) one_append"
proof -
  let ?r0 = "replication_init 7"
  let ?r1 = "?r0\<lparr>rr_log := snd (allocate_seq (rr_log ?r0)), rr_inflight := insert (1, [9], 5) (rr_inflight ?r0)\<rparr>"
  let ?r2 = "?r1\<lparr>rr_log := commit_entry 1 [9] 5 (rr_log ?r1), rr_inflight := rr_inflight ?r1 - {(1, [9], 5)},
      rr_tokens := rr_tokens ?r1 @ [1]\<rparr>"
  have "replication_step ?r0 ?r1"
    by (rule replication_step.allocates) (simp add: allocate_seq_def replication_init_def replication_log_new_def)
  moreover have "replication_step ?r1 ?r2"
    by (rule replication_step.commits) simp
  moreover have "?r2 = one_append"
    by (simp add: one_append_def replication_append_def allocate_seq_def replication_init_def replication_log_new_def)
  ultimately show ?thesis
    by (metis converse_rtranclp_into_rtranclp rtranclp.rtrancl_refl)
qed

section \<open>Properties\<close>



text \<open>
  What is drained for replication is exactly the entries of the log that
  were not compacted, in ascending order of their numbers, each number once;
  in particular an entry stays in the drain while it is in the table, whatever
  the watermark.
\<close>

theorem replication_drain_exact:
  assumes "replication_step\<^sup>*\<^sup>* (replication_init node_id) r"
  shows "sorted_wrt (<) (map fst (drain_unreplicated (rr_log r))) \<and>
    set (drain_unreplicated (rr_log r)) = {(seq, e) \<in> set (rl_log (rr_log r)). earliest_seq (rr_log r) \<le> seq}"
proof -
  have inv: "replication_inv r"
    using assms by (rule replication_reach_inv)
  then have below: "seq < rl_next_seq (rr_log r)" if "(seq, e) \<in> set (rl_log (rr_log r))" for seq e
    using that by (fastforce simp: replication_inv_def Let_def)
  have "om_wf (drain_unreplicated (rr_log r))"
    using inv by (simp add: drain_unreplicated_def replication_inv_def Let_def)
  then have "sorted_wrt (<) (map fst (drain_unreplicated (rr_log r)))"
    by (simp add: om_wf_def)
  moreover have "drain_unreplicated (rr_log r) = filter (\<lambda>(seq, _). earliest_seq (rr_log r) \<le> seq) (rl_log (rr_log r))"
  proof (cases "rl_next_seq (rr_log r) \<le> rl_earliest (rr_log r)")
    case True
    then have "filter (\<lambda>(seq, _). rl_earliest (rr_log r) \<le> seq) (rl_log (rr_log r)) = []"
      by (auto simp: filter_empty_conv dest: below)
    then show ?thesis
      using True by (simp add: drain_unreplicated_def earliest_seq_def)
  next
    case False
    have "filter (\<lambda>(seq, _). rl_earliest (rr_log r) \<le> seq \<and> seq \<le> rl_next_seq (rr_log r) - 1) (rl_log (rr_log r)) =
        filter (\<lambda>(seq, _). rl_earliest (rr_log r) \<le> seq) (rl_log (rr_log r))"
      by (rule filter_cong) (auto dest: below)
    then show ?thesis
      using False by (simp add: drain_unreplicated_def earliest_seq_def)
  qed
  ultimately show ?thesis
    by auto
qed

theorem replication_drain_exact_witness:
  "map fst (drain_unreplicated (rr_log one_append)) = [1] \<and>
   (\<exists>e. set (drain_unreplicated (rr_log one_append)) = {(1, e)})"
proof -
  have log: "rl_log (rr_log one_append) = [(1, \<lparr>re_command = [9], re_timestamp = 5, re_node_id = 7\<rparr>)]"
    "earliest_seq (rr_log one_append) = 1"
    by code_simp+
  have "map fst (drain_unreplicated (rr_log one_append)) = [1]"
    by code_simp
  moreover have "set (drain_unreplicated (rr_log one_append)) = {(1, \<lparr>re_command = [9], re_timestamp = 5, re_node_id = 7\<rparr>)}"
    using replication_drain_exact [OF one_append_reached] log by auto
  ultimately show ?thesis by blast
qed

end
