(* ===== verification/Raft_Storage.thy ===== *)
theory Raft_Storage
  imports Nexus_Prelude
begin

text \<open>
  The persistent log behind the consensus library (\<^verbatim>\<open>raft/src/raft/storage.rs\<close>).
  The entries table keyed by eight big-endian bytes is an ordered map keyed by
  the index, and each row of the state table is an optional field.  Entries,
  hard states and snapshots are stored through the library's own serialization,
  which is taken to be faithful; the configuration (type \<^verbatim>\<open>'c\<close>, with its default
  as an argument), the payload of an entry (\<^verbatim>\<open>'d\<close>) and the serialized size of an
  entry are the library's.  The lemmas relate the table to a log, a first index
  and a list.
\<close>

section \<open>Storage\<close>

record 'd Entry =
  en_index :: nat
  en_term :: nat
  en_data :: 'd

record HardState =
  hs_term :: nat
  hs_vote :: nat
  hs_commit :: nat

record 'c Snapshot =
  sn_index :: nat
  sn_term :: nat
  sn_conf_state :: 'c
  sn_data :: bytes

record ('d, 'c) RaftStorage =
  rs_entries :: "(nat, 'd Entry) omap"
  rs_first_index :: "nat option"
  rs_hard_state :: "HardState option"
  rs_conf_state :: "'c option"
  rs_snapshot :: "'c Snapshot option"

datatype StorageError = Compacted | Unavailable | SnapshotTemporarilyUnavailable

definition default_hard_state :: HardState where
  "default_hard_state = \<lparr>hs_term = 0, hs_vote = 0, hs_commit = 0\<rparr>"

definition default_snapshot :: "'c \<Rightarrow> 'c Snapshot" where
  "default_snapshot c0 = \<lparr>sn_index = 0, sn_term = 0, sn_conf_state = c0, sn_data = []\<rparr>"

definition raft_storage_new :: "('d, 'c) RaftStorage \<Rightarrow> ('d, 'c) RaftStorage" where
  "raft_storage_new s = (if rs_first_index s = None then s\<lparr>rs_first_index := Some 1\<rparr> else s)"

definition first_index_impl :: "('d, 'c) RaftStorage \<Rightarrow> nat" where
  "first_index_impl s = (case rs_first_index s of Some i \<Rightarrow> i | None \<Rightarrow> 1)"

definition last_index_impl :: "('d, 'c) RaftStorage \<Rightarrow> nat" where
  "last_index_impl s =
     (if rs_entries s = [] then first_index_impl s - 1 else fst (last (rs_entries s)))"

definition storage_append :: "'d Entry list \<Rightarrow> ('d, 'c) RaftStorage \<Rightarrow> ('d, 'c) RaftStorage" where
  "storage_append es s = s\<lparr>rs_entries := fold (\<lambda>e. om_put (en_index e) e) es (rs_entries s)\<rparr>"

definition set_hard_state :: "HardState \<Rightarrow> ('d, 'c) RaftStorage \<Rightarrow> ('d, 'c) RaftStorage" where
  "set_hard_state hs s = s\<lparr>rs_hard_state := Some hs\<rparr>"

definition set_conf_state :: "'c \<Rightarrow> ('d, 'c) RaftStorage \<Rightarrow> ('d, 'c) RaftStorage" where
  "set_conf_state cs s = s\<lparr>rs_conf_state := Some cs\<rparr>"

definition conf_state :: "'c \<Rightarrow> ('d, 'c) RaftStorage \<Rightarrow> 'c" where
  "conf_state c0 s = (case rs_conf_state s of Some cs \<Rightarrow> cs | None \<Rightarrow> c0)"

text \<open>The hard state a snapshot forces: commit and term at least the snapshot's, the vote kept.\<close>

definition advanced_hard_state :: "'c Snapshot \<Rightarrow> ('d, 'c) RaftStorage \<Rightarrow> HardState" where
  "advanced_hard_state snap s =
     (let hs = (case rs_hard_state s of Some hs \<Rightarrow> hs | None \<Rightarrow> default_hard_state);
          hs1 = (if hs_commit hs < sn_index snap then hs\<lparr>hs_commit := sn_index snap\<rparr> else hs)
      in if hs_term hs1 < sn_term snap then hs1\<lparr>hs_term := sn_term snap\<rparr> else hs1)"

definition store_snapshot :: "'c Snapshot \<Rightarrow> ('d, 'c) RaftStorage \<Rightarrow> ('d, 'c) RaftStorage" where
  "store_snapshot snap s =
     s\<lparr>rs_snapshot := Some snap, rs_hard_state := Some (advanced_hard_state snap s)\<rparr>"

definition apply_snapshot :: "'c Snapshot \<Rightarrow> ('d, 'c) RaftStorage \<Rightarrow> ('d, 'c) RaftStorage" where
  "apply_snapshot snap s =
     s\<lparr>rs_first_index := Some (sn_index snap + 1), rs_snapshot := Some snap,
       rs_conf_state := Some (sn_conf_state snap),
       rs_hard_state := Some (advanced_hard_state snap s), rs_entries := []\<rparr>"

definition storage_compact :: "nat \<Rightarrow> ('d, 'c) RaftStorage \<Rightarrow> ('d, 'c) RaftStorage" where
  "storage_compact compact_index s =
     (let first = first_index_impl s
      in if compact_index \<le> first then s
         else s\<lparr>rs_entries := fold om_del [first..<compact_index] (rs_entries s),
                rs_first_index := Some compact_index\<rparr>)"

definition get_entry :: "nat \<Rightarrow> ('d, 'c) RaftStorage \<Rightarrow> 'd Entry option" where
  "get_entry i s = map_of (rs_entries s) i"

definition initial_state :: "'c \<Rightarrow> ('d, 'c) RaftStorage \<Rightarrow> HardState \<times> 'c" where
  "initial_state c0 s =
     ((case rs_hard_state s of Some hs \<Rightarrow> hs | None \<Rightarrow> default_hard_state), conf_state c0 s)"

text \<open>The loop of \<^verbatim>\<open>Storage::entries\<close> over the indices, with what was collected and its size.\<close>

fun collect_entries ::
  "('d Entry \<Rightarrow> nat) \<Rightarrow> nat \<Rightarrow> ('d, 'c) RaftStorage \<Rightarrow> nat list \<Rightarrow> 'd Entry list \<Rightarrow> nat
     \<Rightarrow> StorageError + 'd Entry list" where
  "collect_entries esize max_size s [] acc sz = Inr acc"
| "collect_entries esize max_size s (i # is) acc sz =
     (case get_entry i s of
        None \<Rightarrow> Inl Unavailable
      | Some e \<Rightarrow>
          if acc \<noteq> [] \<and> sz + esize e > max_size then Inr acc
          else collect_entries esize max_size s is (acc @ [e]) (sz + esize e))"

definition storage_entries ::
  "('d Entry \<Rightarrow> nat) \<Rightarrow> nat \<Rightarrow> nat \<Rightarrow> nat option \<Rightarrow> ('d, 'c) RaftStorage \<Rightarrow> StorageError + 'd Entry list" where
  "storage_entries esize low high max_size s =
     (if low < first_index_impl s then Inl Compacted
      else if high > last_index_impl s + 1 then Inl Unavailable
      else collect_entries esize (case max_size of Some m \<Rightarrow> m | None \<Rightarrow> 2 ^ 64 - 1) s [low..<high] [] 0)"

definition storage_snapshot :: "'c \<Rightarrow> nat \<Rightarrow> ('d, 'c) RaftStorage \<Rightarrow> StorageError + 'c Snapshot" where
  "storage_snapshot c0 request_index s =
     (case rs_snapshot s of
        Some snap \<Rightarrow>
          if sn_index snap < request_index then Inl SnapshotTemporarilyUnavailable else Inr snap
      | None \<Rightarrow>
          if request_index = 0 then Inr (default_snapshot c0) else Inl SnapshotTemporarilyUnavailable)"

definition storage_term :: "'c \<Rightarrow> nat \<Rightarrow> ('d, 'c) RaftStorage \<Rightarrow> StorageError + nat" where
  "storage_term c0 i s =
     (if i < first_index_impl s
      then (case storage_snapshot c0 0 s of
              Inr snap \<Rightarrow> if sn_index snap = i then Inr (sn_term snap) else Inl Compacted
            | Inl _ \<Rightarrow> Inl Compacted)
      else (case get_entry i s of Some e \<Rightarrow> Inr (en_term e) | None \<Rightarrow> Inl Unavailable))"

section \<open>The log it holds\<close>

definition storage_rep :: "('d, 'c) RaftStorage \<Rightarrow> nat \<Rightarrow> 'd Entry list \<Rightarrow> bool" where
  "storage_rep s first log \<longleftrightarrow>
     om_wf (rs_entries s) \<and> first_index_impl s = first \<and> 1 \<le> first \<and>
     (\<forall>k < length log. en_index (log ! k) = first + k) \<and>
     (\<forall>i. map_of (rs_entries s) i = (if first \<le> i \<and> i < first + length log then Some (log ! (i - first)) else None))"

lemma storage_rep_Nil: "storage_rep s first [] \<Longrightarrow> rs_entries s = []"
proof -
  assume "storage_rep s first []"
  then have "map_of (rs_entries s) i = None" for i
    by (simp add: storage_rep_def)
  then have "map_of (rs_entries s) = Map.empty"
    by (rule ext)
  then show ?thesis
    by (simp only: map_of_eq_empty_iff)
qed

lemma storage_rep_first:
  "storage_rep s first log \<Longrightarrow> first_index_impl s = first \<and> 1 \<le> first \<and> om_wf (rs_entries s)"
  unfolding storage_rep_def by (elim conjE, intro conjI)

lemma storage_rep_lookup:
  "storage_rep s first log \<Longrightarrow>
     map_of (rs_entries s) i = (if first \<le> i \<and> i < first + length log then Some (log ! (i - first)) else None)"
  unfolding storage_rep_def by (elim conjE allE)

lemma storage_rep_present:
  "storage_rep s first log \<Longrightarrow> map_of (rs_entries s) i \<noteq> None \<longleftrightarrow> first \<le> i \<and> i < first + length log"
  by (simp add: storage_rep_lookup)

lemma last_index_rep:
  assumes "storage_rep s first log"
  shows "last_index_impl s + 1 = first + length log"
proof (cases "log = []")
  case True
  then have "rs_entries s = []"
    using assms storage_rep_Nil by blast
  then show ?thesis
    using storage_rep_first [OF assms] True by (simp add: last_index_impl_def)
next
  case False
  have wf: "om_wf (rs_entries s)"
    using storage_rep_first [OF assms] by simp
  have ne: "rs_entries s \<noteq> []"
    using False storage_rep_present [OF assms, of first] by auto
  have "fst (last (rs_entries s)) < first + length log"
    using om_last_key(1) [OF wf ne] unfolding storage_rep_present [OF assms] by simp
  moreover have "first + length log - 1 \<le> fst (last (rs_entries s))"
  proof (rule om_last_key(2) [OF wf ne])
    have "0 < length log"
      using False by simp
    then show "map_of (rs_entries s) (first + length log - 1) \<noteq> None"
      unfolding storage_rep_present [OF assms] by linarith
  qed
  ultimately show ?thesis
    using ne by (simp add: last_index_impl_def)
qed

lemma storage_append_rep:
  assumes "storage_rep s first log" and "\<forall>k < length es. en_index (es ! k) = first + length log + k"
  shows "storage_rep (storage_append es s) first (log @ es)"
  using assms
proof (induction es arbitrary: s log)
  case (Cons e es)
  let ?s = "s\<lparr>rs_entries := om_put (en_index e) e (rs_entries s)\<rparr>"
  have e: "en_index e = first + length log"
    using Cons.prems(2) by (metis add.right_neutral length_Cons nth_Cons_0 zero_less_Suc)
  have rep: "storage_rep ?s first (log @ [e])"
    using Cons.prems(1) e by (auto simp: storage_rep_def first_index_impl_def nth_append)
  have "\<forall>k < length es. en_index (es ! k) = first + length (log @ [e]) + k"
    using Cons.prems(2) by force
  from Cons.IH [OF rep this] show ?case
    by (simp add: storage_append_def)
qed (simp add: storage_append_def)

lemma storage_compact_rep:
  assumes "storage_rep s first log" and "first \<le> i" and "i \<le> first + length log"
  shows "storage_rep (storage_compact i s) i (drop (i - first) log)"
  using assms
  by (auto simp: storage_rep_def storage_compact_def first_index_impl_def om_dels_lookup om_dels_wf Let_def)

lemma apply_snapshot_rep: "storage_rep (apply_snapshot snap s) (sn_index snap + 1) []"
  by (simp add: storage_rep_def apply_snapshot_def first_index_impl_def)

lemma collect_entries_prefix:
  assumes "\<forall>i \<in> set idxs. get_entry i s = Some (f i)"
  shows "\<exists>n. collect_entries esize m s idxs acc sz = Inr (acc @ take n (map f idxs)) \<and> n \<le> length idxs \<and>
    (acc = [] \<and> idxs \<noteq> [] \<longrightarrow> 1 \<le> n) \<and>
    (sz + sum_list (map esize (map f idxs)) \<le> m \<longrightarrow> n = length idxs) \<and>
    (1 \<le> n \<and> 2 \<le> length acc + n \<longrightarrow> sz + sum_list (map esize (take n (map f idxs))) \<le> m)"
  using assms
proof (induction idxs arbitrary: acc sz)
  case (Cons i idxs)
  have i: "get_entry i s = Some (f i)"
    using Cons.prems by simp
  show ?case
  proof (cases "acc \<noteq> [] \<and> sz + esize (f i) > m")
    case True
    then show ?thesis
      using i by (intro exI [of _ 0]) auto
  next
    case False
    obtain n where n: "collect_entries esize m s idxs (acc @ [f i]) (sz + esize (f i)) =
        Inr ((acc @ [f i]) @ take n (map f idxs))" "n \<le> length idxs"
      "sz + esize (f i) + sum_list (map esize (map f idxs)) \<le> m \<longrightarrow> n = length idxs"
      "1 \<le> n \<and> 2 \<le> length (acc @ [f i]) + n \<longrightarrow>
        sz + esize (f i) + sum_list (map esize (take n (map f idxs))) \<le> m"
      using Cons.IH [of "acc @ [f i]" "sz + esize (f i)"] Cons.prems by auto
    show ?thesis
    proof (intro exI [of _ "Suc n"] conjI impI)
      show "collect_entries esize m s (i # idxs) acc sz = Inr (acc @ take (Suc n) (map f (i # idxs)))"
        using i False n(1) by auto
      show "sz + sum_list (map esize (take (Suc n) (map f (i # idxs)))) \<le> m"
        if "1 \<le> Suc n \<and> 2 \<le> length acc + Suc n"
        using n(4) that False by (cases n) auto
    qed (use n(2,3) in auto)
  qed
qed simp

lemma collect_from_empty:
  assumes "\<forall>i \<in> set idxs. get_entry i s = Some (f i)"
  obtains n where "collect_entries esize m s idxs [] 0 = Inr (take n (map f idxs))" and "idxs \<noteq> [] \<longrightarrow> 1 \<le> n"
    and "sum_list (map esize (map f idxs)) \<le> m \<longrightarrow> n = length idxs"
    and "2 \<le> n \<longrightarrow> sum_list (map esize (take n (map f idxs))) \<le> m"
proof -
  obtain n where n: "collect_entries esize m s idxs [] 0 = Inr ([] @ take n (map f idxs)) \<and> n \<le> length idxs \<and>
    ([] = ([] :: 'a Entry list) \<and> idxs \<noteq> [] \<longrightarrow> 1 \<le> n) \<and>
    (0 + sum_list (map esize (map f idxs)) \<le> m \<longrightarrow> n = length idxs) \<and>
    (1 \<le> n \<and> 2 \<le> length ([] :: 'a Entry list) + n \<longrightarrow> 0 + sum_list (map esize (take n (map f idxs))) \<le> m)"
    using collect_entries_prefix [of idxs s f esize m "[]" 0, OF assms] by (elim exE)
  show thesis
  proof (rule that [of n])
    show "2 \<le> n \<longrightarrow> sum_list (map esize (take n (map f idxs))) \<le> m"
    proof
      assume "2 \<le> n"
      then have "1 \<le> n \<and> 2 \<le> length ([] :: 'a Entry list) + n"
        by simp
      with n show "sum_list (map esize (take n (map f idxs))) \<le> m"
        by (elim conjE) simp
    qed
  qed (use n in \<open>simp_all\<close>)
qed

lemma log_slice:
  assumes "first \<le> low" and "high \<le> first + length log"
  shows "map (\<lambda>i. log ! (i - first)) [low..<high] = take (high - low) (drop (low - first) log)"
  using assms by (intro nth_equalityI) (auto simp: add.commute)

lemma storage_entries_slice:
  assumes rep: "storage_rep s first log" and low: "first \<le> low" and high: "high \<le> first + length log"
  shows "\<exists>n. storage_entries esize low high max_size s = Inr (take n (take (high - low) (drop (low - first) log))) \<and>
    (low < high \<longrightarrow> 1 \<le> n) \<and>
    (sum_list (map esize (take (high - low) (drop (low - first) log))) \<le> (case max_size of Some m \<Rightarrow> m | None \<Rightarrow> 2 ^ 64 - 1)
      \<longrightarrow> n = high - low) \<and>
    (2 \<le> n \<longrightarrow> sum_list (map esize (take n (take (high - low) (drop (low - first) log))))
      \<le> (case max_size of Some m \<Rightarrow> m | None \<Rightarrow> 2 ^ 64 - 1))"
proof -
  let ?f = "\<lambda>i. log ! (i - first)"
  have "\<forall>i \<in> set [low..<high]. get_entry i s = Some (?f i)"
    using storage_rep_lookup [OF rep] low high by (simp add: get_entry_def)
  from collect_from_empty [OF this]
  obtain n where n: "collect_entries esize (case max_size of Some m \<Rightarrow> m | None \<Rightarrow> 2 ^ 64 - 1) s [low..<high] [] 0 =
      Inr (take n (map ?f [low..<high]))" "[low..<high] \<noteq> [] \<longrightarrow> 1 \<le> n"
    "sum_list (map esize (map ?f [low..<high])) \<le> (case max_size of Some m \<Rightarrow> m | None \<Rightarrow> 2 ^ 64 - 1) \<longrightarrow>
      n = length [low..<high]"
    "2 \<le> n \<longrightarrow> sum_list (map esize (take n (map ?f [low..<high]))) \<le> (case max_size of Some m \<Rightarrow> m | None \<Rightarrow> 2 ^ 64 - 1)" .
  have "storage_entries esize low high max_size s =
      collect_entries esize (case max_size of Some m \<Rightarrow> m | None \<Rightarrow> 2 ^ 64 - 1) s [low..<high] [] 0"
    using storage_rep_first [OF rep] last_index_rep [OF rep] low high by (simp add: storage_entries_def)
  then show ?thesis
    using n unfolding log_slice [OF low high] by (intro exI [of _ n]) (auto simp: not_le)
qed

section \<open>Properties\<close>

text \<open>
  On a storage that holds a log, reading a range of indices fails as
  compacted exactly below the first index, fails as unavailable beyond the last,
  and otherwise returns a prefix of the entries asked for: never empty for a
  range that is not, all of them when they fit the size limit, and within the
  limit when it has more than one entry.
\<close>

theorem storage_entries_exact:
  assumes "storage_rep s first log"
  shows "(storage_entries esize low high max_size s = Inl Compacted \<longleftrightarrow> low < first) \<and>
    (storage_entries esize low high max_size s = Inl Unavailable \<longleftrightarrow> first \<le> low \<and> first + length log < high) \<and>
    (first \<le> low \<and> high \<le> first + length log \<longrightarrow>
      (\<exists>n. storage_entries esize low high max_size s = Inr (take n (take (high - low) (drop (low - first) log))) \<and>
        (low < high \<longrightarrow> 1 \<le> n) \<and>
        (sum_list (map esize (take (high - low) (drop (low - first) log))) \<le> (case max_size of Some m \<Rightarrow> m | None \<Rightarrow> 2 ^ 64 - 1)
          \<longrightarrow> n = high - low) \<and>
        (2 \<le> n \<longrightarrow> sum_list (map esize (take n (take (high - low) (drop (low - first) log))))
          \<le> (case max_size of Some m \<Rightarrow> m | None \<Rightarrow> 2 ^ 64 - 1))))"
proof -
  have f: "first_index_impl s = first" and l: "last_index_impl s + 1 = first + length log"
    using storage_rep_first [OF assms] last_index_rep [OF assms] by auto
  consider "low < first" | "first \<le> low" "first + length log < high" | "first \<le> low" "high \<le> first + length log"
    by linarith
  then show ?thesis
  proof cases
    case 3
    then show ?thesis
      using storage_entries_slice [OF assms 3, of esize max_size] by auto
  qed (use f l in \<open>simp_all add: storage_entries_def\<close>)
qed

definition example_log :: "(unit, unit) RaftStorage" where
  "example_log = storage_append [\<lparr>en_index = 1, en_term = 1, en_data = ()\<rparr>, \<lparr>en_index = 2, en_term = 1, en_data = ()\<rparr>,
      \<lparr>en_index = 3, en_term = 2, en_data = ()\<rparr>]
     (raft_storage_new \<lparr>rs_entries = [], rs_first_index = None, rs_hard_state = None, rs_conf_state = None, rs_snapshot = None\<rparr>)"

lemma example_log_rep:
  "storage_rep example_log 1 [\<lparr>en_index = 1, en_term = 1, en_data = ()\<rparr>, \<lparr>en_index = 2, en_term = 1, en_data = ()\<rparr>,
      \<lparr>en_index = 3, en_term = 2, en_data = ()\<rparr>]"
proof -
  have "storage_rep (raft_storage_new \<lparr>rs_entries = [], rs_first_index = None, rs_hard_state = None, rs_conf_state = None,
      rs_snapshot = None\<rparr> :: (unit, unit) RaftStorage) 1 []"
    by (simp add: storage_rep_def raft_storage_new_def first_index_impl_def)
  from storage_append_rep [OF this, of "[\<lparr>en_index = 1, en_term = 1, en_data = ()\<rparr>, \<lparr>en_index = 2, en_term = 1, en_data = ()\<rparr>,
      \<lparr>en_index = 3, en_term = 2, en_data = ()\<rparr>]"]
  show ?thesis
    by (simp add: example_log_def less_Suc_eq all_conj_distrib)
qed

theorem storage_entries_exact_witness:
  "storage_entries (\<lambda>_. 10) 0 2 None example_log = Inl Compacted \<and>
   storage_entries (\<lambda>_. 10) 2 5 None example_log = Inl Unavailable \<and>
   (\<exists>n \<ge> 1. storage_entries (\<lambda>_. 10) 2 4 (Some 15) example_log =
      Inr (take n [\<lparr>en_index = 2, en_term = 1, en_data = ()\<rparr>, \<lparr>en_index = 3, en_term = 2, en_data = ()\<rparr>]))"
  using storage_entries_exact [OF example_log_rep, of "\<lambda>_. 10" 0 2 None]
    storage_entries_exact [OF example_log_rep, of "\<lambda>_. 10" 2 5 None]
    storage_entries_exact [OF example_log_rep, of "\<lambda>_. 10" 2 4 "Some 15"]
  by auto

text \<open>
  C29.  Appending consecutive entries, compacting, and installing a snapshot are
  the corresponding operations on the log: entries are added at the end, those
  below the new first index are dropped, and the log becomes empty right after
  the snapshot, whose index and term are then the term found before the first
  index.
\<close>

theorem storage_refines_log:
  assumes "storage_rep s first log"
  shows "((\<forall>k < length es. en_index (es ! k) = first + length log + k) \<longrightarrow>
      storage_rep (storage_append es s) first (log @ es)) \<and>
    (first \<le> i \<and> i \<le> first + length log \<longrightarrow> storage_rep (storage_compact i s) i (drop (i - first) log)) \<and>
    storage_rep (apply_snapshot snap s) (sn_index snap + 1) [] \<and>
    last_index_impl (apply_snapshot snap s) = sn_index snap \<and>
    storage_term c0 (sn_index snap) (apply_snapshot snap s) = Inr (sn_term snap)"
proof -
  have "last_index_impl (apply_snapshot snap s) + 1 = sn_index snap + 1"
    using last_index_rep [OF apply_snapshot_rep] by simp
  moreover have "storage_term c0 (sn_index snap) (apply_snapshot snap s) = Inr (sn_term snap)"
    by (simp add: storage_term_def apply_snapshot_def storage_snapshot_def first_index_impl_def)
  ultimately show ?thesis
    using storage_append_rep [OF assms] storage_compact_rep [OF assms] apply_snapshot_rep by auto
qed

theorem storage_refines_log_witness:
  "storage_rep (storage_compact 3 example_log) 3 [\<lparr>en_index = 3, en_term = 2, en_data = ()\<rparr>]"
  using storage_refines_log [OF example_log_rep, of "[]" 3] by (simp add: numeral_3_eq_3)

text \<open>
  A snapshot, stored or installed, leaves a hard state whose commit index
  and term are at least the snapshot's and did not go back, with the vote kept,
  in the same update as the snapshot itself.
\<close>

theorem snapshot_commits:
  assumes "s' \<in> {store_snapshot snap s, apply_snapshot snap s}"
    and "initial_state c0 s = (hs, cs)" and "initial_state c0 s' = (hs', cs')"
  shows "rs_snapshot s' = Some snap \<and> sn_index snap \<le> hs_commit hs' \<and> sn_term snap \<le> hs_term hs' \<and>
    hs_commit hs \<le> hs_commit hs' \<and> hs_term hs \<le> hs_term hs' \<and> hs_vote hs' = hs_vote hs"
  using assms
  by (auto simp: store_snapshot_def apply_snapshot_def initial_state_def advanced_hard_state_def Let_def
      split: option.splits)

theorem snapshot_commits_witness:
  "hs_commit (fst (initial_state () (store_snapshot \<lparr>sn_index = 3, sn_term = 2, sn_conf_state = (), sn_data = []\<rparr> example_log))) \<ge> 3"
proof -
  let ?snap = "\<lparr>sn_index = 3, sn_term = 2, sn_conf_state = (), sn_data = []\<rparr> :: unit Snapshot"
  have "store_snapshot ?snap example_log \<in> {store_snapshot ?snap example_log, apply_snapshot ?snap example_log}"
    by simp
  from snapshot_commits [OF this prod.collapse [symmetric] prod.collapse [symmetric], of "()"]
  show ?thesis by simp
qed


end
