(* ===== verification/Vfs_Router.thy ===== *)
theory Vfs_Router
  imports Contracts
begin

text \<open>
  The mount table and the longest-prefix routing of
  \<^verbatim>\<open>kernel/src/core/vfs_router.rs\<close>.  The table is a map from zone-canonical keys
  to mount entries; backends (\<^verbatim>\<open>'b\<close>) and metastores (\<^verbatim>\<open>'m\<close>) are opaque, and what
  the router asks of them is an argument.  The walk of \<^verbatim>\<open>route_in_zone\<close> is a
  recursive function with its termination proof.  The lemmas show that routing
  picks the longest mount covering a path, that a mount's paths and the keys they
  stand for are inverse to each other, and that the two slots of an entry are
  independent.
\<close>

section \<open>Path helpers\<close>

definition canonicalize_mount_path :: "string \<Rightarrow> string \<Rightarrow> string" where
  "canonicalize_mount_path path zone =
     (let stripped = trim_start_matches (CHR ''/'') path
      in if stripped = [] then ''/'' @ zone else ''/'' @ zone @ ''/'' @ stripped)"

definition canonicalize_into :: "string \<Rightarrow> string \<Rightarrow> string" where
  "canonicalize_into path zone =
     (let stripped = trim_start_matches (CHR ''/'') path
      in ''/'' @ zone @ (if stripped = [] then [] else ''/'' @ stripped))"

definition extract_zone_from_canonical :: "string \<Rightarrow> string \<times> string" where
  "extract_zone_from_canonical canonical =
     (let trimmed = trim_start_matches (CHR ''/'') canonical
      in case split_once (CHR ''/'') trimmed of
           Some (zone, rest) \<Rightarrow> (zone, ''/'' @ rest)
         | None \<Rightarrow> (trimmed, ''/''))"

definition zone_to_global :: "string \<Rightarrow> string \<Rightarrow> string" where
  "zone_to_global mount_point zone_path =
     (if mount_point = [] then zone_path
      else let user_mp = snd (extract_zone_from_canonical mount_point)
           in if user_mp = ''/'' then zone_path else user_mp @ zone_path)"

definition under_mount :: "string \<Rightarrow> string \<Rightarrow> string" where
  "under_mount path mount_point =
     (if path = mount_point then []
      else if mount_point = ''/'' then trim_start_matches (CHR ''/'') path
      else trim_start_matches (CHR ''/'')
             (if length mount_point \<le> length path then drop (length mount_point) path else path))"

definition zone_relative_path :: "string \<Rightarrow> string \<Rightarrow> string option \<Rightarrow> string" where
  "zone_relative_path path mount_point target_subtree =
     (let rest = under_mount path mount_point
      in case target_subtree of
           None \<Rightarrow> rest
         | Some s \<Rightarrow>
             (let subtree = trim_start_matches (CHR ''/'') s
              in if subtree = [] then rest
                 else if rest = [] then subtree else subtree @ ''/'' @ rest))"

definition project_zone_key :: "string \<Rightarrow> string \<Rightarrow> string \<Rightarrow> string option" where
  "project_zone_key mount subtree key =
     (let relative =
            (if subtree = [] \<or> subtree = ''/'' then Some key
             else if key = subtree then Some ''/''
             else case strip_prefix subtree key of
                    None \<Rightarrow> None
                  | Some suff \<Rightarrow> if starts_with suff ''/'' then Some suff else None)
      in case relative of
           None \<Rightarrow> None
         | Some r \<Rightarrow>
             Some (if mount = [] \<or> mount = ''/'' then r else if r = ''/'' then mount else mount @ r))"

section \<open>The mount table\<close>

record ('b, 'm) MountEntry =
  me_backend :: "'b option"
  me_metastore :: "'m option"
  me_is_external :: bool
  me_target_zone_id :: "string option"
  me_target_subtree :: "string option"
  me_is_cas :: bool

definition mount_entry_new :: "('b \<Rightarrow> bool) \<Rightarrow> 'b option \<Rightarrow> ('b, 'm) MountEntry" where
  "mount_entry_new as_cas backend =
     \<lparr>me_backend = backend, me_metastore = None, me_is_external = False, me_target_zone_id = None,
      me_target_subtree = None, me_is_cas = (case backend of Some b \<Rightarrow> as_cas b | None \<Rightarrow> False)\<rparr>"

definition with_target_zone :: "string \<Rightarrow> ('b, 'm) MountEntry \<Rightarrow> ('b, 'm) MountEntry" where
  "with_target_zone z e = e\<lparr>me_target_zone_id := Some z\<rparr>"

definition with_target_subtree :: "string \<Rightarrow> ('b, 'm) MountEntry \<Rightarrow> ('b, 'm) MountEntry" where
  "with_target_subtree s e = e\<lparr>me_target_subtree := (if s = ''/'' \<or> s = [] then None else Some s)\<rparr>"

definition with_is_external :: "bool \<Rightarrow> ('b, 'm) MountEntry \<Rightarrow> ('b, 'm) MountEntry" where
  "with_is_external x e = e\<lparr>me_is_external := x\<rparr>"

type_synonym ('b, 'm) VFSRouter = "(string, ('b, 'm) MountEntry) omap"

definition vfs_router_new :: "('b, 'm) VFSRouter" where
  "vfs_router_new = []"

definition router_add :: "string \<Rightarrow> string \<Rightarrow> ('b, 'm) MountEntry \<Rightarrow> ('b, 'm) VFSRouter \<Rightarrow> ('b, 'm) VFSRouter" where
  "router_add mount_point zone entry t =
     (let canonical = canonicalize_mount_path mount_point zone
      in case map_of t canonical of
           Some old \<Rightarrow> om_put canonical (entry\<lparr>me_metastore := me_metastore old\<rparr>) t
         | None \<Rightarrow> om_put canonical entry t)"

definition add_mount ::
  "('b \<Rightarrow> bool) \<Rightarrow> string \<Rightarrow> string \<Rightarrow> 'b option \<Rightarrow> bool \<Rightarrow> ('b, 'm) VFSRouter \<Rightarrow> ('b, 'm) VFSRouter" where
  "add_mount as_cas mount_point zone backend external t =
     router_add mount_point zone (with_is_external external (mount_entry_new as_cas backend)) t"

definition add_federation_mount ::
  "('b \<Rightarrow> bool) \<Rightarrow> string \<Rightarrow> string \<Rightarrow> 'b option \<Rightarrow> string \<Rightarrow> string \<Rightarrow> bool
     \<Rightarrow> ('b, 'm) VFSRouter \<Rightarrow> ('b, 'm) VFSRouter" where
  "add_federation_mount as_cas mount_point zone backend target_zone target_subtree external t =
     router_add mount_point zone
       (with_target_subtree target_subtree
         (with_target_zone target_zone (with_is_external external (mount_entry_new as_cas backend)))) t"

definition router_remove :: "string \<Rightarrow> string \<Rightarrow> ('b, 'm) VFSRouter \<Rightarrow> bool \<times> ('b, 'm) VFSRouter" where
  "router_remove mount_point zone t =
     (let canonical = canonicalize_mount_path mount_point zone
      in (map_of t canonical \<noteq> None, om_del canonical t))"

definition install_metastore ::
  "('b \<Rightarrow> bool) \<Rightarrow> string \<Rightarrow> 'm \<Rightarrow> ('b, 'm) VFSRouter \<Rightarrow> ('b, 'm) VFSRouter" where
  "install_metastore as_cas canonical_key ms t =
     (case map_of t canonical_key of
        Some e \<Rightarrow> om_put canonical_key (e\<lparr>me_metastore := Some ms\<rparr>) t
      | None \<Rightarrow> om_put canonical_key ((mount_entry_new as_cas None)\<lparr>me_metastore := Some ms\<rparr>) t)"

definition get_canonical :: "string \<Rightarrow> ('b, 'm) VFSRouter \<Rightarrow> ('b, 'm) MountEntry option" where
  "get_canonical canonical_key t = map_of t canonical_key"

definition router_get :: "string \<Rightarrow> string \<Rightarrow> ('b, 'm) VFSRouter \<Rightarrow> ('b, 'm) MountEntry option" where
  "router_get mount_point zone t = map_of t (canonicalize_mount_path mount_point zone)"

definition router_has :: "string \<Rightarrow> string \<Rightarrow> ('b, 'm) VFSRouter \<Rightarrow> bool" where
  "router_has mount_point zone t \<longleftrightarrow> map_of t (canonicalize_mount_path mount_point zone) \<noteq> None"

definition canonical_keys :: "('b, 'm) VFSRouter \<Rightarrow> string list" where
  "canonical_keys t = sort (map fst t)"

definition project_zone_path :: "string \<Rightarrow> string \<Rightarrow> ('b, 'm) VFSRouter \<Rightarrow> (string \<times> string) list" where
  "project_zone_path zone path t =
     List.map_filter (\<lambda>(key, e).
       let lm = extract_zone_from_canonical key; lookup_zone = fst lm; mount = snd lm;
           target = (case me_target_zone_id e of Some z \<Rightarrow> z | None \<Rightarrow> lookup_zone)
       in if target \<noteq> zone then None
          else if me_target_zone_id e \<noteq> None
          then map_option (Pair lookup_zone)
                 (project_zone_key mount (case me_target_subtree e of Some s \<Rightarrow> s | None \<Rightarrow> ''/'') path)
          else if mount = ''/'' \<or> path = mount \<or>
                  (case strip_prefix mount path of Some tail \<Rightarrow> starts_with tail ''/'' | None \<Rightarrow> False)
          then Some (lookup_zone, path) else None) t"

definition router_backends :: "('b, 'm) VFSRouter \<Rightarrow> 'b list" where
  "router_backends t = List.map_filter (\<lambda>(_, e). me_backend e) t"

definition rebind_missing_backends ::
  "('b \<Rightarrow> bool) \<Rightarrow> 'b \<Rightarrow> (('b, 'm) MountEntry \<Rightarrow> bool) \<Rightarrow> ('b, 'm) VFSRouter \<Rightarrow> nat \<times> ('b, 'm) VFSRouter" where
  "rebind_missing_backends as_cas new_backend should_rebind t =
     (length (filter (\<lambda>(_, e). should_rebind e) t),
      map (\<lambda>(k, e). (k, if should_rebind e then e\<lparr>me_backend := Some new_backend, me_is_cas := as_cas new_backend\<rparr>
                         else e)) t)"

definition mount_points :: "('b, 'm) VFSRouter \<Rightarrow> string list" where
  "mount_points t = sort (map (\<lambda>(key, _). snd (extract_zone_from_canonical key)) t)"

text \<open>\<^verbatim>\<open>Vec::dedup\<close> drops equal neighbours.\<close>

fun dedup :: "'a list \<Rightarrow> 'a list" where
  "dedup (x # y # xs) = (if x = y then dedup (y # xs) else x # dedup (y # xs))"
| "dedup xs = xs"

definition child_mounts_under :: "string \<Rightarrow> string \<Rightarrow> ('b, 'm) VFSRouter \<Rightarrow> string list" where
  "child_mounts_under parent_path zone t =
     (let parent = trim_end_matches (CHR ''/'') parent_path;
          is_root = (parent = []);
          needle = (if is_root then ''/'' else parent @ ''/'')
      in dedup (sort (List.map_filter (\<lambda>(key, _).
           let zm = extract_zone_from_canonical key; mz = fst zm; mp = snd zm
           in if mz \<noteq> zone \<and> mz \<noteq> ROOT_ZONE_ID then None
              else if mp = ''/'' then None
              else if is_root \<or> starts_with mp needle then Some mp
              else None) t)))"

definition mount_points_for_coherence_key ::
  "('m \<Rightarrow> nat option) \<Rightarrow> nat \<Rightarrow> ('b, 'm) VFSRouter \<Rightarrow> string list" where
  "mount_points_for_coherence_key coherence_key key t =
     sort (List.map_filter (\<lambda>(k, e).
       case me_metastore e of
         None \<Rightarrow> None
       | Some ms \<Rightarrow> if coherence_key ms = Some key then Some (snd (extract_zone_from_canonical k)) else None) t)"

section \<open>Routing\<close>

record ('b, 'm) RouteResult =
  rt_mount_point :: string
  rt_backend_path :: string
  rt_zone_id :: string
  rt_is_external :: bool
  rt_is_cas :: bool
  rt_metastore :: "'m option"
  rt_backend :: "'b option"
  rt_target_zone_id :: "string option"

definition resolve_metastore :: "'m option \<Rightarrow> ('b, 'm) RouteResult \<Rightarrow> 'm option" where
  "resolve_metastore global_fallback r =
     (case rt_metastore r of Some ms \<Rightarrow> Some ms | None \<Rightarrow> global_fallback)"

definition is_federation_peer_mount :: "('b, 'm) RouteResult \<Rightarrow> bool" where
  "is_federation_peer_mount r \<longleftrightarrow> rt_backend r = None \<and> rt_target_zone_id r \<noteq> None"

definition federation_target_zone :: "('b, 'm) RouteResult \<Rightarrow> string option" where
  "federation_target_zone r = (if rt_backend r \<noteq> None then None else rt_target_zone_id r)"

text \<open>The walk from a canonical path towards the root, to the first key of the table.\<close>

function lpm_walk :: "('b, 'm) VFSRouter \<Rightarrow> string \<Rightarrow> (string \<times> ('b, 'm) MountEntry) option" where
  "lpm_walk t current =
     (case map_of t current of
        Some e \<Rightarrow> Some (current, e)
      | None \<Rightarrow>
          if current = ''/'' then None
          else case rfind (CHR ''/'') current of
                 None \<Rightarrow> None
               | Some i \<Rightarrow> if i = 0 then lpm_walk t ''/'' else lpm_walk t (take i current))"
  by pat_completeness auto

text \<open>The measure: a path is longer than its parent, and every path but the root is above the root.\<close>

termination lpm_walk
  by (relation "measure (\<lambda>(t, c). if c = ''/'' then 0 else Suc (length c))") (auto dest: rfind_lt)

declare lpm_walk.simps [simp del]

definition route_in_zone :: "string \<Rightarrow> string \<Rightarrow> ('b, 'm) VFSRouter \<Rightarrow> ('b, 'm) RouteResult option" where
  "route_in_zone path zone t =
     (let canonical = canonicalize_into path zone
      in case lpm_walk t canonical of
           None \<Rightarrow> None
         | Some (current, e) \<Rightarrow>
             Some \<lparr>rt_mount_point = current,
                   rt_backend_path = zone_relative_path canonical current (me_target_subtree e),
                   rt_zone_id = (case me_target_zone_id e of Some z \<Rightarrow> z | None \<Rightarrow> zone),
                   rt_is_external = me_is_external e, rt_is_cas = me_is_cas e,
                   rt_metastore = me_metastore e, rt_backend = me_backend e,
                   rt_target_zone_id = me_target_zone_id e\<rparr>)"

definition route :: "string \<Rightarrow> string \<Rightarrow> ('b, 'm) VFSRouter \<Rightarrow> ('b, 'm) RouteResult option" where
  "route path zone t =
     (case (case route_in_zone path zone t of
              Some r \<Rightarrow> Some r
            | None \<Rightarrow> if zone \<noteq> ROOT_ZONE_ID then route_in_zone path ROOT_ZONE_ID t else None) of
        None \<Rightarrow> None
      | Some r \<Rightarrow>
          if rt_zone_id r \<noteq> zone
          then (case route_in_zone path (rt_zone_id r) t of
                  Some deeper \<Rightarrow> if rt_mount_point deeper \<noteq> rt_mount_point r then Some deeper else Some r
                | None \<Rightarrow> Some r)
          else Some r)"

section \<open>Coverage\<close>

text \<open>A key covers a path that it equals or that continues it at a slash; the root covers every path.\<close>

definition covers :: "string \<Rightarrow> string \<Rightarrow> bool" where
  "covers k p \<longleftrightarrow> k = p \<or> k = ''/'' \<or> (k \<noteq> [] \<and> (\<exists>rest. p = k @ CHR ''/'' # rest))"

lemma covers_refl [simp]: "covers k k"
  by (simp add: covers_def)

lemma covers_root [simp]: "covers ''/'' p"
  by (simp add: covers_def)

lemma last_slash_split:
  assumes "rfind c s = Some i"
  shows "s = take i s @ c # drop (Suc i) s" and "c \<notin> set (drop (Suc i) s)" and "i < length s"
  using rfind_SomeD [OF assms] id_take_nth_drop [of i s] by auto

lemma slash_prefix:
  assumes "k @ c # rest = q @ c # r" and "c \<notin> set r"
  shows "k = q \<or> (\<exists>x. q = k @ c # x)"
  using assms by (auto simp: append_eq_append_conv2 Cons_eq_append_conv append_eq_Cons_conv)

lemma covers_parent:
  assumes "rfind (CHR ''/'') c = Some i" and "0 < i"
  shows "covers k c \<longleftrightarrow> k = c \<or> covers k (take i c)"
proof -
  obtain q r where q: "take i c = q" and c: "c = q @ CHR ''/'' # r" and r: "CHR ''/'' \<notin> set r" and ne: "q \<noteq> []"
    using last_slash_split [OF assms(1)] assms(2) by (metis gr_implies_not0 take_eq_Nil length_0_conv)
  have "(\<exists>rest. c = k @ CHR ''/'' # rest) \<longleftrightarrow> k = q \<or> (\<exists>rest. q = k @ CHR ''/'' # rest)"
    using slash_prefix [of k "CHR ''/''" _ q r] r unfolding c by fastforce
  then show ?thesis
    using ne unfolding covers_def q by blast
qed

lemma covers_top:
  assumes "rfind (CHR ''/'') c = Some 0"
  shows "covers k c \<longleftrightarrow> k = c \<or> k = ''/''"
proof -
  have "c = CHR ''/'' # drop 1 c" "CHR ''/'' \<notin> set (drop 1 c)"
    using last_slash_split [OF assms] by auto
  then obtain r where c: "c = CHR ''/'' # r" and r: "CHR ''/'' \<notin> set r"
    by blast
  have "k = []" if "c = k @ CHR ''/'' # rest" for rest
    using that c r by (cases k) auto
  then show ?thesis
    unfolding covers_def by blast
qed

lemma covers_nonempty: "covers k p \<Longrightarrow> p \<noteq> [] \<Longrightarrow> k \<noteq> []"
  by (auto simp: covers_def)

lemma covers_length: "covers k p \<Longrightarrow> p \<noteq> [] \<Longrightarrow> length k \<le> length p"
  unfolding covers_def by (auto simp: Suc_le_eq)

text \<open>The walk finds the longest key of the table that covers the path.\<close>

definition longest_cover :: "('b, 'm) VFSRouter \<Rightarrow> string \<Rightarrow> (string \<times> ('b, 'm) MountEntry) option \<Rightarrow> bool" where
  "longest_cover t p r \<longleftrightarrow>
     (case r of
        None \<Rightarrow> \<forall>k. covers k p \<longrightarrow> map_of t k = None
      | Some (k, e) \<Rightarrow> map_of t k = Some e \<and> covers k p \<and>
          (\<forall>k'. covers k' p \<and> map_of t k' \<noteq> None \<longrightarrow> length k' \<le> length k))"

lemma longest_cover_skip:
  assumes "\<And>k. covers k p \<longleftrightarrow> k = p \<or> covers k q" and "map_of t p = None" and "longest_cover t q r"
  shows "longest_cover t p r"
  using assms unfolding longest_cover_def by (cases r) auto

lemma lpm_walk_longest:
  "c = CHR ''/'' # x \<Longrightarrow> longest_cover t c (lpm_walk t c)"
proof (induction t c arbitrary: x rule: lpm_walk.induct)
  case (1 t c)
  show ?case
  proof (cases "map_of t c")
    case (Some e)
    then have "lpm_walk t c = Some (c, e)"
      by (subst lpm_walk.simps) simp
    then show ?thesis
      using Some 1(3) covers_length [of _ c] by (simp add: longest_cover_def)
  next
    case None
    show ?thesis
    proof (cases "c = ''/''")
      case True
      then have "lpm_walk t c = None"
        using None by (subst lpm_walk.simps) simp
      moreover have "covers k ''/'' \<longleftrightarrow> k = ''/''" for k
        by (auto simp: covers_def Cons_eq_append_conv)
      ultimately show ?thesis
        using True None by (simp add: longest_cover_def)
    next
      case False
      obtain i where i: "rfind (CHR ''/'') c = Some i"
        using 1(3) rfind_None [of "CHR ''/''" c] by (cases "rfind (CHR ''/'') c") auto
      show ?thesis
      proof (cases "i = 0")
        case True
        have walk: "lpm_walk t c = lpm_walk t ''/''"
          using None False i True by (subst lpm_walk.simps) simp
        have "longest_cover t ''/'' (lpm_walk t ''/'')"
          using 1(1) [OF None False i True] by simp
        moreover have "covers k c \<longleftrightarrow> k = c \<or> covers k ''/''" for k
          using covers_top i True by (auto simp: covers_def Cons_eq_append_conv)
        ultimately show ?thesis
          unfolding walk using None longest_cover_skip by blast
      next
        case pos: False
        have walk: "lpm_walk t c = lpm_walk t (take i c)"
          using None False i pos by (subst lpm_walk.simps) simp
        have "take i c = CHR ''/'' # take (i - 1) x"
          using pos 1(3) by (cases i) auto
        then have "longest_cover t (take i c) (lpm_walk t (take i c))"
          by (rule 1(2) [OF None False i pos])
        then show ?thesis
          unfolding walk using None covers_parent [OF i] pos by (intro longest_cover_skip [of c "take i c"]) auto
      qed
    qed
  qed
qed

lemma canonicalize_into_slash: "\<exists>x. canonicalize_into p z = CHR ''/'' # x"
  by (simp add: canonicalize_into_def Let_def)

lemma canonicalize_eq: "canonicalize_into p z = canonicalize_mount_path p z"
  by (simp add: canonicalize_into_def canonicalize_mount_path_def Let_def)

lemma route_in_zone_Some:
  assumes "route_in_zone path zone t = Some r"
  shows "\<exists>e. map_of t (rt_mount_point r) = Some e \<and> covers (rt_mount_point r) (canonicalize_into path zone) \<and>
    (\<forall>k. covers k (canonicalize_into path zone) \<and> map_of t k \<noteq> None \<longrightarrow> length k \<le> length (rt_mount_point r)) \<and>
    rt_backend_path r = zone_relative_path (canonicalize_into path zone) (rt_mount_point r) (me_target_subtree e) \<and>
    rt_backend r = me_backend e \<and> rt_metastore r = me_metastore e \<and>
    rt_zone_id r = (case me_target_zone_id e of Some z \<Rightarrow> z | None \<Rightarrow> zone)"
proof -
  obtain x where "canonicalize_into path zone = CHR ''/'' # x"
    using canonicalize_into_slash by blast
  then have "longest_cover t (canonicalize_into path zone) (lpm_walk t (canonicalize_into path zone))"
    by (rule lpm_walk_longest)
  then show ?thesis
    using assms by (auto simp: route_in_zone_def Let_def longest_cover_def split: option.splits)
qed

lemma route_in_zone_None:
  "route_in_zone path zone t = None \<longleftrightarrow> (\<forall>k. covers k (canonicalize_into path zone) \<longrightarrow> map_of t k = None)"
proof -
  obtain x where "canonicalize_into path zone = CHR ''/'' # x"
    using canonicalize_into_slash by blast
  then have "longest_cover t (canonicalize_into path zone) (lpm_walk t (canonicalize_into path zone))"
    by (rule lpm_walk_longest)
  then show ?thesis
    by (auto simp: route_in_zone_def Let_def longest_cover_def split: option.splits)
qed

lemma route_SomeD:
  assumes "route path zone t = Some r"
  shows "\<exists>z. route_in_zone path z t = Some r"
  using assms by (auto simp: route_def split: option.splits if_splits)

lemma route_None:
  "route path zone t = None \<longleftrightarrow>
     route_in_zone path zone t = None \<and> (zone \<noteq> ROOT_ZONE_ID \<longrightarrow> route_in_zone path ROOT_ZONE_ID t = None)"
  by (auto simp: route_def split: option.splits if_splits)

section \<open>Keys of a shared zone\<close>

text \<open>A subtree or a mount point in normal form: absolute, not the root, no slash at the start of its name.\<close>

definition proper_path :: "string \<Rightarrow> bool" where
  "proper_path s \<longleftrightarrow> (\<exists>x xs. s = CHR ''/'' # x # xs \<and> x \<noteq> CHR ''/'')"

lemma proper_trim: "proper_path s \<Longrightarrow> trim_start_matches (CHR ''/'') s = tl s \<and> tl s \<noteq> [] \<and> s = CHR ''/'' # tl s"
  by (auto simp: proper_path_def trim_start_matches_def)

lemma zone_relative_under_subtree:
  assumes "proper_path s"
  shows "covers s (CHR ''/'' # zone_relative_path p m (Some s))"
proof -
  obtain x where s: "s = CHR ''/'' # x" "trim_start_matches (CHR ''/'') s = x" "x \<noteq> []"
    using proper_trim [OF assms] by metis
  then show ?thesis
    by (simp add: zone_relative_path_def Let_def covers_def)
qed

lemma covers_comparable:
  assumes "covers s p" and "covers s' p" and "proper_path s" and "proper_path s'"
  shows "covers s s' \<or> covers s' s"
proof -
  have not_root: "s \<noteq> ''/''" "s' \<noteq> ''/''" and ne: "s \<noteq> []" "s' \<noteq> []"
    using assms(3,4) by (auto simp: proper_path_def)
  have "s = s' \<or> (\<exists>x. s' = s @ CHR ''/'' # x) \<or> (\<exists>x. s = s' @ CHR ''/'' # x)"
    if "p = s @ CHR ''/'' # r" "p = s' @ CHR ''/'' # r'" for r r'
  proof -
    from that have "s @ CHR ''/'' # r = s' @ CHR ''/'' # r'"
      by simp
    then show ?thesis
      by (auto simp: append_eq_append_conv2 Cons_eq_append_conv append_eq_Cons_conv)
  qed
  then show ?thesis
    using assms(1,2) not_root ne unfolding covers_def by blast
qed

lemma mount_rest:
  assumes "proper_path m" and "p = m @ rest" and "rest = [] \<or> proper_path rest"
  shows "under_mount (canonicalize_into p z) (canonicalize_mount_path m z) = (if rest = [] then [] else tl rest)"
proof -
  obtain x xs where m: "m = CHR ''/'' # x # xs" "x \<noteq> CHR ''/''"
    using assms(1) by (auto simp: proper_path_def)
  have can: "canonicalize_into p z = (CHR ''/'' # z @ CHR ''/'' # x # xs) @ rest"
    "canonicalize_mount_path m z = CHR ''/'' # z @ CHR ''/'' # x # xs"
    using m assms(2) by (auto simp: canonicalize_into_def canonicalize_mount_path_def trim_start_matches_def)
  show ?thesis
  proof (cases "rest = []")
    case True
    then show ?thesis by (simp add: can under_mount_def)
  next
    case False
    then have "trim_start_matches (CHR ''/'') rest = tl rest"
      using assms(3) proper_trim by blast
    moreover have "drop (length (CHR ''/'' # z @ CHR ''/'' # x # xs)) ((CHR ''/'' # z @ CHR ''/'' # x # xs) @ rest) = rest"
      by (metis append_eq_conv_conj)
    ultimately show ?thesis
      using False unfolding under_mount_def can by auto
  qed
qed

section \<open>Properties\<close>


definition example_table :: "(nat, nat) VFSRouter" where
  "example_table =
     add_federation_mount (\<lambda>_. False) ''/shared/x'' ''root'' (Some 2) ''team'' ''/agents'' False
       (add_mount (\<lambda>_. False) ''/'' ''team'' (Some 3) False
         (add_mount (\<lambda>_. False) ''/'' ''root'' (Some 1) False vfs_router_new))"


text \<open>
  Two mounts of one zone that expose subtrees neither of which contains the
  other never address the same content or metadata key: no path through the one
  has the zone-relative location of a path through the other.
\<close>

theorem subtree_mounts_disjoint:
  assumes "proper_path s" and "proper_path s'" and "\<not> covers s s'" and "\<not> covers s' s"
  shows "zone_relative_path p m (Some s) \<noteq> zone_relative_path p' m' (Some s')"
proof
  assume eq: "zone_relative_path p m (Some s) = zone_relative_path p' m' (Some s')"
  have "covers s (CHR ''/'' # zone_relative_path p m (Some s))"
    "covers s' (CHR ''/'' # zone_relative_path p m (Some s))"
    using zone_relative_under_subtree assms(1,2) eq by metis+
  then show False
    using covers_comparable assms by blast
qed

theorem subtree_mounts_disjoint_witness:
  "zone_relative_path ''/root/agents/w'' ''/root/agents'' (Some ''/agents'') \<noteq>
   zone_relative_path ''/root/conversations/w'' ''/root/conversations'' (Some ''/conversations'')"
  by (rule subtree_mounts_disjoint) (simp_all add: proper_path_def covers_def)

text \<open>
  The key of a path inside the zone a mount exposes leads back to the path:
  projecting the zone-relative location of a path under a mount through that
  mount gives the path, for every mount point and subtree in normal form.
\<close>

theorem zone_key_round_trip:
  assumes "proper_path m" and "proper_path s" and "p = m @ rest" and "rest = [] \<or> proper_path rest"
  shows "project_zone_key m s (CHR ''/'' # zone_relative_path (canonicalize_into p z) (canonicalize_mount_path m z) (Some s)) =
    Some p"
proof -
  have s: "trim_start_matches (CHR ''/'') s = tl s" "tl s \<noteq> []" "s = CHR ''/'' # tl s"
    using proper_trim [OF assms(2)] by auto
  have ne: "m \<noteq> []" "m \<noteq> ''/''" "s \<noteq> []" "s \<noteq> ''/''"
    using assms(1,2) by (auto simp: proper_path_def)
  have key: "CHR ''/'' # zone_relative_path (canonicalize_into p z) (canonicalize_mount_path m z) (Some s) = s @ rest"
  proof (cases "rest = []")
    case True
    then show ?thesis
      using mount_rest [OF assms(1,3,4)] s by (simp add: zone_relative_path_def Let_def)
  next
    case False
    then have "rest = CHR ''/'' # tl rest" "tl rest \<noteq> []"
      using assms(4) proper_trim by blast+
    then show ?thesis
      using mount_rest [OF assms(1,3,4)] False s by (simp add: zone_relative_path_def Let_def)
  qed
  show ?thesis
  proof (cases "rest = []")
    case True
    then show ?thesis
      unfolding key using ne assms(3) by (simp add: project_zone_key_def)
  next
    case False
    have "strip_prefix s (s @ rest) = Some rest"
      by (simp add: strip_prefix_Some)
    moreover have "starts_with rest ''/''" "rest \<noteq> ''/''"
      using False assms(4) by (auto simp: proper_path_def starts_with_iff)
    ultimately show ?thesis
      unfolding key using ne assms(3) False by (simp add: project_zone_key_def)
  qed
qed

theorem zone_key_round_trip_witness:
  "project_zone_key ''/shared/x'' ''/agents''
     (CHR ''/'' # zone_relative_path (canonicalize_into ''/shared/x/f'' ''root'') (canonicalize_mount_path ''/shared/x'' ''root'')
       (Some ''/agents'')) = Some ''/shared/x/f''"
  by (rule zone_key_round_trip [where rest = "''/f''"]) (simp_all add: proper_path_def)

text \<open>
  The two slots of a mount entry are independent: adding a mount and
  installing a metastore at the same key give the same table in either order,
  whether or not the key was taken.
\<close>

theorem mount_slots_commute:
  assumes "om_wf t" and "me_metastore entry = None"
  shows "install_metastore as_cas (canonicalize_mount_path mount_point zone) ms (router_add mount_point zone entry t) =
    router_add mount_point zone entry (install_metastore as_cas (canonicalize_mount_path mount_point zone) ms t)"
  using assms
  by (cases "map_of t (canonicalize_mount_path mount_point zone)")
    (simp_all add: install_metastore_def router_add_def Let_def om.put_put)

theorem mount_slots_commute_witness:
  "install_metastore (\<lambda>_. True) (canonicalize_mount_path ''/a'' ''root'') (7 :: nat)
     (router_add ''/a'' ''root'' (mount_entry_new (\<lambda>_. True) (Some (1 :: nat))) []) =
   router_add ''/a'' ''root'' (mount_entry_new (\<lambda>_. True) (Some 1))
     (install_metastore (\<lambda>_. True) (canonicalize_mount_path ''/a'' ''root'') 7 [])"
  by (rule mount_slots_commute) (simp_all add: mount_entry_new_def)

text \<open>
  A path under a federation mount is not always served by it: when the
  target zone has a mount of its own at its root, the second lookup finds that
  shallower mount and routing prefers it, so that the path inside the zone
  becomes the whole path of the caller, outside the subtree that is exposed.
\<close>

theorem route_prefers_target_root:
  "map_option rt_mount_point (route_in_zone ''/shared/x/f'' ''root'' example_table) = Some ''/root/shared/x'' \<and>
   map_option rt_backend_path (route_in_zone ''/shared/x/f'' ''root'' example_table) = Some ''agents/f'' \<and>
   map_option rt_mount_point (route ''/shared/x/f'' ''root'' example_table) = Some ''/team'' \<and>
   map_option rt_backend_path (route ''/shared/x/f'' ''root'' example_table) = Some ''shared/x/f''"
  by code_simp

end
