(* ===== verification/State_Command.thy ===== *)
theory State_Command
  imports Lock_State Contracts Stream_Buffer
begin

text \<open>
  The commands of the replicated state machine
  (\<^verbatim>\<open>raft/src/raft/state_machine.rs\<close>), their results, and the classifications of
  a command that \<^verbatim>\<open>state_machine.rs\<close>, \<^verbatim>\<open>conditional_metadata.rs\<close> and
  \<^verbatim>\<open>record_guard.rs\<close> use to route it: which commands need fixed local storage,
  which key an ordinary metadata write names, which record an unguarded command
  mutates, which record a guarded one.

  Sequence numbers are natural numbers that every stored form truncates to
  eight bytes; versions, counters and incarnations keep their width.  The text
  of an \<^verbatim>\<open>Error(String)\<close> result is a value of \<^verbatim>\<open>Refusal\<close>.
\<close>

type_synonym i64 = "64 word"
type_synonym incarnation = "128 word"

section \<open>Commands\<close>

datatype GuardedRecordMutation =
    ReplaceMetadata string bytes "bytes option" incarnation
  | GuardedAppend string bytes
  | GuardedSeal string nat nat string string nat
  | GuardedTrim string nat "(string \<times> string) list"

datatype Command =
    SetMetadata string bytes
  | DeleteMetadata string
  | AcquireLock string string u32 u32 string u64
  | ReleaseLock string string
  | ExtendLock string string u32 u64
  | CasSetMetadata string bytes u32
  | AdjustCounter string i64
  | ForceReleaseLock string
  | AppendStreamEntry string bytes
  | Noop
  | PutControlState string string bytes bool
  | DeleteControlState string string
  | SealStreamSegment string nat nat string string nat
  | TrimStreamSegment string nat "(string \<times> string) list"
  | WriteVersionedMetadata string bytes "bytes option" incarnation
  | AdoptProtectedMetadata string "bytes option" incarnation
  | RenameMetadata string string bool
  | BindRecordGuard string "bytes option" string bytes incarnation
  | GuardedRecord bytes GuardedRecordMutation
  | RetireRecordGuard string bytes bytes incarnation
  | AdmitRecordIoOwner string bytes

text \<open>Both fields describe one committed image; a missing key has no revision.\<close>

record VersionedMetadata =
  vm_value :: "bytes option"
  vm_version :: "bytes option"

datatype Refusal =
    ProtectedNeedsConditional
  | CounterOnManaged
  | StaleSeal
  | StaleTrim
  | ControlStateOwned
  | ControlStateExists
  | LockNotFound
  | LockHolderNotFound
  | InvalidStreamPrefix
  | OwnerRetired
  | NeedsOwnerHandle
  | UnsupportedGuardedMutation
  | NoAdmittedOwner
  | OwnerNotLive
  | OwnerCannotBeRecord
  | DifferentOwner
  | RecordChanged
  | InvalidPath PathError
  | InvalidRenameDestination
  | RenameDecode string
  | RenameEntryType string

datatype CommandResult =
    Success
  | Value bytes
  | LockResult LockAcquireResult
  | CasResult bool u32
  | ErrorResult Refusal
  | ConditionalMetadata bool VersionedMetadata
  | ConditionalMetadataUnsupported
  | ProtectedMetadata bool

section \<open>Classification\<close>

fun requires_fixed_local_storage :: "Command \<Rightarrow> bool" where
  "requires_fixed_local_storage (WriteVersionedMetadata _ _ _ _) = True"
| "requires_fixed_local_storage (AdoptProtectedMetadata _ _ _) = True"
| "requires_fixed_local_storage (RenameMetadata _ _ _) = True"
| "requires_fixed_local_storage (BindRecordGuard _ _ _ _ _) = True"
| "requires_fixed_local_storage (GuardedRecord _ _) = True"
| "requires_fixed_local_storage (RetireRecordGuard _ _ _ _) = True"
| "requires_fixed_local_storage (AdmitRecordIoOwner _ _) = True"
| "requires_fixed_local_storage _ = False"

fun ordinary_metadata_key :: "Command \<Rightarrow> string option" where
  "ordinary_metadata_key (SetMetadata key _) = Some key"
| "ordinary_metadata_key (DeleteMetadata key) = Some key"
| "ordinary_metadata_key (CasSetMetadata key _ _) = Some key"
| "ordinary_metadata_key (AdjustCounter key _) = Some key"
| "ordinary_metadata_key _ = None"

fun is_lock_command :: "Command \<Rightarrow> bool" where
  "is_lock_command (AcquireLock _ _ _ _ _ _) = True"
| "is_lock_command (ReleaseLock _ _) = True"
| "is_lock_command (ForceReleaseLock _) = True"
| "is_lock_command (ExtendLock _ _ _ _) = True"
| "is_lock_command _ = False"

text \<open>The namespace of the control store that the apply path owns.\<close>

definition NAMESPACE :: string where
  "NAMESPACE = ''content-version-v1''"

definition requires_conditional_sc :: "Command \<Rightarrow> bool" where
  "requires_conditional_sc c =
     (if requires_fixed_local_storage c then True
      else case ordinary_metadata_key c of
             Some key \<Rightarrow> is_managed_content_path key
           | None \<Rightarrow>
               (case c of
                  PutControlState namespace _ _ _ \<Rightarrow> namespace = NAMESPACE
                | DeleteControlState namespace _ \<Rightarrow> namespace = NAMESPACE
                | _ \<Rightarrow> False))"

fun record_stream_prefix :: "Command \<Rightarrow> string option" where
  "record_stream_prefix (AppendStreamEntry p _) = Some p"
| "record_stream_prefix (SealStreamSegment p _ _ _ _ _) = Some p"
| "record_stream_prefix (TrimStreamSegment p _ _) = Some p"
| "record_stream_prefix _ = None"

text \<open>The stream path behind a prefix that ends in its delimiter.\<close>

definition delimited_watch_path :: "string \<Rightarrow> string option" where
  "delimited_watch_path p = (if ends_with p ''/'' then watch_path_from_wal_stream_key p else None)"

definition guarded_record_key :: "Command \<Rightarrow> string option" where
  "guarded_record_key c =
     (case c of
        WriteVersionedMetadata key _ _ _ \<Rightarrow> Some key
      | _ \<Rightarrow> (case record_stream_prefix c of None \<Rightarrow> None | Some p \<Rightarrow> delimited_watch_path p))"

fun mutation_key :: "GuardedRecordMutation \<Rightarrow> string option" where
  "mutation_key (ReplaceMetadata key _ _ _) = Some key"
| "mutation_key (GuardedAppend p _) = delimited_watch_path p"
| "mutation_key (GuardedSeal p _ _ _ _ _) = delimited_watch_path p"
| "mutation_key (GuardedTrim p _ _) = delimited_watch_path p"

end
