(* ===== verification/Text_Format.thy ===== *)
theory Text_Format
  imports Byte_Codec
begin

text \<open>
  The text formats of the standard library that the storage layers rely on:
  the UTF-8 test of \<^verbatim>\<open>String::from_utf8\<close>, the bytes of a string, unsigned
  decimal numbers as \<^verbatim>\<open>format!\<close> writes them, plain or zero-padded to twenty
  digits, and \<^verbatim>\<open>parse::<u64>\<close>.  The lemmas give the round trips and show that
  padded numbers are ordered as strings the way the numbers are.
\<close>

section \<open>UTF-8\<close>

text \<open>The ranges of the bytes that must follow a leading byte.\<close>

definition utf8_lead :: "nat \<Rightarrow> (nat \<times> nat) list option" where
  "utf8_lead b =
     (let c = (0x80, 0xBF) in
      if b < 0x80 then Some []
      else if b < 0xC2 then None
      else if b < 0xE0 then Some [c]
      else if b = 0xE0 then Some [(0xA0, 0xBF), c]
      else if b = 0xED then Some [(0x80, 0x9F), c]
      else if b < 0xF0 then Some [c, c]
      else if b = 0xF0 then Some [(0x90, 0xBF), c, c]
      else if b < 0xF4 then Some [c, c, c]
      else if b = 0xF4 then Some [(0x80, 0x8F), c, c]
      else None)"

fun utf8_from :: "(nat \<times> nat) list \<Rightarrow> nat list \<Rightarrow> bool" where
  "utf8_from [] [] = True"
| "utf8_from [] (b # bs) = (case utf8_lead b of None \<Rightarrow> False | Some rs \<Rightarrow> utf8_from rs bs)"
| "utf8_from (r # rs) [] = False"
| "utf8_from (r # rs) (b # bs) = (fst r \<le> b \<and> b \<le> snd r \<and> utf8_from rs bs)"

definition string_bytes :: "string \<Rightarrow> bytes" where
  "string_bytes s = map (\<lambda>c. word_of_nat (of_char c)) s"

definition from_utf8 :: "bytes \<Rightarrow> string option" where
  "from_utf8 bs =
     (if utf8_from [] (map unat bs) then Some (map (\<lambda>b. char_of (unat b)) bs) else None)"

definition utf8_string :: "string \<Rightarrow> bool" where
  "utf8_string s \<longleftrightarrow> utf8_from [] (map of_char s)"

lemma utf8_from_append: "utf8_from rs a \<Longrightarrow> utf8_from rs (a @ b) = utf8_from [] b"
  by (induction rs a rule: utf8_from.induct) (auto split: option.splits)

lemma utf8_string_append: "utf8_string a \<Longrightarrow> utf8_string (a @ b) = utf8_string b"
  by (simp add: utf8_string_def utf8_from_append)

lemma unat_of_char [simp]: "unat (word_of_nat (of_char c) :: u8) = of_char c"
  by (simp add: unsigned_of_nat take_bit_eq_mod of_char_mod_256)

lemma utf8_ascii: "list_all (\<lambda>c. of_char c < (128 :: nat)) s \<Longrightarrow> utf8_string s"
  unfolding utf8_string_def by (induction s) (simp_all add: utf8_lead_def)

lemma from_utf8_string: "utf8_string s \<Longrightarrow> from_utf8 (string_bytes s) = Some s"
  by (simp add: from_utf8_def string_bytes_def utf8_string_def comp_def)

lemma length_string_bytes [simp]: "length (string_bytes s) = length s"
  by (simp add: string_bytes_def)

section \<open>Decimal numbers\<close>

definition digit :: "nat \<Rightarrow> char" where
  "digit d = char_of (48 + d)"

definition is_digit :: "char \<Rightarrow> bool" where
  "is_digit c \<longleftrightarrow> 48 \<le> (of_char c :: nat) \<and> (of_char c :: nat) \<le> 57"

lemma utf8_digits: "list_all is_digit s \<Longrightarrow> utf8_string s"
  by (rule utf8_ascii, erule list.pred_mono_strong) (simp add: is_digit_def)

fun dec_digits :: "nat \<Rightarrow> string" where
  "dec_digits n = (if n < 10 then [digit n] else dec_digits (n div 10) @ [digit (n mod 10)])"

declare dec_digits.simps [simp del]

fun dec_value :: "string \<Rightarrow> nat" where
  "dec_value [] = 0"
| "dec_value (c # cs) = (of_char c - 48) * 10 ^ length cs + dec_value cs"

text \<open>\<^verbatim>\<open>format!("{n:020}")\<close> and \<^verbatim>\<open>str::parse::<u64>\<close>.\<close>

definition pad20 :: "nat \<Rightarrow> string" where
  "pad20 n = replicate (20 - length (dec_digits n)) (digit 0) @ dec_digits n"

definition parse_u64 :: "string \<Rightarrow> nat option" where
  "parse_u64 s =
     (let ds = (if starts_with s ''+'' then drop 1 s else s) in
      if ds \<noteq> [] \<and> list_all is_digit ds \<and> dec_value ds < 2 ^ 64 then Some (dec_value ds) else None)"

lemma of_char_digit: "d < 10 \<Longrightarrow> (of_char (digit d) :: nat) = 48 + d"
  by (simp add: digit_def)

lemma is_digit_digit: "d < 10 \<Longrightarrow> is_digit (digit d)"
  by (simp add: is_digit_def of_char_digit)

lemma dec_value_append: "dec_value (xs @ ys) = dec_value xs * 10 ^ length ys + dec_value ys"
  by (induction xs) (auto simp: power_add algebra_simps)

lemma dec_digits_digits: "list_all is_digit (dec_digits n)"
proof (induction n rule: dec_digits.induct)
  case (1 n)
  then show ?case
    by (subst dec_digits.simps) (auto simp: is_digit_digit)
qed

lemma dec_value_digits [simp]: "dec_value (dec_digits n) = n"
proof (induction n rule: dec_digits.induct)
  case (1 n)
  then show ?case
    by (subst dec_digits.simps) (auto simp: of_char_digit dec_value_append)
qed

lemma dec_digits_ne [simp]: "dec_digits n \<noteq> []"
  by (subst dec_digits.simps) simp

lemma dec_digits_inj [simp]: "dec_digits m = dec_digits n \<longleftrightarrow> m = n"
  by (metis dec_value_digits)

lemma dec_value_lt: "list_all is_digit s \<Longrightarrow> dec_value s < 10 ^ length s"
proof (induction s)
  case (Cons c s)
  then have "of_char c - 48 \<le> (9 :: nat)" and "dec_value s < 10 ^ length s"
    by (auto simp: is_digit_def)
  then have "(of_char c - 48) * 10 ^ length s + dec_value s < 9 * 10 ^ length s + 10 ^ length s"
    by (intro add_le_less_mono mult_le_mono1)
  then show ?case by simp
qed simp

lemma dec_digits_length: "n < 10 ^ k \<Longrightarrow> 0 < k \<Longrightarrow> length (dec_digits n) \<le> k"
proof (induction n arbitrary: k rule: dec_digits.induct)
  case (1 n)
  show ?case
  proof (cases "n < 10")
    case False
    then have "k \<noteq> 1"
      using 1(2) by auto
    then obtain k' where k: "k = Suc k'" "0 < k'"
      using 1(3) by (cases k) auto
    then have "n div 10 < 10 ^ k'"
      using 1(2) by (simp add: less_mult_imp_div_less mult.commute)
    then show ?thesis
      using 1(1) [OF False _ k(2)] k False by (subst dec_digits.simps) simp
  qed (use 1 in \<open>subst dec_digits.simps, simp\<close>)
qed

lemma dec_value_replicate0 [simp]: "dec_value (replicate k (digit 0) @ s) = dec_value s"
  by (induction k) (auto simp: of_char_digit)

lemma dec_value_pad20 [simp]: "dec_value (pad20 n) = n"
  by (simp add: pad20_def)

lemma pad20_digits: "list_all is_digit (pad20 n)"
  using is_digit_digit [of 0] dec_digits_digits [of n] by (auto simp: pad20_def list_all_iff)

lemma pad20_length: "n < 2 ^ 64 \<Longrightarrow> length (pad20 n) = 20"
  using dec_digits_length [of n 20] by (simp add: pad20_def)

lemma parse_u64_digits:
  assumes "list_all is_digit s" and "s \<noteq> []" and "dec_value s < 2 ^ 64"
  shows "parse_u64 s = Some (dec_value s)"
proof -
  have "\<not> starts_with s ''+''"
    using assms(1,2) by (cases s) (auto simp: starts_with_def is_digit_def)
  then show ?thesis
    using assms by (simp add: parse_u64_def)
qed

lemma pad20_ne [simp]: "pad20 n \<noteq> []"
  by (simp add: pad20_def)

lemma parse_pad20: "n < 2 ^ 64 \<Longrightarrow> parse_u64 (pad20 n) = Some n"
  using parse_u64_digits [OF pad20_digits pad20_ne, of n] by simp

text \<open>Digit strings of one length are ordered as the numbers they write.\<close>

lemma digits_order:
  "length s = length t \<Longrightarrow> list_all is_digit s \<Longrightarrow> list_all is_digit t \<Longrightarrow>
     s < t \<longleftrightarrow> dec_value s < dec_value t"
proof (induction s t rule: list_induct2)
  case (Cons c s d t)
  define a b where "a = (of_char c - 48 :: nat)" and "b = (of_char d - 48 :: nat)"
  have ge: "48 \<le> (of_char c :: nat)" "48 \<le> (of_char d :: nat)"
    using Cons.prems by (simp_all add: is_digit_def)
  have lt: "c < d \<longleftrightarrow> a < b"
    unfolding a_def b_def less_char_def using ge by (rule less_diff_iff [symmetric])
  have "(of_char c :: nat) = of_char d \<longleftrightarrow> a = b"
    unfolding a_def b_def using ge by (rule eq_diff_iff [symmetric])
  then have cd: "c = d \<longleftrightarrow> a = b"
    by simp
  have bound: "dec_value s < 10 ^ length t" "dec_value t < 10 ^ length t"
    using Cons dec_value_lt [of s] dec_value_lt [of t] by auto
  have "a * 10 ^ length t + dec_value s < b * 10 ^ length t + dec_value t" if "a < b"
  proof -
    have "Suc a * 10 ^ length t \<le> b * 10 ^ length t"
      using that by (intro mult_le_mono1) simp
    then show ?thesis using bound by simp
  qed
  moreover have "\<not> a * 10 ^ length t + dec_value s < b * 10 ^ length t + dec_value t" if "b < a"
  proof -
    have "Suc b * 10 ^ length t \<le> a * 10 ^ length t"
      using that by (intro mult_le_mono1) simp
    then show ?thesis using bound by simp
  qed
  moreover have "c # s < d # t \<longleftrightarrow> a < b \<or> a = b \<and> dec_value s < dec_value t"
    unfolding Cons_less_Cons lt cd using Cons by simp
  moreover have "dec_value (c # s) = a * 10 ^ length t + dec_value s"
    "dec_value (d # t) = b * 10 ^ length t + dec_value t"
    using Cons.hyps by (simp_all add: a_def b_def)
  ultimately show ?case
    by (cases a b rule: linorder_cases) auto
qed simp

lemma pad20_less: "m < 2 ^ 64 \<Longrightarrow> n < 2 ^ 64 \<Longrightarrow> pad20 m < pad20 n \<longleftrightarrow> m < n"
  using digits_order [of "pad20 m" "pad20 n"] by (simp add: pad20_length pad20_digits)

lemma pad20_inj: "pad20 m = pad20 n \<longleftrightarrow> m = n"
  by (metis dec_value_pad20)

end
