(* ===== verification/Stream_Log.thy ===== *)
theory Stream_Log
  imports State_Command Text_Format
begin

text \<open>
  The durable streams inside the replicated state machine
  (\<^verbatim>\<open>raft/src/raft/state_machine.rs\<close>): one ordered table holds, for every stream
  prefix, the entries still hot, the next offset, the cold-tier floor, the
  retention floor, and one index record per sealed segment.  Modelled are the
  keys and the record codec, the three appliers of \<^verbatim>\<open>execute_metadata_in_txn\<close>
  (append, seal, trim) and the reads \<^verbatim>\<open>stream_tail\<close>, \<^verbatim>\<open>stream_floor\<close>,
  \<^verbatim>\<open>stream_earliest\<close>, \<^verbatim>\<open>find_segment\<close>, \<^verbatim>\<open>list_segments\<close>.  Keys are
  only ever written from strings, so the model's keys are strings.  The lemmas
  show that the table refines one append-only log per stream, cut into a
  trimmed, a cold and a hot part, and that streams of which neither prefix
  extends the other do not disturb each other.
\<close>

named_theorems stream_keys "distinctness of the keys of a stream"

section \<open>Keys and index records\<close>

type_synonym stream_table = "(string, bytes) omap"

definition stream_tail_key :: "string \<Rightarrow> string" where
  "stream_tail_key p = ''__stream_tail__'' @ p"

definition stream_floor_key :: "string \<Rightarrow> string" where
  "stream_floor_key p = ''__stream_floor__'' @ p"

definition stream_earliest_key :: "string \<Rightarrow> string" where
  "stream_earliest_key p = ''__stream_earliest__'' @ p"

definition stream_segment_key_prefix :: "string \<Rightarrow> string" where
  "stream_segment_key_prefix p = ''__stream_seg__'' @ p"

definition stream_segment_key :: "string \<Rightarrow> nat \<Rightarrow> string" where
  "stream_segment_key p base = stream_segment_key_prefix p @ pad20 base"

definition stream_entry_key :: "string \<Rightarrow> nat \<Rightarrow> string" where
  "stream_entry_key p seq = p @ dec_digits seq"

record SegmentRecord =
  sr_end :: nat
  sr_size :: nat
  sr_origin :: string
  sr_content_id :: string

definition encode_segment_record :: "SegmentRecord \<Rightarrow> bytes" where
  "encode_segment_record r =
     be_bytes 8 (sr_end r) @ be_bytes 8 (sr_size r) @ be_bytes 4 (length (sr_origin r)) @
     string_bytes (sr_origin r) @ string_bytes (sr_content_id r)"

definition decode_segment_record :: "bytes \<Rightarrow> SegmentRecord option" where
  "decode_segment_record bs =
     (if length bs < 20 then None
      else let endv = be_value (take 8 bs);
               sz = be_value (take 8 (drop 8 bs));
               origin_len = be_value (take 4 (drop 16 bs));
               origin_end = 20 + origin_len
           in if length bs < origin_end then None
              else case from_utf8 (take origin_len (drop 20 bs)) of
                     None \<Rightarrow> None
                   | Some origin \<Rightarrow>
                       (case from_utf8 (drop origin_end bs) of
                          None \<Rightarrow> None
                        | Some content_id \<Rightarrow>
                            Some \<lparr>sr_end = endv, sr_size = sz, sr_origin = origin,
                                  sr_content_id = content_id\<rparr>))"

text \<open>The records a proposer can write: 64-bit numbers, valid strings.\<close>

definition segment_record_ok :: "SegmentRecord \<Rightarrow> bool" where
  "segment_record_ok r \<longleftrightarrow>
     sr_end r < 2 ^ 64 \<and> sr_size r < 2 ^ 64 \<and> length (sr_origin r) < 2 ^ 32 \<and>
     utf8_string (sr_origin r) \<and> utf8_string (sr_content_id r)"

lemma segment_record_round_trip:
  assumes "segment_record_ok r"
  shows "decode_segment_record (encode_segment_record r) = Some r"
proof -
  have "sr_end r < 256 ^ 8" "sr_size r < 256 ^ 8" "length (sr_origin r) < 256 ^ 4"
    using assms by (simp_all add: segment_record_ok_def)
  then show ?thesis
    using assms by (simp add: decode_segment_record_def encode_segment_record_def Let_def
        segment_record_ok_def from_utf8_string)
qed

section \<open>Reads\<close>

text \<open>A stored cursor: zero when the key is absent or is not eight bytes long.\<close>

definition stored_u64 :: "string \<Rightarrow> stream_table \<Rightarrow> nat" where
  "stored_u64 key t =
     (case map_of t key of
        Some v \<Rightarrow> if length v = 8 then be_value v else 0
      | None \<Rightarrow> 0)"

definition get_stream_entry :: "string \<Rightarrow> stream_table \<Rightarrow> bytes option" where
  "get_stream_entry key t = map_of t key"

definition stream_tail :: "string \<Rightarrow> stream_table \<Rightarrow> nat" where
  "stream_tail p t = stored_u64 (stream_tail_key p) t"

definition stream_floor :: "string \<Rightarrow> stream_table \<Rightarrow> nat" where
  "stream_floor p t = stored_u64 (stream_floor_key p) t"

definition stream_earliest :: "string \<Rightarrow> stream_table \<Rightarrow> nat" where
  "stream_earliest p t = stored_u64 (stream_earliest_key p) t"

text \<open>An inclusive range scan.\<close>

definition rows_between :: "string \<Rightarrow> string \<Rightarrow> stream_table \<Rightarrow> stream_table" where
  "rows_between lo hi t = filter (\<lambda>e. lo \<le> fst e \<and> fst e \<le> hi) t"

definition segment_base :: "string \<Rightarrow> string \<Rightarrow> nat option" where
  "segment_base p key =
     (case strip_prefix (stream_segment_key_prefix p) key of
        None \<Rightarrow> None
      | Some b \<Rightarrow> parse_u64 b)"

definition find_segment :: "string \<Rightarrow> nat \<Rightarrow> stream_table \<Rightarrow> (nat \<times> SegmentRecord) option" where
  "find_segment p seq t =
     (let rows = rows_between (stream_segment_key_prefix p) (stream_segment_key p seq) t in
      if rows = [] then None
      else case (segment_base p (fst (last rows)), decode_segment_record (snd (last rows))) of
             (Some base, Some r) \<Rightarrow> if base \<le> seq \<and> seq < sr_end r then Some (base, r) else None
           | _ \<Rightarrow> None)"

definition segment_rows :: "string \<Rightarrow> stream_table \<Rightarrow> stream_table" where
  "segment_rows p t =
     rows_between (stream_segment_key_prefix p) (stream_segment_key_prefix p @ [CHR 0xFF]) t"

definition list_segments :: "string \<Rightarrow> stream_table \<Rightarrow> (nat \<times> SegmentRecord) list" where
  "list_segments p t =
     List.map_filter
       (\<lambda>e. case (segment_base p (fst e), decode_segment_record (snd e)) of
               (Some base, Some r) \<Rightarrow> Some (base, r)
             | _ \<Rightarrow> None)
       (segment_rows p t)"

section \<open>Appliers\<close>

definition apply_append :: "string \<Rightarrow> bytes \<Rightarrow> stream_table \<Rightarrow> CommandResult \<times> stream_table" where
  "apply_append p data t =
     (let seq = stream_tail p t in
      (Value (be_bytes 8 seq),
       om_put (stream_tail_key p) (be_bytes 8 (seq + 1)) (om_put (stream_entry_key p seq) data t)))"

definition apply_seal ::
  "string \<Rightarrow> nat \<Rightarrow> nat \<Rightarrow> string \<Rightarrow> string \<Rightarrow> nat \<Rightarrow> stream_table \<Rightarrow> CommandResult \<times> stream_table" where
  "apply_seal p base endv content_id origin sz t =
     (if base \<noteq> stream_floor p t \<or> endv \<le> base \<or> stream_tail p t < endv then (ErrorResult StaleSeal, t)
      else let r = \<lparr>sr_end = endv, sr_size = sz, sr_origin = origin, sr_content_id = content_id\<rparr>;
               t1 = om_put (stream_segment_key p base) (encode_segment_record r) t;
               t2 = fold om_del (map (stream_entry_key p) [base..<endv]) t1
           in (Success, om_put (stream_floor_key p) (be_bytes 8 endv) t2))"

definition trimmed_keys :: "string \<Rightarrow> nat \<Rightarrow> stream_table \<Rightarrow> string list" where
  "trimmed_keys p up_to t =
     List.map_filter
       (\<lambda>e. case decode_segment_record (snd e) of
               Some r \<Rightarrow> if sr_end r \<le> up_to then Some (fst e) else None
             | None \<Rightarrow> None)
       (segment_rows p t)"

definition apply_trim :: "string \<Rightarrow> nat \<Rightarrow> stream_table \<Rightarrow> CommandResult \<times> stream_table" where
  "apply_trim p up_to t =
     (if up_to \<le> stream_earliest p t \<or> stream_floor p t < up_to then (ErrorResult StaleTrim, t)
      else (Success,
            om_put (stream_earliest_key p) (be_bytes 8 up_to) (fold om_del (trimmed_keys p up_to t) t)))"

section \<open>The keys of a stream\<close>

definition stream_prefix_ok :: "string \<Rightarrow> bool" where
  "stream_prefix_ok p \<longleftrightarrow> starts_with p ''/'' \<and> ends_with p ''/''"

text \<open>Neither stream lies below the other.\<close>

definition unnested :: "string \<Rightarrow> string \<Rightarrow> bool" where
  "unnested p q \<longleftrightarrow> \<not> starts_with p q \<and> \<not> starts_with q p"

definition own_key :: "string \<Rightarrow> string \<Rightarrow> bool" where
  "own_key p k \<longleftrightarrow>
     k = stream_tail_key p \<or> k = stream_floor_key p \<or> k = stream_earliest_key p \<or>
     (\<exists>s. k = stream_entry_key p s) \<or> starts_with k (stream_segment_key_prefix p)"

lemmas stream_key_defs =
  stream_tail_key_def stream_floor_key_def stream_earliest_key_def
  stream_segment_key_def stream_segment_key_prefix_def stream_entry_key_def

lemma prefix_ok_cases:
  assumes "stream_prefix_ok p"
  obtains r where "p = CHR ''/'' # r"
  using assms by (auto simp: stream_prefix_ok_def str_simps)

lemma prefix_ok_last:
  assumes "stream_prefix_ok p"
  obtains r where "p = r @ ''/''"
  using assms by (auto simp: stream_prefix_ok_def str_simps)

lemma digits_no_slash: "list_all is_digit s \<Longrightarrow> CHR ''/'' \<notin> set s"
  by (auto simp: list_all_iff is_digit_def)

lemma delimited_append_eq:
  assumes "stream_prefix_ok p" and "stream_prefix_ok q"
    and "CHR ''/'' \<notin> set a" and "CHR ''/'' \<notin> set b"
  shows "p @ a = q @ b \<longleftrightarrow> p = q \<and> a = b"
proof
  assume *: "p @ a = q @ b"
  obtain x y where xy: "p = x @ ''/''" "q = y @ ''/''"
    using assms(1,2) prefix_ok_last by metis
  have "rfind (CHR ''/'') (p @ a) = Some (length x)" "rfind (CHR ''/'') (q @ b) = Some (length y)"
    using assms(3,4) by (simp_all add: xy)
  then have "length p = length q"
    using * xy by simp
  then show "p = q \<and> a = b"
    using * by simp
qed simp

lemma delimited_starts_with:
  assumes "stream_prefix_ok p" and "CHR ''/'' \<notin> set b"
  shows "starts_with (q @ b) p \<longleftrightarrow> starts_with q p"
proof
  assume "starts_with (q @ b) p"
  then obtain r where r: "q @ b = p @ r"
    by (auto simp: str_simps)
  obtain x where x: "p = x @ ''/''"
    using assms(1) by (rule prefix_ok_last)
  obtain us where us: "q = p @ us \<or> p = q @ us \<and> b = us @ r"
    using r by (auto simp: append_eq_append_conv2)
  show "starts_with q p"
  proof (cases "p = q @ us \<and> b = us @ r \<and> us \<noteq> []")
    case 2: True
    then have "CHR ''/'' = last us"
      using x by (metis last_appendR last_snoc)
    then have "CHR ''/'' \<in> set b"
      using 2 by simp
    then show ?thesis using assms(2) by simp
  qed (use us in auto)
qed (auto simp: str_simps)

lemma entry_key_eq [stream_keys]:
  "stream_prefix_ok p \<Longrightarrow> stream_prefix_ok q \<Longrightarrow>
     stream_entry_key p i = stream_entry_key q j \<longleftrightarrow> p = q \<and> i = j"
  using delimited_append_eq [OF _ _ digits_no_slash digits_no_slash, of p q "dec_digits i" "dec_digits j"]
  by (simp add: stream_entry_key_def dec_digits_digits)

lemma entry_key_neq [stream_keys]:
  assumes "stream_prefix_ok p"
  shows "stream_entry_key p i \<noteq> stream_tail_key q" "stream_entry_key p i \<noteq> stream_floor_key q"
    "stream_entry_key p i \<noteq> stream_earliest_key q" "stream_tail_key q \<noteq> stream_entry_key p i"
    "stream_floor_key q \<noteq> stream_entry_key p i" "stream_earliest_key q \<noteq> stream_entry_key p i"
    "\<not> starts_with (stream_entry_key p i) (stream_segment_key_prefix q)"
    "stream_segment_key q b \<noteq> stream_entry_key p i" "stream_entry_key p i \<noteq> stream_segment_key q b"
proof -
  obtain r where "p = CHR ''/'' # r"
    using assms by (rule prefix_ok_cases)
  then show "stream_entry_key p i \<noteq> stream_tail_key q" "stream_entry_key p i \<noteq> stream_floor_key q"
    "stream_entry_key p i \<noteq> stream_earliest_key q" "stream_tail_key q \<noteq> stream_entry_key p i"
    "stream_floor_key q \<noteq> stream_entry_key p i" "stream_earliest_key q \<noteq> stream_entry_key p i"
    "\<not> starts_with (stream_entry_key p i) (stream_segment_key_prefix q)"
    "stream_segment_key q b \<noteq> stream_entry_key p i" "stream_entry_key p i \<noteq> stream_segment_key q b"
    by (simp_all add: stream_key_defs starts_with_def)
qed

lemma cursor_key_neq [stream_keys]:
  "stream_tail_key p \<noteq> stream_floor_key q" "stream_tail_key p \<noteq> stream_earliest_key q"
  "stream_floor_key p \<noteq> stream_tail_key q" "stream_floor_key p \<noteq> stream_earliest_key q"
  "stream_earliest_key p \<noteq> stream_tail_key q" "stream_earliest_key p \<noteq> stream_floor_key q"
  "\<not> starts_with (stream_tail_key p) (stream_segment_key_prefix q)"
  "\<not> starts_with (stream_floor_key p) (stream_segment_key_prefix q)"
  "\<not> starts_with (stream_earliest_key p) (stream_segment_key_prefix q)"
  "stream_segment_key q b \<noteq> stream_tail_key p" "stream_segment_key q b \<noteq> stream_floor_key p"
  "stream_segment_key q b \<noteq> stream_earliest_key p" "stream_tail_key p \<noteq> stream_segment_key q b"
  "stream_floor_key p \<noteq> stream_segment_key q b" "stream_earliest_key p \<noteq> stream_segment_key q b"
  by (simp_all add: stream_key_defs starts_with_def)

lemma cursor_key_eq [stream_keys]:
  "stream_tail_key p = stream_tail_key q \<longleftrightarrow> p = q"
  "stream_floor_key p = stream_floor_key q \<longleftrightarrow> p = q"
  "stream_earliest_key p = stream_earliest_key q \<longleftrightarrow> p = q"
  by (auto simp: stream_key_defs)

lemma segment_key_eq [stream_keys]: "stream_segment_key p a = stream_segment_key p b \<longleftrightarrow> a = b"
  by (simp add: stream_key_defs pad20_inj)

lemma segment_key_own [stream_keys]: "starts_with (stream_segment_key p b) (stream_segment_key_prefix p)"
  by (simp add: stream_segment_key_def)

lemma segment_prefix_starts:
  "starts_with (stream_segment_key_prefix q @ b) (stream_segment_key_prefix p) \<longleftrightarrow> starts_with (q @ b) p"
  by (auto simp: stream_key_defs str_simps)

lemma unnested_own_key:
  assumes p: "stream_prefix_ok p" and q: "stream_prefix_ok q" and pq: "unnested p q" and k: "own_key q k"
  shows "\<not> own_key p k"
proof -
  have ne: "p \<noteq> q" "q \<noteq> p" and np: "\<not> starts_with q p" "\<not> starts_with p q"
    using pq by (auto simp: unnested_def)
  have "q @ x \<noteq> p @ y" for x y
    using np by (auto simp: str_simps append_eq_append_conv2)
  then have seg: "\<not> starts_with k (stream_segment_key_prefix p)" if "starts_with k (stream_segment_key_prefix q)"
    using that by (auto simp: stream_key_defs str_simps)
  show ?thesis
    using k ne seg p q unfolding own_key_def by (elim disjE exE) (auto simp: stream_keys)
qed

section \<open>One append-only log per stream\<close>

text \<open>
  What the table holds for the stream \<^term>\<open>p\<close>: all entries \<^term>\<open>es\<close> ever
  appended, those from the floor on as hot rows; the sealed segments \<^term>\<open>segs\<close>
  still indexed, which follow each other up to the floor; and \<^term>\<open>e\<close>, the
  earliest offset still readable.
\<close>

fun seg_chain :: "nat \<Rightarrow> (nat \<times> SegmentRecord) list \<Rightarrow> nat \<Rightarrow> bool" where
  "seg_chain b [] f \<longleftrightarrow> b = f"
| "seg_chain b ((c, r) # segs) f \<longleftrightarrow> c = b \<and> b < sr_end r \<and> seg_chain (sr_end r) segs f"

definition segment_row :: "string \<Rightarrow> nat \<times> SegmentRecord \<Rightarrow> string \<times> bytes" where
  "segment_row p x = (stream_segment_key p (fst x), encode_segment_record (snd x))"

abbreviation is_segment_key :: "string \<Rightarrow> string \<Rightarrow> bool" where
  "is_segment_key p k \<equiv> starts_with k (stream_segment_key_prefix p)"

definition hot_rows :: "string \<Rightarrow> stream_table \<Rightarrow> bytes list \<Rightarrow> nat \<Rightarrow> bool" where
  "hot_rows p t es f \<longleftrightarrow>
     (\<forall>i. map_of t (stream_entry_key p i) = (if f \<le> i \<and> i < length es then Some (es ! i) else None))"

definition log_rep ::
  "string \<Rightarrow> stream_table \<Rightarrow> bytes list \<Rightarrow> (nat \<times> SegmentRecord) list \<Rightarrow> nat \<Rightarrow> bool" where
  "log_rep p t es segs e \<longleftrightarrow>
     om_wf t \<and> stream_prefix_ok p \<and> length es < 2 ^ 64 \<and>
     stream_tail p t = length es \<and> stream_floor p t \<le> length es \<and>
     stream_earliest p t = e \<and> e \<le> stream_floor p t \<and>
     hot_rows p t es (stream_floor p t) \<and>
     filter (\<lambda>x. is_segment_key p (fst x)) t = map (segment_row p) segs \<and>
     (\<forall>x \<in> set segs. segment_record_ok (snd x) \<and> e < sr_end (snd x)) \<and>
     (\<exists>b \<le> e. seg_chain b segs (stream_floor p t))"

lemma log_repD:
  assumes "log_rep p t es segs e"
  shows "om_wf t" "stream_prefix_ok p" "length es < 2 ^ 64" "stream_tail p t = length es"
    "stream_floor p t \<le> length es" "stream_earliest p t = e" "e \<le> stream_floor p t"
    "hot_rows p t es (stream_floor p t)"
    "filter (\<lambda>x. is_segment_key p (fst x)) t = map (segment_row p) segs"
    "\<forall>x \<in> set segs. segment_record_ok (snd x) \<and> e < sr_end (snd x)"
    "\<exists>b \<le> e. seg_chain b segs (stream_floor p t)"
  using assms unfolding log_rep_def by simp_all

lemma seg_chain_bounds:
  "seg_chain b segs f \<Longrightarrow> b \<le> f \<and> (\<forall>x \<in> set segs. b \<le> fst x \<and> fst x < sr_end (snd x) \<and> sr_end (snd x) \<le> f)"
  by (induction b segs f rule: seg_chain.induct) force+

lemma seg_chain_snoc:
  "seg_chain b segs f \<Longrightarrow> f < sr_end r \<Longrightarrow> seg_chain b (segs @ [(f, r)]) (sr_end r)"
  by (induction b segs f rule: seg_chain.induct) auto

lemma seg_chain_trim:
  "seg_chain b segs f \<Longrightarrow> b \<le> n \<Longrightarrow> n \<le> f \<Longrightarrow>
     \<exists>b' \<le> n. seg_chain b' (filter (\<lambda>x. n < sr_end (snd x)) segs) f"
proof (induction b segs f rule: seg_chain.induct)
  case (2 b c r segs f)
  show ?case
  proof (cases "n < sr_end r")
    case True
    then have "\<forall>x \<in> set segs. n < sr_end (snd x)"
      using seg_chain_bounds [of "sr_end r" segs f] 2(2) by force
    then show ?thesis
      using True 2(2,3) by (auto simp: filter_id_conv)
  qed (use 2 in auto)
qed auto

lemma seg_chain_covers:
  "seg_chain b segs f \<Longrightarrow> b \<le> n \<Longrightarrow> n < f \<Longrightarrow>
     \<exists>c r xs. filter (\<lambda>x. fst x \<le> n) segs = xs @ [(c, r)] \<and> c \<le> n \<and> n < sr_end r"
proof (induction b segs f rule: seg_chain.induct)
  case (2 b c r segs f)
  show ?case
  proof (cases "n < sr_end r")
    case True
    then have "\<forall>x \<in> set segs. \<not> fst x \<le> n"
      using seg_chain_bounds [of "sr_end r" segs f] 2(2) by force
    then show ?thesis
      using True 2(2,3) by auto
  next
    case False
    then obtain c' r' xs where
      "filter (\<lambda>x. fst x \<le> n) segs = xs @ [(c', r')]" "c' \<le> n" "n < sr_end r'"
      using 2 by auto
    then show ?thesis
      using 2(2,3) by auto
  qed
qed simp

text \<open>The scans see exactly the segments of the stream.\<close>

lemma log_rep_base_lt:
  assumes "log_rep p t es segs e" and "x \<in> set segs"
  shows "fst x < 2 ^ 64"
  using log_repD(3,5,11) [OF assms(1)] seg_chain_bounds assms(2) by fastforce

lemma segment_row_in:
  assumes "log_rep p t es segs e"
  shows "x \<in> set t \<and> is_segment_key p (fst x) \<longleftrightarrow> x \<in> segment_row p ` set segs"
  using arg_cong [OF log_repD(9) [OF assms], of set] by auto

lemma digits_below_ff: "list_all is_digit s \<Longrightarrow> s \<le> [CHR 0xFF]"
  by (cases s) (auto simp: is_digit_def less_char_def less_le)

lemma rows_between_segments:
  assumes rep: "log_rep p t es segs e"
    and sel: "\<And>x. x \<in> set segs \<Longrightarrow> pad20 (fst x) \<le> w \<longleftrightarrow> P x"
    and own: "\<And>k. stream_segment_key_prefix p \<le> k \<Longrightarrow> k \<le> stream_segment_key_prefix p @ w \<Longrightarrow> is_segment_key p k"
  shows "rows_between (stream_segment_key_prefix p) (stream_segment_key_prefix p @ w) t =
     map (segment_row p) (filter P segs)"
proof -
  let ?sp = "stream_segment_key_prefix p"
  have "rows_between ?sp (?sp @ w) t = filter (\<lambda>x. fst x \<le> ?sp @ w) (filter (\<lambda>x. is_segment_key p (fst x)) t)"
  proof -
    have "(?sp \<le> k \<and> k \<le> ?sp @ w) = (is_segment_key p k \<and> k \<le> ?sp @ w)" for k
      using own [of k] list_le_same_prefix [of ?sp "[]"] by (auto simp: str_simps)
    then show ?thesis
      by (simp add: rows_between_def)
  qed
  also have "\<dots> = map (segment_row p) (filter P segs)"
  proof -
    have "filter ((\<lambda>x. fst x \<le> ?sp @ w) \<circ> segment_row p) segs = filter P segs"
      using sel by (intro filter_cong) (simp_all add: segment_row_def stream_segment_key_def)
    then show ?thesis
      by (simp add: log_repD(9) [OF rep] filter_map)
  qed
  finally show ?thesis .
qed

lemma segment_rows_eq:
  assumes "log_rep p t es segs e"
  shows "segment_rows p t = map (segment_row p) segs"
proof -
  have "segment_rows p t = map (segment_row p) (filter (\<lambda>_. True) segs)"
    unfolding segment_rows_def
  proof (rule rows_between_segments [OF assms])
    show "pad20 (fst x) \<le> [CHR 0xFF] \<longleftrightarrow> True" for x
      by (simp add: digits_below_ff pad20_digits)
    show "is_segment_key p k" if "stream_segment_key_prefix p \<le> k"
      and "k \<le> stream_segment_key_prefix p @ [CHR 0xFF]" for k
      using that prefix_range [of "stream_segment_key_prefix p" k "CHR 0xFF"] by auto
  qed
  then show ?thesis by simp
qed

lemma segment_base_key: "b < 2 ^ 64 \<Longrightarrow> segment_base p (stream_segment_key p b) = Some b"
proof -
  assume "b < 2 ^ 64"
  moreover have "strip_prefix (stream_segment_key_prefix p) (stream_segment_key p b) = Some (pad20 b)"
    by (simp add: strip_prefix_Some stream_segment_key_def)
  ultimately show ?thesis
    by (simp add: segment_base_def parse_pad20)
qed

lemma list_segments_eq:
  assumes "log_rep p t es segs e"
  shows "list_segments p t = segs"
proof -
  let ?f = "\<lambda>e. case (segment_base p (fst e), decode_segment_record (snd e)) of
               (Some base, Some r) \<Rightarrow> Some (base, r)
             | _ \<Rightarrow> None"
  have row: "?f (segment_row p x) = Some x" if "x \<in> set segs" for x
    using that log_repD(10) [OF assms] log_rep_base_lt [OF assms]
    by (simp add: segment_row_def segment_base_key segment_record_round_trip)
  have "List.map_filter ?f (map (segment_row p) xs) = xs" if "set xs \<subseteq> set segs" for xs
    using that row by (induction xs) (auto simp: map_filter_simps)
  then show ?thesis
    unfolding list_segments_def segment_rows_eq [OF assms] by simp
qed

lemma find_segment_eq:
  assumes rep: "log_rep p t es segs e" and n64: "n < 2 ^ 64"
  shows "find_segment p n t =
     (let xs = filter (\<lambda>x. fst x \<le> n) segs in
      if xs \<noteq> [] \<and> n < sr_end (snd (last xs)) then Some (last xs) else None)"
proof -
  let ?sp = "stream_segment_key_prefix p" and ?xs = "filter (\<lambda>x. fst x \<le> n) segs"
  have rows: "rows_between ?sp (stream_segment_key p n) t = map (segment_row p) ?xs"
    unfolding stream_segment_key_def
  proof (rule rows_between_segments [OF rep])
    show "pad20 (fst x) \<le> pad20 n \<longleftrightarrow> fst x \<le> n" if "x \<in> set segs" for x
      using pad20_less [OF n64 log_rep_base_lt [OF rep that]] by (simp add: not_less [symmetric])
    show "is_segment_key p k" if "?sp \<le> k" and "k \<le> ?sp @ pad20 n" for k
    proof -
      have "?sp @ pad20 n \<le> ?sp @ [CHR 0xFF]"
        by (simp add: digits_below_ff pad20_digits)
      with that(2) have "k \<le> ?sp @ [CHR 0xFF]"
        by (rule order_trans)
      then show ?thesis
        using that(1) prefix_range [of ?sp k "CHR 0xFF"] by auto
    qed
  qed
  show ?thesis
  proof (cases "?xs = []")
    case False
    then have last: "last (map (segment_row p) ?xs) = segment_row p (last ?xs)"
      by (simp add: last_map)
    have x: "last ?xs \<in> set segs" "fst (last ?xs) \<le> n"
      using last_in_set [OF False] by auto
    then have "segment_base p (stream_segment_key p (fst (last ?xs))) = Some (fst (last ?xs))"
      "decode_segment_record (encode_segment_record (snd (last ?xs))) = Some (snd (last ?xs))"
      using log_repD(10) [OF rep] log_rep_base_lt [OF rep] segment_base_key segment_record_round_trip
      by blast+
    then show ?thesis
      unfolding find_segment_def rows Let_def using False x(2) last by (simp add: segment_row_def)
  qed (simp add: find_segment_def rows)
qed

lemma find_segment_sound:
  assumes "log_rep p t es segs e" and "n < 2 ^ 64" and "find_segment p n t = Some x"
  shows "x \<in> set segs" "fst x \<le> n" "n < sr_end (snd x)"
proof -
  let ?xs = "filter (\<lambda>x. fst x \<le> n) segs"
  have x: "?xs \<noteq> []" "x = last ?xs" "n < sr_end (snd x)"
    using assms(3) find_segment_eq [OF assms(1,2)] by (auto simp: Let_def split: if_splits)
  then have "x \<in> set ?xs"
    by (metis last_in_set)
  then show "x \<in> set segs" "fst x \<le> n" "n < sr_end (snd x)"
    using x(3) by auto
qed

lemma find_segment_covers:
  assumes rep: "log_rep p t es segs e" and n: "e \<le> n" "n < stream_floor p t"
  obtains x where "find_segment p n t = Some x" "x \<in> set segs" "fst x \<le> n" "n < sr_end (snd x)"
proof -
  have n64: "n < 2 ^ 64"
    using n log_repD(3,5) [OF rep] by linarith
  obtain b where "b \<le> e" "seg_chain b segs (stream_floor p t)"
    using log_repD(11) [OF rep] by blast
  then obtain c r xs where "filter (\<lambda>x. fst x \<le> n) segs = xs @ [(c, r)]" "n < sr_end r"
    using seg_chain_covers [of b segs "stream_floor p t" n] n by auto
  then have "find_segment p n t = Some (c, r)"
    unfolding find_segment_eq [OF rep n64] Let_def by simp
  then show thesis
    using that find_segment_sound [OF rep n64] by blast
qed

section \<open>The appliers refine operations on the log\<close>

lemma stored_u64_put [simp]:
  "n < 2 ^ 64 \<Longrightarrow> stored_u64 k (om_put k (be_bytes 8 n) t) = n"
  by (simp add: stored_u64_def)

lemma stored_u64_put_other [simp]: "k' \<noteq> k \<Longrightarrow> stored_u64 k (om_put k' v t) = stored_u64 k t"
  by (simp add: stored_u64_def)

lemma stored_u64_dels [simp]: "k \<notin> set ks \<Longrightarrow> stored_u64 k (fold om_del ks t) = stored_u64 k t"
  by (simp add: stored_u64_def om_dels_lookup)

lemmas segment_put_out = om_filter_put_out [where P = "is_segment_key p" for p]
lemmas segment_put_in = om_filter_put_in [where P = "is_segment_key p" for p]

lemmas stream_cursors = stream_tail_def stream_floor_def stream_earliest_def

lemma apply_append_rep:
  assumes rep: "log_rep p t es segs e" and len: "length es + 1 < 2 ^ 64"
  shows "fst (apply_append p d t) = Value (be_bytes 8 (length es))"
    and "log_rep p (snd (apply_append p d t)) (es @ [d]) segs e"
proof -
  note D = log_repD [OF rep]
  let ?t = "snd (apply_append p d t)"
  show "fst (apply_append p d t) = Value (be_bytes 8 (length es))"
    by (simp add: apply_append_def D(4) Let_def)
  have t: "?t = om_put (stream_tail_key p) (be_bytes 8 (length es + 1)) (om_put (stream_entry_key p (length es)) d t)"
    by (simp add: apply_append_def D(4) Let_def)
  have cur: "stream_tail p ?t = length es + 1" "stream_floor p ?t = stream_floor p t"
    "stream_earliest p ?t = stream_earliest p t"
    unfolding t stream_cursors using len D(2) by (simp_all add: stream_keys)
  have hot: "hot_rows p ?t (es @ [d]) (stream_floor p t)"
    using D(2,5,8) unfolding t hot_rows_def by (auto simp: stream_keys nth_append)
  have seg: "filter (\<lambda>x. is_segment_key p (fst x)) ?t = map (segment_row p) segs"
    unfolding t using D(2,9) by (simp add: segment_put_out stream_keys)
  have wf: "om_wf ?t"
    unfolding t using D(1) by simp
  show "log_rep p ?t (es @ [d]) segs e"
    unfolding log_rep_def cur using wf hot seg D len by simp
qed

lemma apply_seal_stale:
  "base \<noteq> stream_floor p t \<or> endv \<le> base \<or> stream_tail p t < endv \<Longrightarrow>
     apply_seal p base endv cid origin sz t = (ErrorResult StaleSeal, t)"
  by (simp add: apply_seal_def)

lemma apply_seal_rep:
  assumes rep: "log_rep p t es segs e"
    and gate: "base = stream_floor p t" "base < endv" "endv \<le> length es"
    and r: "r = \<lparr>sr_end = endv, sr_size = sz, sr_origin = origin, sr_content_id = cid\<rparr>" "segment_record_ok r"
  shows "fst (apply_seal p base endv cid origin sz t) = Success"
    and "log_rep p (snd (apply_seal p base endv cid origin sz t)) es (segs @ [(base, r)]) e"
    and "stream_floor p (snd (apply_seal p base endv cid origin sz t)) = endv"
proof -
  note D = log_repD [OF rep]
  let ?ks = "map (stream_entry_key p) [base..<endv]"
  let ?t = "snd (apply_seal p base endv cid origin sz t)"
  have gate': "\<not> (base \<noteq> stream_floor p t \<or> endv \<le> base \<or> stream_tail p t < endv)"
    using gate D(4) by simp
  show "fst (apply_seal p base endv cid origin sz t) = Success"
    using gate' by (simp add: apply_seal_def Let_def)
  have t: "?t = om_put (stream_floor_key p) (be_bytes 8 endv)
      (fold om_del ?ks (om_put (stream_segment_key p base) (encode_segment_record r) t))"
    using gate' by (simp add: apply_seal_def Let_def r(1))
  have ks: "stream_tail_key p \<notin> set ?ks" "stream_floor_key p \<notin> set ?ks" "stream_earliest_key p \<notin> set ?ks"
    using D(2) by (auto simp: stream_keys)
  have end64: "endv < 2 ^ 64"
    using gate(3) D(3) by simp
  have cur: "stream_tail p ?t = length es" "stream_floor p ?t = endv" "stream_earliest p ?t = e"
    unfolding t stream_cursors using ks end64 D(4,6)
    by (simp_all add: stream_keys stream_tail_def stream_earliest_def)
  show "stream_floor p ?t = endv"
    by (rule cur(2))
  have hot: "hot_rows p ?t es endv"
    unfolding hot_rows_def
  proof
    fix i
    have "map_of ?t (stream_entry_key p i) = (if i \<in> set [base..<endv] then None else map_of t (stream_entry_key p i))"
      unfolding t using D(2) by (auto simp: om_dels_lookup stream_keys)
    then show "map_of ?t (stream_entry_key p i) = (if endv \<le> i \<and> i < length es then Some (es ! i) else None)"
      using D(8) gate by (simp add: hot_rows_def)
  qed
  have above: "\<forall>x \<in> set (map (segment_row p) segs). fst x < stream_segment_key p base"
  proof
    fix x
    assume "x \<in> set (map (segment_row p) segs)"
    then obtain y where y: "y \<in> set segs" "x = segment_row p y"
      by auto
    then have "fst y < base"
      using D(11) seg_chain_bounds gate(1) by fastforce
    then have "pad20 (fst y) < pad20 base"
      using pad20_less [of "fst y" base] end64 gate(2) by simp
    then show "fst x < stream_segment_key p base"
      by (simp add: y(2) segment_row_def stream_segment_key_def)
  qed
  have "filter (\<lambda>x. is_segment_key p (fst x)) ?t =
      fold om_del ?ks (map (segment_row p) (segs @ [(base, r)]))"
    unfolding t using D(1,2,9) om_put_above [OF above]
    by (simp add: segment_put_out segment_put_in om_filter_dels stream_keys segment_row_def)
  also have "\<dots> = map (segment_row p) (segs @ [(base, r)])"
    using D(2) by (intro om_dels_out) (auto simp: segment_row_def stream_keys)
  finally have seg: "filter (\<lambda>x. is_segment_key p (fst x)) ?t = map (segment_row p) (segs @ [(base, r)])" .
  have wf: "om_wf ?t"
    unfolding t using D(1) by (simp add: om_dels_wf)
  have chain: "\<exists>b \<le> e. seg_chain b (segs @ [(base, r)]) endv"
    using D(11) seg_chain_snoc [of _ segs base r] gate r(1) by fastforce
  have recs: "\<forall>x \<in> set (segs @ [(base, r)]). segment_record_ok (snd x) \<and> e < sr_end (snd x)"
    using D(7,10) gate r by auto
  show "log_rep p ?t es (segs @ [(base, r)]) e"
    unfolding log_rep_def cur using wf hot seg D(2,3,7) gate chain recs by simp
qed

lemma trimmed_keys_eq:
  assumes "log_rep p t es segs e"
  shows "trimmed_keys p n t = map (\<lambda>x. stream_segment_key p (fst x)) (filter (\<lambda>x. sr_end (snd x) \<le> n) segs)"
proof -
  let ?f = "\<lambda>x. case decode_segment_record (snd x) of
               Some r \<Rightarrow> if sr_end r \<le> n then Some (fst x) else None
             | None \<Rightarrow> None"
  have row: "?f (segment_row p x) = (if sr_end (snd x) \<le> n then Some (stream_segment_key p (fst x)) else None)"
    if "x \<in> set segs" for x
    using that log_repD(10) [OF assms] by (simp add: segment_row_def segment_record_round_trip)
  have "List.map_filter ?f (map (segment_row p) xs) =
      map (\<lambda>x. stream_segment_key p (fst x)) (filter (\<lambda>x. sr_end (snd x) \<le> n) xs)"
    if "set xs \<subseteq> set segs" for xs
    using that row by (induction xs) (auto simp: map_filter_simps)
  then show ?thesis
    unfolding trimmed_keys_def segment_rows_eq [OF assms] by simp
qed

lemma apply_trim_stale:
  "n \<le> stream_earliest p t \<or> stream_floor p t < n \<Longrightarrow> apply_trim p n t = (ErrorResult StaleTrim, t)"
  by (simp add: apply_trim_def)

lemma apply_trim_rep:
  assumes rep: "log_rep p t es segs e" and gate: "e < n" "n \<le> stream_floor p t"
  shows "fst (apply_trim p n t) = Success"
    and "log_rep p (snd (apply_trim p n t)) es (filter (\<lambda>x. n < sr_end (snd x)) segs) n"
    and "stream_floor p (snd (apply_trim p n t)) = stream_floor p t"
proof -
  note D = log_repD [OF rep]
  let ?ks = "map (\<lambda>x. stream_segment_key p (fst x)) (filter (\<lambda>x. sr_end (snd x) \<le> n) segs)"
  let ?t = "snd (apply_trim p n t)"
  have gate': "\<not> (n \<le> stream_earliest p t \<or> stream_floor p t < n)"
    using gate D(6) by simp
  show "fst (apply_trim p n t) = Success"
    using gate' by (simp add: apply_trim_def)
  have t: "?t = om_put (stream_earliest_key p) (be_bytes 8 n) (fold om_del ?ks t)"
    using gate' by (simp add: apply_trim_def trimmed_keys_eq [OF rep])
  have ks: "stream_tail_key p \<notin> set ?ks" "stream_floor_key p \<notin> set ?ks" "stream_entry_key p i \<notin> set ?ks" for i
    using D(2) by (auto simp: stream_keys)
  have n64: "n < 2 ^ 64"
    using gate(2) D(3,5) by simp
  have cur: "stream_tail p ?t = length es" "stream_floor p ?t = stream_floor p t" "stream_earliest p ?t = n"
    unfolding t stream_cursors using ks n64 D(4) by (simp_all add: stream_keys stream_tail_def)
  show "stream_floor p ?t = stream_floor p t"
    by (rule cur(2))
  have hot: "hot_rows p ?t es (stream_floor p t)"
    using D(2,8) ks unfolding t hot_rows_def by (simp add: om_dels_lookup stream_keys)
  have key: "stream_segment_key p (fst x) \<in> set ?ks \<longleftrightarrow> sr_end (snd x) \<le> n" if "x \<in> set segs" for x
  proof -
    have "distinct (map fst (map (segment_row p) segs))"
      using om_wf_distinct [OF om_filter_wf [OF D(1)]] D(9) by metis
    then have inj: "inj_on (\<lambda>x. stream_segment_key p (fst x)) (set segs)"
      by (simp add: distinct_map segment_row_def comp_def)
    then show ?thesis
      using that inj_on_image_mem_iff [OF inj, of x "set (filter (\<lambda>x. sr_end (snd x) \<le> n) segs)"] by auto
  qed
  have "filter (\<lambda>x. is_segment_key p (fst x)) ?t = fold om_del ?ks (map (segment_row p) segs)"
    unfolding t using D(9) by (simp add: segment_put_out om_filter_dels stream_keys)
  also have "\<dots> = filter (\<lambda>x. fst x \<notin> set ?ks) (map (segment_row p) segs)"
    by (rule om_dels_filter)
  also have "\<dots> = map (segment_row p) (filter (\<lambda>x. n < sr_end (snd x)) segs)"
    using key by (auto simp: filter_map segment_row_def not_le intro!: filter_cong arg_cong [of _ _ "map _"])
  finally have seg: "filter (\<lambda>x. is_segment_key p (fst x)) ?t =
      map (segment_row p) (filter (\<lambda>x. n < sr_end (snd x)) segs)" .
  have wf: "om_wf ?t"
    unfolding t using D(1) by (simp add: om_dels_wf)
  have chain: "\<exists>b \<le> n. seg_chain b (filter (\<lambda>x. n < sr_end (snd x)) segs) (stream_floor p t)"
    using D(11) seg_chain_trim gate by (meson le_trans less_imp_le)
  show "log_rep p ?t es (filter (\<lambda>x. n < sr_end (snd x)) segs) n"
    unfolding log_rep_def cur using wf hot seg D(2,3,5,10) gate chain by simp
qed

section \<open>Streams that do not nest are independent\<close>

lemma own_keys [stream_keys]:
  "own_key p (stream_tail_key p)" "own_key p (stream_floor_key p)" "own_key p (stream_earliest_key p)"
  "own_key p (stream_entry_key p i)" "own_key p (stream_segment_key p b)"
  by (auto simp: own_key_def segment_key_own)

lemma rows_lookup:
  assumes "filter (\<lambda>x. own_key p (fst x)) t' = filter (\<lambda>x. own_key p (fst x)) t" and "own_key p k"
  shows "map_of t' k = map_of t k"
  using map_of_filter_key [of "own_key p" k t, OF assms(2)] map_of_filter_key [of "own_key p" k t', OF assms(2)]
    assms(1) by simp

lemma rows_cursors:
  assumes "filter (\<lambda>x. own_key p (fst x)) t' = filter (\<lambda>x. own_key p (fst x)) t"
  shows "stream_tail p t' = stream_tail p t \<and> stream_floor p t' = stream_floor p t \<and>
    stream_earliest p t' = stream_earliest p t"
  by (simp add: stream_cursors stored_u64_def rows_lookup [OF assms] own_keys)

lemma log_rep_frame:
  assumes rep: "log_rep p t es segs e" and wf: "om_wf t'"
    and rows: "filter (\<lambda>x. own_key p (fst x)) t' = filter (\<lambda>x. own_key p (fst x)) t"
  shows "log_rep p t' es segs e"
proof -
  have cur: "stream_tail p t' = stream_tail p t" "stream_floor p t' = stream_floor p t"
    "stream_earliest p t' = stream_earliest p t"
    using rows_cursors [OF rows] by simp_all
  have hot: "hot_rows p t' es f \<longleftrightarrow> hot_rows p t es f" for f
    by (simp add: hot_rows_def rows_lookup [OF rows] own_keys)
  have sub: "filter (\<lambda>x. is_segment_key p (fst x)) m =
      filter (\<lambda>x. is_segment_key p (fst x)) (filter (\<lambda>x. own_key p (fst x)) m)" for m :: stream_table
    by (simp add: own_key_def conj_commute cong: conj_cong)
  have seg: "filter (\<lambda>x. is_segment_key p (fst x)) t' = filter (\<lambda>x. is_segment_key p (fst x)) t"
    using sub [of t] sub [of t'] rows by simp
  show ?thesis
    using rep wf unfolding log_rep_def cur hot seg by simp
qed

lemmas own_put_out = om_filter_put_out [where P = "own_key p" for p]

lemma segment_rows_own: "x \<in> set (segment_rows p t) \<Longrightarrow> own_key p (fst x)"
  using prefix_range [of "stream_segment_key_prefix p" "fst x" "CHR 0xFF"]
  by (auto simp: segment_rows_def rows_between_def own_key_def)

lemma trimmed_keys_own: "k \<in> set (trimmed_keys p n t) \<Longrightarrow> own_key p k"
  using segment_rows_own
  by (fastforce simp: trimmed_keys_def map_filter_def split: option.splits if_splits)

lemma own_dels_out:
  assumes "\<forall>k \<in> set ks. \<not> P k"
  shows "filter (\<lambda>x. P (fst x)) (fold om_del ks t) = filter (\<lambda>x. P (fst x)) t"
  unfolding om_filter_dels using assms by (intro om_dels_out) auto

lemma stream_op_rows:
  assumes "stream_prefix_ok p" and "stream_prefix_ok q" and "unnested p q"
  shows "filter (\<lambda>x. own_key p (fst x)) (snd (apply_append q d t)) = filter (\<lambda>x. own_key p (fst x)) t"
    and "filter (\<lambda>x. own_key p (fst x)) (snd (apply_seal q base endv cid origin sz t)) =
      filter (\<lambda>x. own_key p (fst x)) t"
    and "filter (\<lambda>x. own_key p (fst x)) (snd (apply_trim q n t)) = filter (\<lambda>x. own_key p (fst x)) t"
proof -
  have out: "\<not> own_key p k" if "own_key q k" for k
    using unnested_own_key [OF assms that] .
  have dels: "filter (\<lambda>x. own_key p (fst x)) (fold om_del ks m) = filter (\<lambda>x. own_key p (fst x)) m"
    if "\<forall>k \<in> set ks. own_key q k" for ks and m :: stream_table
    using that out by (intro own_dels_out) blast
  have entries: "filter (\<lambda>x. own_key p (fst x)) (fold om_del (map (stream_entry_key q) [b..<c]) m) =
      filter (\<lambda>x. own_key p (fst x)) m" for b c and m :: stream_table
    by (rule dels) (simp add: own_keys)
  have trimmed: "\<forall>k \<in> set (trimmed_keys q n t). own_key q k"
    using trimmed_keys_own by blast
  show "filter (\<lambda>x. own_key p (fst x)) (snd (apply_append q d t)) = filter (\<lambda>x. own_key p (fst x)) t"
    by (simp add: out own_keys apply_append_def Let_def own_put_out)
  show "filter (\<lambda>x. own_key p (fst x)) (snd (apply_seal q base endv cid origin sz t)) =
      filter (\<lambda>x. own_key p (fst x)) t"
    by (simp add: out own_keys apply_seal_def Let_def own_put_out entries)
  show "filter (\<lambda>x. own_key p (fst x)) (snd (apply_trim q n t)) = filter (\<lambda>x. own_key p (fst x)) t"
    by (simp add: out own_keys apply_trim_def own_put_out dels [OF trimmed])
qed

lemma stream_op_wf:
  "om_wf t \<Longrightarrow> om_wf (snd (apply_append q d t))"
  "om_wf t \<Longrightarrow> om_wf (snd (apply_seal q base endv cid origin sz t))"
  "om_wf t \<Longrightarrow> om_wf (snd (apply_trim q n t))"
  by (simp_all add: apply_append_def apply_seal_def apply_trim_def Let_def om_dels_wf)

lemma append_cursors:
  assumes "stream_prefix_ok p"
  shows "stream_floor q (snd (apply_append p d t)) = stream_floor q t"
    and "stream_earliest q (snd (apply_append p d t)) = stream_earliest q t"
  using assms by (simp_all add: stream_cursors apply_append_def Let_def stream_keys)

lemma seal_cursors:
  assumes "stream_prefix_ok p"
  shows "stream_earliest q (snd (apply_seal p base endv cid origin sz t)) = stream_earliest q t"
    and "q \<noteq> p \<Longrightarrow> stream_floor q (snd (apply_seal p base endv cid origin sz t)) = stream_floor q t"
proof -
  have "stream_earliest_key q \<notin> stream_entry_key p ` ns" "stream_floor_key q \<notin> stream_entry_key p ` ns" for ns
    using assms by (auto simp: stream_keys)
  then show "stream_earliest q (snd (apply_seal p base endv cid origin sz t)) = stream_earliest q t"
    "q \<noteq> p \<Longrightarrow> stream_floor q (snd (apply_seal p base endv cid origin sz t)) = stream_floor q t"
    by (simp_all add: stream_cursors apply_seal_def Let_def stream_keys)
qed

lemma trim_cursors:
  assumes "stream_prefix_ok p" and "stream_prefix_ok q" and "unnested p q"
  shows "stream_floor p (snd (apply_trim q n t)) = stream_floor p t"
    and "stream_earliest p (snd (apply_trim q n t)) = stream_earliest p t"
  using rows_cursors [OF stream_op_rows(3) [OF assms]] by simp_all

text \<open>An operation on \<^term>\<open>q\<close> leaves the log of \<^term>\<open>p\<close> and its cursors as they are.\<close>

lemma stream_op_frame:
  assumes "log_rep p t es segs e" and "stream_prefix_ok q" and "unnested p q"
  shows "log_rep p (snd (apply_append q d t)) es segs e"
    and "log_rep p (snd (apply_seal q base endv cid origin sz t)) es segs e"
    and "log_rep p (snd (apply_trim q n t)) es segs e"
  by (rule log_rep_frame [OF assms(1) stream_op_wf(1) stream_op_rows(1)]
      log_rep_frame [OF assms(1) stream_op_wf(2) stream_op_rows(2)]
      log_rep_frame [OF assms(1) stream_op_wf(3) stream_op_rows(3)];
      fact log_repD(1) [OF assms(1)] log_repD(2) [OF assms(1)] assms(2,3))+

lemma log_rep_empty: "stream_prefix_ok p \<Longrightarrow> log_rep p [] [] [] 0"
  by (simp add: log_rep_def stream_cursors stored_u64_def hot_rows_def)

end
