(* ===== verification/Wal_Stream.thy ===== *)
theory Wal_Stream
  imports Stream_Log "HOL-Library.Code_Target_Nat"
begin

text \<open>
  Durable streams as the kernel serves them (\<^verbatim>\<open>kernel/src/core/stream/wal.rs\<close> and
  \<^verbatim>\<open>kernel/src/federation/cold_segment.rs\<close>): segment blobs and their codec, the
  handle \<^verbatim>\<open>WalStreamCore\<close> with its one-segment cache, reads that fall through
  from hot rows to cold segments, the sealer and the retention trimmer, the
  content stores of the nodes, and the observer of
  \<^verbatim>\<open>raft/src/stream_retention_gc.rs\<close> that reclaims trimmed blobs.

  The content store of a node maps content ids to blobs; which id a blob gets
  is a parameter, because the backend decides it (a path for a path-addressed
  store, a hash of the bytes for a content-addressed one).  The text of an
  error keeps its fixed part and drops the numbers formatted into it.

  The main lemma: under every interleaving of appends, seals, trims, garbage
  collection and reads on any number of nodes and streams, a reader sees the
  entries of its stream in order, whether they are hot or cold.
\<close>

section \<open>Segment blobs\<close>

record SealPolicy =
  hot_window :: nat
  seal_batch :: nat

definition KEEP_FOREVER :: SealPolicy where
  "KEEP_FOREVER = \<lparr>hot_window = 1024, seal_batch = 512\<rparr>"

definition seals :: "SealPolicy \<Rightarrow> bool" where
  "seals pol \<longleftrightarrow> 0 < seal_batch pol"

definition SEGMENT_MAGIC :: bytes where
  "SEGMENT_MAGIC = string_bytes ''NXS1''"

definition encode_segment :: "nat \<Rightarrow> bytes list \<Rightarrow> bytes" where
  "encode_segment base frames =
     SEGMENT_MAGIC @ be_bytes 8 base @ be_bytes 4 (length frames) @
     concat (map (\<lambda>f. be_bytes 4 (length f)) frames) @ concat frames"

definition frame_length :: "bytes \<Rightarrow> nat \<Rightarrow> nat" where
  "frame_length blob i = be_value (take 4 (drop (16 + i * 4) blob))"

definition extract_frame :: "bytes \<Rightarrow> nat \<Rightarrow> nat \<Rightarrow> string + bytes" where
  "extract_frame blob base seq =
     (if length blob < 16 \<or> take 4 blob \<noteq> SEGMENT_MAGIC then Inl ''segment blob: bad magic / too short''
      else if be_value (take 8 (drop 4 blob)) \<noteq> base then Inl ''segment blob base != index base (wrong blob)''
      else let count = be_value (take 4 (drop 12 blob)) in
           if seq < base \<or> base + count \<le> seq then Inl ''seq out of segment range''
           else let idx = seq - base; payloads_start = 16 + count * 4 in
                if length blob < payloads_start then Inl ''segment blob: truncated length table''
                else let offset = payloads_start + sum_list (map (frame_length blob) [0..<idx]);
                         this_len = frame_length blob idx
                     in if length blob < offset + this_len then Inl ''segment blob: truncated payload''
                        else Inr (take this_len (drop offset blob)))"

lemma length_length_table: "length (concat (map (\<lambda>f. be_bytes 4 (length f)) fs)) = 4 * length fs"
  by (induction fs) auto

lemma length_table_drop:
  "i \<le> length fs \<Longrightarrow>
     drop (i * 4) (concat (map (\<lambda>f. be_bytes 4 (length f)) fs) @ rest) =
     concat (map (\<lambda>f. be_bytes 4 (length f)) (drop i fs)) @ rest"
proof (induction i arbitrary: fs)
  case (Suc i)
  then obtain f fs' where "fs = f # fs'"
    by (cases fs) auto
  then show ?case
    using Suc by simp
qed simp

lemma frame_length_encode:
  assumes "i < length frames" and "\<forall>f \<in> set frames. length f < 2 ^ 32"
  shows "frame_length (encode_segment base frames) i = length (frames ! i)"
proof -
  have "drop (16 + i * 4) (encode_segment base frames) =
      drop (i * 4) (concat (map (\<lambda>f. be_bytes 4 (length f)) frames) @ concat frames)"
    by (simp add: encode_segment_def SEGMENT_MAGIC_def)
  also have "\<dots> = concat (map (\<lambda>f. be_bytes 4 (length f)) (drop i frames)) @ concat frames"
    using assms(1) by (intro length_table_drop) simp
  also have "\<dots> = be_bytes 4 (length (frames ! i)) @
      concat (map (\<lambda>f. be_bytes 4 (length f)) (drop (Suc i) frames)) @ concat frames"
    using assms(1) by (simp add: Cons_nth_drop_Suc [symmetric])
  finally have *: "drop (16 + i * 4) (encode_segment base frames) =
      be_bytes 4 (length (frames ! i)) @
      concat (map (\<lambda>f. be_bytes 4 (length f)) (drop (Suc i) frames)) @ concat frames" .
  have "length (frames ! i) < 256 ^ 4"
    using assms by simp
  then show ?thesis
    by (simp add: frame_length_def *)
qed

lemma concat_nth_split:
  "i < length fs \<Longrightarrow>
     concat fs = concat (take i fs) @ fs ! i @ concat (drop (Suc i) fs)"
  by (metis concat.simps(2) concat_append id_take_nth_drop append_Cons append_assoc)

lemma sum_frame_lengths:
  assumes "i \<le> length frames" and "\<forall>f \<in> set frames. length f < 2 ^ 32"
  shows "sum_list (map (frame_length (encode_segment base frames)) [0..<i]) = length (concat (take i frames))"
  using assms(1)
proof (induction i)
  case (Suc i)
  then show ?case
    using assms(2) by (simp add: frame_length_encode take_Suc_conv_app_nth)
qed simp

lemma extract_frame_encode:
  assumes base: "base < 2 ^ 64" and len: "length frames < 2 ^ 32"
    and fs: "\<forall>f \<in> set frames. length f < 2 ^ 32" and i: "i < length frames"
  shows "extract_frame (encode_segment base frames) base (base + i) = Inr (frames ! i)"
proof -
  let ?blob = "encode_segment base frames"
  have "base < 256 ^ 8" "length frames < 256 ^ 4"
    using base len by simp_all
  then have hdr: "length ?blob \<ge> 16" "take 4 ?blob = SEGMENT_MAGIC" "be_value (take 8 (drop 4 ?blob)) = base"
    "be_value (take 4 (drop 12 ?blob)) = length frames"
    by (simp_all add: encode_segment_def SEGMENT_MAGIC_def)
  have body: "drop (16 + length frames * 4) ?blob = concat frames"
    by (simp add: encode_segment_def SEGMENT_MAGIC_def length_length_table)
  have blen: "length ?blob = 16 + length frames * 4 + length (concat frames)"
    by (simp add: encode_segment_def SEGMENT_MAGIC_def length_length_table del: length_concat)
  have off: "sum_list (map (frame_length ?blob) [0..<i]) = length (concat (take i frames))"
    using i fs by (simp add: sum_frame_lengths)
  have this_len: "frame_length ?blob i = length (frames ! i)"
    using i fs by (simp add: frame_length_encode)
  have c: "concat frames = concat (take i frames) @ frames ! i @ concat (drop (Suc i) frames)"
    using i by (rule concat_nth_split)
  have d: "drop (16 + length frames * 4 + length (concat (take i frames))) ?blob =
      frames ! i @ concat (drop (Suc i) frames)"
    unfolding drop_drop [symmetric, of "length (concat (take i frames))"] add.commute [of _ "length (concat (take i frames))"] body
    by (subst c) simp
  have "length (concat (take i frames)) + length (frames ! i) \<le> length (concat frames)"
    by (subst c) (simp del: length_concat)
  then show ?thesis
    using hdr i blen d unfolding extract_frame_def Let_def
    by (simp add: off this_len del: length_concat)
qed

section \<open>Content stores of the nodes\<close>

text \<open>
  The blobs each node holds, by its advertised address and the content id.  A
  node without an address records the empty origin.
\<close>

type_synonym blob_stores = "string \<Rightarrow> string \<Rightarrow> bytes option"
type_synonym content_ids = "string \<Rightarrow> nat \<Rightarrow> bytes \<Rightarrow> string"

definition write_cold_segment ::
  "content_ids \<Rightarrow> string \<Rightarrow> string \<Rightarrow> nat \<Rightarrow> bytes \<Rightarrow> blob_stores \<Rightarrow> string \<times> blob_stores" where
  "write_cold_segment cids me stream_path base blob st =
     (let cid = cids stream_path base blob in (cid, st(me := (st me)(cid \<mapsto> blob))))"

definition read_cold_segment :: "string \<Rightarrow> string \<Rightarrow> string \<Rightarrow> blob_stores \<Rightarrow> string + bytes" where
  "read_cold_segment me cid origin st =
     (case st me cid of
        Some data \<Rightarrow> Inr data
      | None \<Rightarrow>
          if origin \<noteq> [] \<and> origin \<noteq> me
          then (case st origin cid of
                  Some data \<Rightarrow> Inr data
                | None \<Rightarrow> Inl ''peer fetch cold segment'')
          else Inl ''cold segment unavailable'')"

definition delete_cold_segment :: "string \<Rightarrow> string \<Rightarrow> blob_stores \<Rightarrow> blob_stores" where
  "delete_cold_segment me cid st = st(me := (st me)(cid := None))"

text \<open>The id a path-addressed store gives a segment: the path it is written at.\<close>

definition segment_path :: "string \<Rightarrow> content_ids" where
  "segment_path zone stream_path base blob =
     ''/__stream_segments__/'' @ zone @ stream_path @ ''/'' @ dec_digits base"

text \<open>What node \<^term>\<open>me\<close> reclaims of a trimmed range: the blobs it sealed itself.\<close>

definition gc_trimmed_cold_segments :: "string \<Rightarrow> (string \<times> string) list \<Rightarrow> blob_stores \<Rightarrow> blob_stores" where
  "gc_trimmed_cold_segments me trimmed st =
     fold (\<lambda>(origin, cid) st. if origin = me then delete_cold_segment me cid st else st) trimmed st"

section \<open>The stream handle\<close>

type_synonym CachedSegment = "nat \<times> nat \<times> bytes"

record WalStreamCore =
  wc_stream_id :: string
  wc_prefix :: string
  wc_closed :: bool
  wc_cold :: bool
  wc_policy :: SealPolicy
  wc_seal_in_flight :: bool
  wc_known_floor :: nat
  wc_seg_cache :: "CachedSegment option"
  wc_retention :: nat
  wc_last_append_ms :: int

definition wal_new :: "string \<Rightarrow> WalStreamCore" where
  "wal_new stream_id =
     \<lparr>wc_stream_id = stream_id, wc_prefix = wal_stream_prefix stream_id, wc_closed = False,
      wc_cold = False, wc_policy = KEEP_FOREVER, wc_seal_in_flight = False, wc_known_floor = 0,
      wc_seg_cache = None, wc_retention = 0, wc_last_append_ms = 0\<rparr>"

definition wal_with_cold_tier :: "string \<Rightarrow> SealPolicy \<Rightarrow> nat \<Rightarrow> WalStreamCore" where
  "wal_with_cold_tier stream_id pol retention =
     (wal_new stream_id)\<lparr>wc_cold := True, wc_policy := pol, wc_retention := retention\<rparr>"

definition wal_close :: "WalStreamCore \<Rightarrow> WalStreamCore" where
  "wal_close c = c\<lparr>wc_closed := True\<rparr>"

definition wal_tail :: "WalStreamCore \<Rightarrow> stream_table \<Rightarrow> nat" where
  "wal_tail c t = stream_tail (wc_prefix c) t"

definition wal_earliest_offset :: "WalStreamCore \<Rightarrow> stream_table \<Rightarrow> nat" where
  "wal_earliest_offset c t = (if wc_cold c then stream_earliest (wc_prefix c) t else 0)"

subsection \<open>Reads\<close>

text \<open>The reader passes its address and the content stores; the cache is part of the handle.\<close>

definition read_cold ::
  "string \<Rightarrow> blob_stores \<Rightarrow> stream_table \<Rightarrow> nat \<Rightarrow> WalStreamCore \<Rightarrow> (string + bytes option) \<times> WalStreamCore" where
  "read_cold me st t seq c =
     (case (case wc_seg_cache c of
              Some (base, endv, blob) \<Rightarrow> if base \<le> seq \<and> seq < endv then Some (base, blob) else None
            | None \<Rightarrow> None) of
        Some (base, blob) \<Rightarrow>
          (case extract_frame blob base seq of Inl e \<Rightarrow> Inl e | Inr d \<Rightarrow> Inr (Some d), c)
      | None \<Rightarrow>
          (case find_segment (wc_prefix c) seq t of
             None \<Rightarrow> (Inr None, c)
           | Some (base, r) \<Rightarrow>
               (case read_cold_segment me (sr_content_id r) (sr_origin r) st of
                  Inl e \<Rightarrow> (Inl e, c)
                | Inr blob \<Rightarrow>
                    (case extract_frame blob base seq of
                       Inl e \<Rightarrow> (Inl e, c)
                     | Inr d \<Rightarrow> (Inr (Some d), c\<lparr>wc_seg_cache := Some (base, sr_end r, blob)\<rparr>)))))"

definition read_committed ::
  "string \<Rightarrow> blob_stores \<Rightarrow> stream_table \<Rightarrow> nat \<Rightarrow> WalStreamCore \<Rightarrow> (string + bytes option) \<times> WalStreamCore" where
  "read_committed me st t seq c =
     (case get_stream_entry (stream_entry_key (wc_prefix c) seq) t of
        Some d \<Rightarrow> (Inr (Some d), c)
      | None \<Rightarrow>
          if wc_cold c \<and> seq < stream_floor (wc_prefix c) t then read_cold me st t seq c
          else (Inr None, c))"

definition wal_read_at ::
  "string \<Rightarrow> blob_stores \<Rightarrow> stream_table \<Rightarrow> nat \<Rightarrow> WalStreamCore \<Rightarrow>
     (bytes \<times> nat) StreamOutcome \<times> WalStreamCore" where
  "wal_read_at me st t offset c =
     (case read_committed me st t offset c of
        (Inr (Some data), c') \<Rightarrow> (SOk (data, offset + 1), c')
      | (Inr None, c') \<Rightarrow>
          (let earliest = wal_earliest_offset c t in
           if wc_cold c \<and> offset < earliest then (SErr (StreamTruncated earliest offset), c')
           else if wc_closed c then (SErr StreamClosedEmpty, c')
           else (SErr StreamEmpty, c'))
      | (Inl e, c') \<Rightarrow> (SErr (ReadFailed e), c'))"

fun wal_read_batch_loop ::
  "string \<Rightarrow> blob_stores \<Rightarrow> stream_table \<Rightarrow> nat \<Rightarrow> nat \<Rightarrow> bytes list \<Rightarrow> WalStreamCore \<Rightarrow>
     (bytes list \<times> nat) StreamOutcome \<times> WalStreamCore" where
  "wal_read_batch_loop me st t 0 nxt items c = (SOk (items, nxt), c)"
| "wal_read_batch_loop me st t (Suc count) nxt items c =
     (case wal_read_at me st t nxt c of
        (SOk (data, after), c') \<Rightarrow> wal_read_batch_loop me st t count after (items @ [data]) c'
      | (SErr StreamEmpty, c') \<Rightarrow> (SOk (items, nxt), c')
      | (SErr StreamClosedEmpty, c') \<Rightarrow>
          if items \<noteq> [] then (SOk (items, nxt), c') else (SErr StreamClosedEmpty, c')
      | (SErr e, c') \<Rightarrow> (SErr e, c')
      | (SPanic, c') \<Rightarrow> (SPanic, c'))"

definition wal_read_batch ::
  "string \<Rightarrow> blob_stores \<Rightarrow> stream_table \<Rightarrow> nat \<Rightarrow> nat \<Rightarrow> WalStreamCore \<Rightarrow>
     (bytes list \<times> nat) StreamOutcome \<times> WalStreamCore" where
  "wal_read_batch me st t offset count c = wal_read_batch_loop me st t count offset [] c"

subsection \<open>Appends\<close>

text \<open>
  \<^verbatim>\<open>write_sync\<close> proposes the append; \<^term>\<open>outcome\<close> is what the proposal returned.
  The handle starts a sealer when the new tail is far enough past the last
  known floor and none is running.
\<close>

definition seal_threshold :: "SealPolicy \<Rightarrow> nat \<Rightarrow> nat" where
  "seal_threshold pol floor = min (min (floor + hot_window pol) (2 ^ 64 - 1) + seal_batch pol) (2 ^ 64 - 1)"

definition maybe_trigger_seal :: "nat \<Rightarrow> WalStreamCore \<Rightarrow> bool \<times> WalStreamCore" where
  "maybe_trigger_seal tail c =
     (if \<not> wc_cold c \<or> \<not> seals (wc_policy c) then (False, c)
      else if tail < seal_threshold (wc_policy c) (wc_known_floor c) then (False, c)
      else if wc_seal_in_flight c then (False, c)
      else (True, c\<lparr>wc_seal_in_flight := True\<rparr>))"

definition write_sync :: "string + nat \<Rightarrow> WalStreamCore \<Rightarrow> string + nat" where
  "write_sync outcome c = (if wc_closed c then Inl ''WAL stream is closed'' else outcome)"

definition wal_push ::
  "int \<Rightarrow> string + nat \<Rightarrow> bytes \<Rightarrow> stream_table \<Rightarrow> WalStreamCore \<Rightarrow> nat StreamOutcome \<times> bool \<times> WalStreamCore" where
  "wal_push now_ms outcome data t c =
     (if data = [] then (SOk (wal_tail c t), False, c)
      else case write_sync outcome c of
             Inr seq \<Rightarrow>
               (let (spawned, c') = maybe_trigger_seal (seq + 1) c in
                (SOk seq, spawned,
                 c'\<lparr>wc_last_append_ms := stamp_now_monotonic now_ms (wc_last_append_ms c')\<rparr>))
           | Inl e \<Rightarrow> (SErr (NotReplicated e), False, c))"

section \<open>The sealer and the trimmer\<close>

text \<open>
  One pass of \<^verbatim>\<open>seal_loop\<close> up to its proposal: the blob it wrote and the command
  it proposes, or nothing when the tail is inside the window or a row is
  missing.
\<close>

fun collect_rows :: "string \<Rightarrow> nat list \<Rightarrow> stream_table \<Rightarrow> bytes list option" where
  "collect_rows p [] t = Some []"
| "collect_rows p (i # is) t =
     (case get_stream_entry (stream_entry_key p i) t of
        None \<Rightarrow> None
      | Some d \<Rightarrow> (case collect_rows p is t of None \<Rightarrow> None | Some ds \<Rightarrow> Some (d # ds)))"

definition seal_pass ::
  "SealPolicy \<Rightarrow> content_ids \<Rightarrow> string \<Rightarrow> string \<Rightarrow> stream_table \<Rightarrow> blob_stores \<Rightarrow> (Command \<times> blob_stores) option" where
  "seal_pass pol cids me stream_id t st =
     (let p = wal_stream_prefix stream_id; base = stream_floor p t; endv = base + seal_batch pol in
      if stream_tail p t < seal_threshold pol base then None
      else case collect_rows p [base..<endv] t of
             None \<Rightarrow> None
           | Some frames \<Rightarrow>
               (let blob = encode_segment base frames;
                    (cid, st') = write_cold_segment cids me stream_id base blob st
                in Some (SealStreamSegment p base endv cid me (length blob), st')))"

text \<open>\<^verbatim>\<open>maybe_trim\<close>: the oldest whole segments to drop until the rest fits the budget.\<close>

fun trim_choice ::
  "nat \<Rightarrow> nat \<Rightarrow> (nat \<times> SegmentRecord) list \<Rightarrow> nat \<Rightarrow> (string \<times> string) list \<Rightarrow> nat \<times> (string \<times> string) list" where
  "trim_choice retention remaining [] up_to trimmed = (up_to, trimmed)"
| "trim_choice retention remaining ((base, r) # segs) up_to trimmed =
     (if remaining \<le> retention then (up_to, trimmed)
      else trim_choice retention (remaining - sr_size r) segs (sr_end r)
             (trimmed @ [(sr_origin r, sr_content_id r)]))"

definition maybe_trim :: "string \<Rightarrow> nat \<Rightarrow> stream_table \<Rightarrow> Command option" where
  "maybe_trim p retention t =
     (let segs = list_segments p t;
          total = sum_list (map (\<lambda>x. sr_size (snd x)) segs)
      in if total \<le> retention then None
         else let (up_to, trimmed) = trim_choice retention total segs 0 [] in
              if up_to = 0 then None else Some (TrimStreamSegment p up_to trimmed))"

section \<open>Runs\<close>

text \<open>
  A zone at work: the table of the state machine, the content stores, the
  proposals under way (a proposal may be applied late, or more than once), the
  blobs of applied trims that some node has yet to reclaim, the handles of
  every node, and, as a ghost, the entries appended to each stream.
\<close>

record WalWorld =
  ww_table :: stream_table
  ww_stores :: blob_stores
  ww_pending :: "Command set"
  ww_reclaim :: "(string \<times> string) set"
  ww_core :: "string \<Rightarrow> string \<Rightarrow> WalStreamCore"
  ww_log :: "string \<Rightarrow> bytes list"

record WalSetting =
  ws_streams :: "string set"
  ws_nodes :: "string set"
  ws_policy :: SealPolicy
  ws_retention :: "string \<Rightarrow> nat"
  ws_cids :: content_ids

definition wal_init :: "WalSetting \<Rightarrow> WalWorld" where
  "wal_init W =
     \<lparr>ww_table = [], ww_stores = (\<lambda>_ _. None), ww_pending = {}, ww_reclaim = {},
      ww_core = (\<lambda>_ sid. wal_with_cold_tier sid (ws_policy W) (ws_retention W sid)),
      ww_log = (\<lambda>_. [])\<rparr>"

inductive wal_step :: "WalSetting \<Rightarrow> WalWorld \<Rightarrow> WalWorld \<Rightarrow> bool" for W where
  append: "sid \<in> ws_streams W \<Longrightarrow> length d < 2 ^ 32 \<Longrightarrow> length (ww_log w sid) + 1 < 2 ^ 64 \<Longrightarrow>
     wal_step W w (w\<lparr>ww_table := snd (apply_append (wal_stream_prefix sid) d (ww_table w)),
                     ww_log := (ww_log w)(sid := ww_log w sid @ [d])\<rparr>)"
| seal: "sid \<in> ws_streams W \<Longrightarrow> me \<in> ws_nodes W \<Longrightarrow>
     seal_pass (ws_policy W) (ws_cids W) me sid (ww_table w) (ww_stores w) = Some (cmd, st) \<Longrightarrow>
     wal_step W w (w\<lparr>ww_stores := st, ww_pending := insert cmd (ww_pending w)\<rparr>)"
| apply_seal: "SealStreamSegment p base endv cid origin sz \<in> ww_pending w \<Longrightarrow>
     wal_step W w (w\<lparr>ww_table := snd (apply_seal p base endv cid origin sz (ww_table w))\<rparr>)"
| trim: "sid \<in> ws_streams W \<Longrightarrow>
     maybe_trim (wal_stream_prefix sid) (ws_retention W sid) (ww_table w) = Some cmd \<Longrightarrow>
     wal_step W w (w\<lparr>ww_pending := insert cmd (ww_pending w)\<rparr>)"
| apply_trim: "TrimStreamSegment p n trimmed \<in> ww_pending w \<Longrightarrow>
     wal_step W w (w\<lparr>ww_table := snd (apply_trim p n (ww_table w)),
                     ww_reclaim := ww_reclaim w \<union> set trimmed\<rparr>)"
| gc: "set trimmed \<subseteq> ww_reclaim w \<Longrightarrow>
     wal_step W w (w\<lparr>ww_stores := gc_trimmed_cold_segments me trimmed (ww_stores w)\<rparr>)"
| read: "me \<in> ws_nodes W \<Longrightarrow> sid \<in> ws_streams W \<Longrightarrow>
     wal_step W w (w\<lparr>ww_core := (ww_core w)(me := (ww_core w me)(sid :=
       snd (wal_read_at me (ww_stores w) (ww_table w) seq (ww_core w me sid))))\<rparr>)"
| close: "wal_step W w (w\<lparr>ww_core := (ww_core w)(me := (ww_core w me)(sid := wal_close (ww_core w me sid)))\<rparr>)"

text \<open>
  What the setting must provide: streams of which none lies below another,
  ids that tell two segments apart (a path-addressed store), valid addresses,
  and one batch size that fits the blob header.
\<close>

definition wal_setting_ok :: "WalSetting \<Rightarrow> bool" where
  "wal_setting_ok W \<longleftrightarrow>
     (\<forall>a \<in> ws_streams W. \<forall>b \<in> ws_streams W. a \<noteq> b \<longrightarrow>
        unnested (wal_stream_prefix a) (wal_stream_prefix b)) \<and>
     (\<forall>a b x a' b' x'. ws_cids W a b x = ws_cids W a' b' x' \<longrightarrow> a = a' \<and> b = b') \<and>
     (\<forall>a \<in> ws_streams W. \<forall>b x. utf8_string (ws_cids W a b x)) \<and>
     (\<forall>me \<in> ws_nodes W. utf8_string me \<and> length me < 2 ^ 32) \<and>
     (ws_nodes W = {[]} \<or> [] \<notin> ws_nodes W) \<and>
     0 < seal_batch (ws_policy W) \<and> seal_batch (ws_policy W) < 2 ^ 31"

section \<open>Cold or hot, a reader sees the log\<close>

text \<open>The blob of the segment of \<^term>\<open>sid\<close> that starts at \<^term>\<open>b\<close>, and its id.\<close>

definition segment_of :: "WalSetting \<Rightarrow> (string \<Rightarrow> bytes list) \<Rightarrow> string \<Rightarrow> nat \<Rightarrow> string \<Rightarrow> bytes \<Rightarrow> bool" where
  "segment_of W L sid b cid x \<longleftrightarrow>
     b + seal_batch (ws_policy W) \<le> length (L sid) \<and>
     x = encode_segment b (take (seal_batch (ws_policy W)) (drop b (L sid))) \<and>
     cid = ws_cids W sid b x"

definition logs_ok :: "WalSetting \<Rightarrow> (string \<Rightarrow> bytes list) \<Rightarrow> bool" where
  "logs_ok W L \<longleftrightarrow> (\<forall>sid \<in> ws_streams W. length (L sid) < 2 ^ 64 \<and> (\<forall>d \<in> set (L sid). length d < 2 ^ 32))"

definition stream_ok :: "WalSetting \<Rightarrow> (string \<Rightarrow> bytes list) \<Rightarrow> blob_stores \<Rightarrow> stream_table \<Rightarrow> string \<Rightarrow> bool" where
  "stream_ok W L st t sid \<longleftrightarrow>
     (\<exists>segs e. log_rep (wal_stream_prefix sid) t (L sid) segs e \<and>
        (\<forall>x \<in> set segs. sr_end (snd x) = fst x + seal_batch (ws_policy W) \<and> sr_origin (snd x) \<in> ws_nodes W \<and>
           (\<exists>blob. segment_of W L sid (fst x) (sr_content_id (snd x)) blob \<and>
                    st (sr_origin (snd x)) (sr_content_id (snd x)) = Some blob)))"

definition stores_ok :: "WalSetting \<Rightarrow> (string \<Rightarrow> bytes list) \<Rightarrow> blob_stores \<Rightarrow> bool" where
  "stores_ok W L st \<longleftrightarrow>
     (\<forall>me cid x. st me cid = Some x \<longrightarrow> (\<exists>sid \<in> ws_streams W. \<exists>b. segment_of W L sid b cid x))"

definition seal_ok ::
  "WalSetting \<Rightarrow> (string \<Rightarrow> bytes list) \<Rightarrow> blob_stores \<Rightarrow> stream_table \<Rightarrow>
     string \<Rightarrow> nat \<Rightarrow> nat \<Rightarrow> string \<Rightarrow> string \<Rightarrow> nat \<Rightarrow> bool" where
  "seal_ok W L st t p b endv cid origin sz \<longleftrightarrow>
     (\<exists>sid \<in> ws_streams W. \<exists>x. p = wal_stream_prefix sid \<and> endv = b + seal_batch (ws_policy W) \<and>
        segment_of W L sid b cid x \<and> sz = length x \<and> origin \<in> ws_nodes W \<and>
        (stream_floor p t \<le> b \<longrightarrow> st origin cid = Some x))"

definition reclaimable :: "WalSetting \<Rightarrow> (string \<Rightarrow> bytes list) \<Rightarrow> string \<Rightarrow> nat \<Rightarrow> string \<Rightarrow> bool" where
  "reclaimable W L sid n cid \<longleftrightarrow> (\<exists>b x. segment_of W L sid b cid x \<and> b + seal_batch (ws_policy W) \<le> n)"

definition trim_ok ::
  "WalSetting \<Rightarrow> (string \<Rightarrow> bytes list) \<Rightarrow> stream_table \<Rightarrow> string \<Rightarrow> nat \<Rightarrow> (string \<times> string) list \<Rightarrow> bool" where
  "trim_ok W L t p n trimmed \<longleftrightarrow>
     (\<exists>sid \<in> ws_streams W. p = wal_stream_prefix sid \<and> n \<le> stream_floor p t \<and>
        (\<forall>oc \<in> set trimmed. reclaimable W L sid n (snd oc)))"

definition pending_ok :: "WalSetting \<Rightarrow> (string \<Rightarrow> bytes list) \<Rightarrow> blob_stores \<Rightarrow> stream_table \<Rightarrow> Command set \<Rightarrow> bool" where
  "pending_ok W L st t cmds \<longleftrightarrow>
     (\<forall>p b endv cid origin sz. SealStreamSegment p b endv cid origin sz \<in> cmds \<longrightarrow>
        seal_ok W L st t p b endv cid origin sz) \<and>
     (\<forall>p n trimmed. TrimStreamSegment p n trimmed \<in> cmds \<longrightarrow> trim_ok W L t p n trimmed)"

definition reclaim_ok :: "WalSetting \<Rightarrow> (string \<Rightarrow> bytes list) \<Rightarrow> stream_table \<Rightarrow> (string \<times> string) set \<Rightarrow> bool" where
  "reclaim_ok W L t rec \<longleftrightarrow>
     (\<forall>oc \<in> rec. \<exists>sid \<in> ws_streams W. reclaimable W L sid (stream_earliest (wal_stream_prefix sid) t) (snd oc))"

definition core_ok :: "WalSetting \<Rightarrow> (string \<Rightarrow> bytes list) \<Rightarrow> string \<Rightarrow> WalStreamCore \<Rightarrow> bool" where
  "core_ok W L sid c \<longleftrightarrow>
     wc_prefix c = wal_stream_prefix sid \<and> wc_cold c \<and>
     (\<forall>b endv x. wc_seg_cache c = Some (b, endv, x) \<longrightarrow>
        endv = b + seal_batch (ws_policy W) \<and> (\<exists>cid. segment_of W L sid b cid x))"

definition wal_inv :: "WalSetting \<Rightarrow> WalWorld \<Rightarrow> bool" where
  "wal_inv W w \<longleftrightarrow>
     logs_ok W (ww_log w) \<and>
     (\<forall>sid \<in> ws_streams W. stream_ok W (ww_log w) (ww_stores w) (ww_table w) sid) \<and>
     stores_ok W (ww_log w) (ww_stores w) \<and>
     pending_ok W (ww_log w) (ww_stores w) (ww_table w) (ww_pending w) \<and>
     reclaim_ok W (ww_log w) (ww_table w) (ww_reclaim w) \<and>
     (\<forall>me. \<forall>sid \<in> ws_streams W. core_ok W (ww_log w) sid (ww_core w me sid))"

lemma wal_prefix_ok: "stream_prefix_ok (wal_stream_prefix sid)"
  by (simp add: stream_prefix_ok_def wal_stream_prefix_def WAL_STREAM_KEY_PREFIX_def str_simps)

lemma wal_prefix_inj: "wal_stream_prefix a = wal_stream_prefix b \<longleftrightarrow> a = b"
  by (simp add: wal_stream_prefix_def)

lemma take_drop_append: "b + k \<le> length xs \<Longrightarrow> take k (drop b (xs @ ys)) = take k (drop b xs)"
  by simp

lemma segment_of_append:
  "segment_of W L sid b cid x \<Longrightarrow> segment_of W (L(s := L s @ ds)) sid b cid x"
  by (auto simp: segment_of_def)

lemma wal_settingD:
  assumes "wal_setting_ok W"
  shows "\<forall>a \<in> ws_streams W. \<forall>b \<in> ws_streams W. a \<noteq> b \<longrightarrow>
      unnested (wal_stream_prefix a) (wal_stream_prefix b)"
    "\<forall>a b x a' b' x'. ws_cids W a b x = ws_cids W a' b' x' \<longrightarrow> a = a' \<and> b = b'"
    "\<forall>a \<in> ws_streams W. \<forall>b x. utf8_string (ws_cids W a b x)"
    "\<forall>me \<in> ws_nodes W. utf8_string me \<and> length me < 2 ^ 32"
    "ws_nodes W = {[]} \<or> [] \<notin> ws_nodes W"
    "0 < seal_batch (ws_policy W)" "seal_batch (ws_policy W) < 2 ^ 31"
  using assms unfolding wal_setting_ok_def by - (elim conjE, assumption)+

lemma segment_of_unique:
  assumes "wal_setting_ok W" and "segment_of W L a b cid x" and "segment_of W L a' b' cid x'"
  shows "a = a' \<and> b = b' \<and> x = x'"
proof -
  have "ws_cids W a b x = ws_cids W a' b' x'"
    using assms(2,3) by (simp add: segment_of_def)
  then have "a = a'" "b = b'"
    using wal_settingD(2) [OF assms(1)] by blast+
  then show ?thesis
    using assms(2,3) by (simp add: segment_of_def)
qed

lemma segment_of_frame:
  assumes W: "wal_setting_ok W" "logs_ok W L" "sid \<in> ws_streams W"
    and seg: "segment_of W L sid b cid x" and n: "b \<le> n" "n < b + seal_batch (ws_policy W)"
  shows "extract_frame x b n = Inr (L sid ! n)"
proof -
  let ?k = "seal_batch (ws_policy W)"
  let ?fs = "take ?k (drop b (L sid))"
  have k: "?k < 2 ^ 31" and len: "b + ?k \<le> length (L sid)" "length (L sid) < 2 ^ 64"
    using wal_settingD(7) [OF W(1)] W(2,3) seg by (auto simp: logs_ok_def segment_of_def)
  have "length ?fs = ?k"
    using len by simp
  moreover have "\<forall>f \<in> set ?fs. length f < 2 ^ 32"
    using W(2,3) by (auto simp: logs_ok_def dest!: in_set_takeD in_set_dropD)
  ultimately have "extract_frame (encode_segment b ?fs) b (b + (n - b)) = Inr (?fs ! (n - b))"
    using k len n by (intro extract_frame_encode) auto
  then show ?thesis
    using seg n len by (simp add: segment_of_def)
qed

lemma length_concat_bound: "\<forall>f \<in> set fs. length f \<le> m \<Longrightarrow> length (concat fs) \<le> length fs * m"
  by (induction fs) auto

lemma segment_of_size:
  assumes W: "wal_setting_ok W" "logs_ok W L" "sid \<in> ws_streams W" and seg: "segment_of W L sid b cid x"
  shows "length x < 2 ^ 64"
proof -
  let ?k = "seal_batch (ws_policy W)"
  let ?fs = "take ?k (drop b (L sid))"
  have k: "?k < 2 ^ 31"
    using W(1) by (rule wal_settingD)
  have "length f < 2 ^ 32" if "f \<in> set ?fs" for f
    using W(2,3) that by (auto simp: logs_ok_def dest!: in_set_takeD in_set_dropD)
  then have "\<forall>f \<in> set ?fs. length f \<le> 2 ^ 32 - 1"
    by fastforce
  then have c: "length (concat ?fs) \<le> length ?fs * (2 ^ 32 - 1)"
    by (rule length_concat_bound)
  have "length ?fs \<le> 2 ^ 31 - 1"
    using k by simp
  then have "length ?fs * (2 ^ 32 - 1) \<le> (2 ^ 31 - 1) * (2 ^ 32 - 1)"
    by (rule mult_le_mono1)
  with c have "length (concat ?fs) \<le> (2 ^ 31 - 1) * (2 ^ 32 - 1)"
    by (rule order_trans)
  moreover have "length x = 16 + 4 * length ?fs + length (concat ?fs)"
    using seg by (simp add: segment_of_def encode_segment_def SEGMENT_MAGIC_def length_length_table del: length_concat)
  ultimately show ?thesis
    using \<open>length ?fs \<le> 2 ^ 31 - 1\<close> by simp
qed

lemma wal_invD:
  assumes "wal_inv W w"
  shows "logs_ok W (ww_log w)"
    "sid \<in> ws_streams W \<Longrightarrow> stream_ok W (ww_log w) (ww_stores w) (ww_table w) sid"
    "stores_ok W (ww_log w) (ww_stores w)"
    "pending_ok W (ww_log w) (ww_stores w) (ww_table w) (ww_pending w)"
    "reclaim_ok W (ww_log w) (ww_table w) (ww_reclaim w)"
    "sid \<in> ws_streams W \<Longrightarrow> core_ok W (ww_log w) sid (ww_core w me sid)"
  using assms by (auto simp: wal_inv_def)

lemma wal_init_inv: "wal_inv W (wal_init W)"
proof -
  have "stream_ok W (\<lambda>_. []) (\<lambda>_ _. None) [] sid" for sid
    unfolding stream_ok_def
    by (intro exI [of _ "[]"] exI [of _ 0]) (simp add: log_rep_empty wal_prefix_ok)
  then show ?thesis
    by (auto simp: wal_inv_def wal_init_def logs_ok_def stores_ok_def pending_ok_def
        reclaim_ok_def core_ok_def wal_with_cold_tier_def wal_new_def)
qed

text \<open>Appending keeps every segment, and no cursor of a stream but its tail moves.\<close>

lemma wal_append_inv:
  assumes W: "wal_setting_ok W" and inv: "wal_inv W w"
    and sid: "sid \<in> ws_streams W" and d: "length d < 2 ^ 32" "length (ww_log w sid) + 1 < 2 ^ 64"
  shows "wal_inv W (w\<lparr>ww_table := snd (apply_append (wal_stream_prefix sid) d (ww_table w)),
                     ww_log := (ww_log w)(sid := ww_log w sid @ [d])\<rparr>)" (is "wal_inv W ?w")
proof -
  let ?L = "(ww_log w)(sid := ww_log w sid @ [d])" and ?p = "wal_stream_prefix sid"
  note D = wal_invD [OF inv] and mono = segment_of_append [of W "ww_log w" _ _ _ _ sid "[d]"]
  have cur: "stream_floor q (ww_table ?w) = stream_floor q (ww_table w)"
    "stream_earliest q (ww_table ?w) = stream_earliest q (ww_table w)" for q
    by (simp_all add: append_cursors wal_prefix_ok)
  have "stream_ok W ?L (ww_stores w) (ww_table ?w) s" if s: "s \<in> ws_streams W" for s
  proof -
    obtain segs e where rep: "log_rep (wal_stream_prefix s) (ww_table w) (ww_log w s) segs e"
      and segs: "\<forall>x \<in> set segs. sr_end (snd x) = fst x + seal_batch (ws_policy W) \<and> sr_origin (snd x) \<in> ws_nodes W \<and>
           (\<exists>blob. segment_of W (ww_log w) s (fst x) (sr_content_id (snd x)) blob \<and>
                    ww_stores w (sr_origin (snd x)) (sr_content_id (snd x)) = Some blob)"
      using D(2) [OF s] unfolding stream_ok_def by blast
    have "log_rep (wal_stream_prefix s) (ww_table ?w) (?L s) segs e"
    proof (cases "s = sid")
      case True
      then show ?thesis using apply_append_rep(2) rep d by simp
    next
      case False
      then have "unnested (wal_stream_prefix s) ?p"
        using wal_settingD(1) [OF W] s sid by blast
      then show ?thesis
        using False stream_op_frame(1) [OF rep wal_prefix_ok] by simp
    qed
    then show ?thesis
      unfolding stream_ok_def using segs mono by blast
  qed
  moreover have "logs_ok W ?L"
    using D(1) d sid by (auto simp: logs_ok_def)
  moreover have "stores_ok W ?L (ww_stores w)"
    using D(3) mono unfolding stores_ok_def by blast
  moreover have "pending_ok W ?L (ww_stores w) (ww_table ?w) (ww_pending w)"
    using D(4) mono unfolding pending_ok_def seal_ok_def trim_ok_def reclaimable_def cur by meson
  moreover have "reclaim_ok W ?L (ww_table ?w) (ww_reclaim w)"
    using D(5) mono unfolding reclaim_ok_def reclaimable_def cur by meson
  moreover have "core_ok W ?L s (ww_core w me s)" if "s \<in> ws_streams W" for me s
    using D(6) [OF that] mono unfolding core_ok_def by blast
  ultimately show ?thesis
    by (simp add: wal_inv_def)
qed

lemma stream_okE:
  assumes "stream_ok W L st t sid"
  obtains segs e where "log_rep (wal_stream_prefix sid) t (L sid) segs e"
    and "\<And>x. x \<in> set segs \<Longrightarrow> sr_end (snd x) = fst x + seal_batch (ws_policy W)"
    and "\<And>x. x \<in> set segs \<Longrightarrow> sr_origin (snd x) \<in> ws_nodes W"
    and "\<And>x. x \<in> set segs \<Longrightarrow> \<exists>blob. segment_of W L sid (fst x) (sr_content_id (snd x)) blob \<and>
                    st (sr_origin (snd x)) (sr_content_id (snd x)) = Some blob"
  using assms unfolding stream_ok_def by blast

lemma stream_okI:
  assumes "log_rep (wal_stream_prefix sid) t (L sid) segs e"
    and "\<And>x. x \<in> set segs \<Longrightarrow> sr_end (snd x) = fst x + seal_batch (ws_policy W)"
    and "\<And>x. x \<in> set segs \<Longrightarrow> sr_origin (snd x) \<in> ws_nodes W"
    and "\<And>x. x \<in> set segs \<Longrightarrow> \<exists>blob. segment_of W L sid (fst x) (sr_content_id (snd x)) blob \<and>
                    st (sr_origin (snd x)) (sr_content_id (snd x)) = Some blob"
  shows "stream_ok W L st t sid"
  using assms unfolding stream_ok_def by blast

text \<open>A sealer writes the blob of the rows it read; stores only gain such blobs.\<close>

lemma collect_rows_Some:
  assumes "hot_rows p t es f"
  shows "collect_rows p is t = Some ds \<Longrightarrow> ds = map ((!) es) is \<and> (\<forall>i \<in> set is. i < length es)"
proof (induction "is" arbitrary: ds)
  case (Cons i "is")
  then obtain d ds' where *: "map_of t (stream_entry_key p i) = Some d" "collect_rows p is t = Some ds'" "ds = d # ds'"
    by (auto simp: get_stream_entry_def split: option.splits)
  then have "i < length es" "d = es ! i"
    using assms by (auto simp: hot_rows_def split: if_splits)
  then show ?case
    using Cons.IH [OF *(2)] *(3) by simp
qed simp

lemma map_nth_range: "b + k \<le> length xs \<Longrightarrow> map ((!) xs) [b..<b + k] = take k (drop b xs)"
  by (rule nth_equalityI) simp_all

lemma seal_pass_segment:
  assumes W: "wal_setting_ok W" and ok: "stream_ok W L st t sid"
    and pass: "seal_pass (ws_policy W) (ws_cids W) me sid t st = Some (cmd, st')"
  obtains b cid x where "segment_of W L sid b cid x" "b = stream_floor (wal_stream_prefix sid) t"
    "cmd = SealStreamSegment (wal_stream_prefix sid) b (b + seal_batch (ws_policy W)) cid me (length x)"
    "st' = st(me := (st me)(cid \<mapsto> x))"
proof -
  let ?k = "seal_batch (ws_policy W)" and ?b = "stream_floor (wal_stream_prefix sid) t"
  obtain segs e where rep: "log_rep (wal_stream_prefix sid) t (L sid) segs e"
    using ok by (rule stream_okE)
  obtain fs where fs: "collect_rows (wal_stream_prefix sid) [?b..<?b + ?k] t = Some fs"
    and cmd: "cmd = SealStreamSegment (wal_stream_prefix sid) ?b (?b + ?k) (ws_cids W sid ?b (encode_segment ?b fs)) me
        (length (encode_segment ?b fs))"
    and st': "st' = st(me := (st me)(ws_cids W sid ?b (encode_segment ?b fs) \<mapsto> encode_segment ?b fs))"
    using pass by (auto simp: seal_pass_def write_cold_segment_def Let_def split: if_splits option.splits)
  have rows: "fs = map ((!) (L sid)) [?b..<?b + ?k]" "\<forall>i \<in> set [?b..<?b + ?k]. i < length (L sid)"
    using collect_rows_Some [OF log_repD(8) [OF rep] fs] by blast+
  have "?b + ?k - 1 \<in> set [?b..<?b + ?k]"
    using wal_settingD(6) [OF W] by auto
  then have le: "?b + ?k \<le> length (L sid)"
    using rows(2) by fastforce
  then have "fs = take ?k (drop ?b (L sid))"
    using rows(1) by (simp add: map_nth_range)
  then have "segment_of W L sid ?b (ws_cids W sid ?b (encode_segment ?b fs)) (encode_segment ?b fs)"
    using le by (simp add: segment_of_def)
  then show thesis
    using that cmd st' by blast
qed

lemma wal_seal_inv:
  assumes W: "wal_setting_ok W" and inv: "wal_inv W w"
    and sid: "sid \<in> ws_streams W" and me: "me \<in> ws_nodes W"
    and pass: "seal_pass (ws_policy W) (ws_cids W) me sid (ww_table w) (ww_stores w) = Some (cmd, st)"
  shows "wal_inv W (w\<lparr>ww_stores := st, ww_pending := insert cmd (ww_pending w)\<rparr>)"
proof -
  note D = wal_invD [OF inv]
  obtain b cid x where seg: "segment_of W (ww_log w) sid b cid x"
    and cmd: "cmd = SealStreamSegment (wal_stream_prefix sid) b (b + seal_batch (ws_policy W)) cid me (length x)"
    and st: "st = (ww_stores w)(me := (ww_stores w me)(cid \<mapsto> x))"
    using seal_pass_segment [OF W D(2) [OF sid] pass] by metis
  have grows: "st m c = Some y" if "segment_of W (ww_log w) s b' c y" "ww_stores w m c = Some y" for m c y s b'
  proof (cases "c = cid")
    case True
    then have "x = y"
      using segment_of_unique [OF W seg] that(1) by blast
    then show ?thesis
      using True that(2) by (simp add: st)
  qed (use that(2) in \<open>auto simp: st\<close>)
  have "stream_ok W (ww_log w) st (ww_table w) s" if s: "s \<in> ws_streams W" for s
    using D(2) [OF s] grows unfolding stream_ok_def by meson
  moreover have "stores_ok W (ww_log w) st"
    using D(3) seg sid unfolding stores_ok_def st by (metis fun_upd_apply option.inject)
  moreover have "pending_ok W (ww_log w) st (ww_table w) (insert cmd (ww_pending w))"
  proof -
    have "seal_ok W (ww_log w) st (ww_table w) (wal_stream_prefix sid) b (b + seal_batch (ws_policy W)) cid me (length x)"
      unfolding seal_ok_def using sid seg me st by auto
    moreover have "seal_ok W (ww_log w) st (ww_table w) p b endv cid origin sz"
      if "seal_ok W (ww_log w) (ww_stores w) (ww_table w) p b endv cid origin sz" for p b endv cid origin sz
      using that grows unfolding seal_ok_def by meson
    ultimately show ?thesis
      using D(4) cmd unfolding pending_ok_def by auto
  qed
  ultimately show ?thesis
    using D(1,5,6) by (simp add: wal_inv_def)
qed

text \<open>Proposals stay good while the floors rise.\<close>

lemma seal_ok_mono:
  assumes "seal_ok W L st t p b endv cid origin sz"
    and "\<forall>s \<in> ws_streams W. stream_floor (wal_stream_prefix s) t \<le> stream_floor (wal_stream_prefix s) t'"
  shows "seal_ok W L st t' p b endv cid origin sz"
proof -
  obtain sid x where *: "sid \<in> ws_streams W" "p = wal_stream_prefix sid" "endv = b + seal_batch (ws_policy W)"
      "segment_of W L sid b cid x" "sz = length x" "origin \<in> ws_nodes W"
    and st: "stream_floor p t \<le> b \<Longrightarrow> st origin cid = Some x"
    using assms(1) unfolding seal_ok_def by blast
  have "stream_floor p t \<le> stream_floor p t'"
    using assms(2) *(1,2) by simp
  then have "stream_floor p t' \<le> b \<Longrightarrow> st origin cid = Some x"
    using st by simp
  then show ?thesis
    using * unfolding seal_ok_def by blast
qed

lemma trim_ok_mono:
  assumes "trim_ok W L t p n trimmed"
    and "\<forall>s \<in> ws_streams W. stream_floor (wal_stream_prefix s) t \<le> stream_floor (wal_stream_prefix s) t'"
  shows "trim_ok W L t' p n trimmed"
  using assms unfolding trim_ok_def by (fastforce intro: order_trans)

lemma pending_ok_mono:
  assumes "pending_ok W L st t cmds"
    and "\<forall>s \<in> ws_streams W. stream_floor (wal_stream_prefix s) t \<le> stream_floor (wal_stream_prefix s) t'"
  shows "pending_ok W L st t' cmds"
  using assms(1) unfolding pending_ok_def
  by (auto intro!: seal_ok_mono [OF _ assms(2)] trim_ok_mono [OF _ assms(2)])

text \<open>Applying a seal either changes nothing or indexes the blob it was proposed with.\<close>

lemma wal_apply_seal_inv:
  assumes W: "wal_setting_ok W" and inv: "wal_inv W w"
    and cmd: "SealStreamSegment p base endv cid origin sz \<in> ww_pending w"
  shows "wal_inv W (w\<lparr>ww_table := snd (apply_seal p base endv cid origin sz (ww_table w))\<rparr>)" (is "wal_inv W ?w")
proof (cases "base \<noteq> stream_floor p (ww_table w) \<or> endv \<le> base \<or> stream_tail p (ww_table w) < endv")
  case True
  then have "?w = w"
    by (simp add: apply_seal_stale)
  then show ?thesis using inv by simp
next
  case False
  note D = wal_invD [OF inv]
  have "seal_ok W (ww_log w) (ww_stores w) (ww_table w) p base endv cid origin sz"
    using D(4) cmd by (simp add: pending_ok_def)
  then obtain sid x where sid: "sid \<in> ws_streams W" and p: "p = wal_stream_prefix sid"
    and endv: "endv = base + seal_batch (ws_policy W)" and seg: "segment_of W (ww_log w) sid base cid x"
    and sz: "sz = length x" and origin: "origin \<in> ws_nodes W" and stored: "ww_stores w origin cid = Some x"
    using False unfolding seal_ok_def by auto
  define r where "r = \<lparr>sr_end = endv, sr_size = sz, sr_origin = origin, sr_content_id = cid\<rparr>"
  obtain segs e where rep: "log_rep p (ww_table w) (ww_log w sid) segs e"
    and segs: "\<And>x. x \<in> set segs \<Longrightarrow> sr_end (snd x) = fst x + seal_batch (ws_policy W)"
      "\<And>x. x \<in> set segs \<Longrightarrow> sr_origin (snd x) \<in> ws_nodes W"
      "\<And>x. x \<in> set segs \<Longrightarrow> \<exists>blob. segment_of W (ww_log w) sid (fst x) (sr_content_id (snd x)) blob \<and>
                    ww_stores w (sr_origin (snd x)) (sr_content_id (snd x)) = Some blob"
    using D(2) [OF sid] unfolding p by (rule stream_okE) blast
  have gate: "base = stream_floor p (ww_table w)" "base < endv" "endv \<le> length (ww_log w sid)"
    using False log_repD(4) [OF rep] by simp_all
  have "cid = ws_cids W sid base x"
    using seg by (simp add: segment_of_def)
  then have "segment_record_ok r"
    using segment_of_size [OF W D(1) sid seg] wal_settingD(3,4) [OF W] sid origin gate(3) log_repD(3) [OF rep]
    by (simp add: segment_record_ok_def r_def sz)
  note seal = apply_seal_rep [OF rep gate r_def this]
  have floor: "stream_floor q (ww_table w) \<le> stream_floor q (ww_table ?w)" for q
    using seal_cursors(2) [of p q] wal_prefix_ok seal(3) gate(1,2) by (cases "q = p") (auto simp: p)
  have earliest: "stream_earliest q (ww_table ?w) = stream_earliest q (ww_table w)" for q
    by (simp add: seal_cursors wal_prefix_ok p)
  have "stream_ok W (ww_log w) (ww_stores w) (ww_table ?w) s" if s: "s \<in> ws_streams W" for s
  proof (cases "s = sid")
    case True
    have "log_rep (wal_stream_prefix sid) (ww_table ?w) (ww_log w sid) (segs @ [(base, r)]) e"
      using seal(2) by (simp add: p)
    then show ?thesis
      unfolding True by (rule stream_okI) (use segs endv origin seg stored in \<open>auto simp: r_def\<close>)
  next
    case False
    then have "unnested (wal_stream_prefix s) p"
      using wal_settingD(1) [OF W] s sid p by blast
    then show ?thesis
      using D(2) [OF s] stream_op_frame(2) [OF _ wal_prefix_ok [of sid]] unfolding stream_ok_def p by simp blast
  qed
  moreover have "pending_ok W (ww_log w) (ww_stores w) (ww_table ?w) (ww_pending w)"
    using floor by (intro pending_ok_mono [OF D(4)]) blast
  moreover have "reclaim_ok W (ww_log w) (ww_table ?w) (ww_reclaim w)"
    using D(5) unfolding reclaim_ok_def earliest .
  ultimately show ?thesis
    using D(1,3,6) by (simp add: wal_inv_def)
qed

text \<open>The trimmer names whole segments below the offset it proposes.\<close>

lemma trim_choice_bound:
  "trim_choice ret rem segs up tr = (n, tr') \<Longrightarrow> seg_chain b segs f \<Longrightarrow> up \<le> b \<Longrightarrow>
     up \<le> n \<and> n \<le> f \<and>
     (\<forall>oc \<in> set tr'. oc \<in> set tr \<or> (\<exists>x \<in> set segs. snd oc = sr_content_id (snd x) \<and> sr_end (snd x) \<le> n))"
proof (induction segs arbitrary: rem up tr b)
  case Nil
  then show ?case by auto
next
  case (Cons y segs)
  obtain c r where y: "y = (c, r)"
    by (cases y)
  show ?case
  proof (cases "rem \<le> ret")
    case True
    then show ?thesis
      using Cons.prems seg_chain_bounds [OF Cons.prems(2)] by (auto simp: y)
  next
    case False
    then have "sr_end r \<le> n \<and> n \<le> f \<and>
       (\<forall>oc \<in> set tr'. oc \<in> set (tr @ [(sr_origin r, sr_content_id r)]) \<or>
          (\<exists>x \<in> set segs. snd oc = sr_content_id (snd x) \<and> sr_end (snd x) \<le> n))"
      using Cons.prems by (intro Cons.IH) (auto simp: y)
    then show ?thesis
      using Cons.prems(2,3) by (auto simp: y)
  qed
qed

lemma wal_trim_inv:
  assumes W: "wal_setting_ok W" and inv: "wal_inv W w" and sid: "sid \<in> ws_streams W"
    and trim: "maybe_trim (wal_stream_prefix sid) ret (ww_table w) = Some cmd"
  shows "wal_inv W (w\<lparr>ww_pending := insert cmd (ww_pending w)\<rparr>)"
proof -
  note D = wal_invD [OF inv]
  let ?p = "wal_stream_prefix sid"
  obtain segs e where rep: "log_rep ?p (ww_table w) (ww_log w sid) segs e"
    and segs: "\<And>x. x \<in> set segs \<Longrightarrow> sr_end (snd x) = fst x + seal_batch (ws_policy W)"
      "\<And>x. x \<in> set segs \<Longrightarrow> \<exists>blob. segment_of W (ww_log w) sid (fst x) (sr_content_id (snd x)) blob \<and>
                    ww_stores w (sr_origin (snd x)) (sr_content_id (snd x)) = Some blob"
    using D(2) [OF sid] by (rule stream_okE) blast
  obtain n tr where cmd: "cmd = TrimStreamSegment ?p n tr"
    and choice: "trim_choice ret (sum_list (map (\<lambda>x. sr_size (snd x)) segs)) segs 0 [] = (n, tr)"
    using trim by (auto simp: maybe_trim_def list_segments_eq [OF rep] Let_def split: if_splits prod.splits)
  obtain b where "seg_chain b segs (stream_floor ?p (ww_table w))"
    using log_repD(11) [OF rep] by blast
  then have n: "n \<le> stream_floor ?p (ww_table w)"
    "\<forall>oc \<in> set tr. \<exists>x \<in> set segs. snd oc = sr_content_id (snd x) \<and> sr_end (snd x) \<le> n"
    using trim_choice_bound [OF choice] by auto
  have "reclaimable W (ww_log w) sid n (snd oc)" if oc: "oc \<in> set tr" for oc
  proof -
    obtain x where x: "x \<in> set segs" "snd oc = sr_content_id (snd x)" "sr_end (snd x) \<le> n"
      using n(2) oc by blast
    then show ?thesis
      unfolding reclaimable_def using segs(1,2) [OF x(1)] by auto
  qed
  then have "trim_ok W (ww_log w) (ww_table w) ?p n tr"
    unfolding trim_ok_def using n(1) sid by blast
  then have "pending_ok W (ww_log w) (ww_stores w) (ww_table w) (insert cmd (ww_pending w))"
    using D(4) cmd by (auto simp: pending_ok_def)
  then show ?thesis
    using D by (simp add: wal_inv_def)
qed

lemma reclaimable_mono: "reclaimable W L sid n cid \<Longrightarrow> n \<le> m \<Longrightarrow> reclaimable W L sid m cid"
  by (meson order_trans reclaimable_def)

lemma wal_apply_trim_inv:
  assumes W: "wal_setting_ok W" and inv: "wal_inv W w"
    and cmd: "TrimStreamSegment p n trimmed \<in> ww_pending w"
  shows "wal_inv W (w\<lparr>ww_table := snd (apply_trim p n (ww_table w)),
                     ww_reclaim := ww_reclaim w \<union> set trimmed\<rparr>)" (is "wal_inv W ?w")
proof -
  note D = wal_invD [OF inv]
  have "trim_ok W (ww_log w) (ww_table w) p n trimmed"
    using D(4) cmd by (simp add: pending_ok_def)
  then obtain sid where sid: "sid \<in> ws_streams W" and p: "p = wal_stream_prefix sid"
    and n: "n \<le> stream_floor p (ww_table w)"
    and tr: "\<forall>oc \<in> set trimmed. reclaimable W (ww_log w) sid n (snd oc)"
    unfolding trim_ok_def by blast
  obtain segs e where rep: "log_rep p (ww_table w) (ww_log w sid) segs e"
    and segs: "\<And>x. x \<in> set segs \<Longrightarrow> sr_end (snd x) = fst x + seal_batch (ws_policy W)"
      "\<And>x. x \<in> set segs \<Longrightarrow> sr_origin (snd x) \<in> ws_nodes W"
      "\<And>x. x \<in> set segs \<Longrightarrow> \<exists>blob. segment_of W (ww_log w) sid (fst x) (sr_content_id (snd x)) blob \<and>
                    ww_stores w (sr_origin (snd x)) (sr_content_id (snd x)) = Some blob"
    using D(2) [OF sid] unfolding p by (rule stream_okE) blast
  show ?thesis
  proof (cases "n \<le> e")
    case True
    then have "n \<le> stream_earliest p (ww_table w)"
      using log_repD(6) [OF rep] by simp
    then have "ww_table ?w = ww_table w" and "reclaim_ok W (ww_log w) (ww_table w) (ww_reclaim w \<union> set trimmed)"
      using D(5) tr sid reclaimable_mono unfolding reclaim_ok_def p by (simp add: apply_trim_stale, blast)
    then show ?thesis
      using D by (simp add: wal_inv_def)
  next
    case False
    then have "e < n" by simp
    note trim = apply_trim_rep [OF rep this n]
    have un: "unnested (wal_stream_prefix s) p" if "s \<in> ws_streams W" "s \<noteq> sid" for s
      using wal_settingD(1) [OF W] that sid p by blast
    have floor: "stream_floor (wal_stream_prefix s) (ww_table ?w) = stream_floor (wal_stream_prefix s) (ww_table w)"
      if "s \<in> ws_streams W" for s
      using trim(3) trim_cursors(1) [OF wal_prefix_ok wal_prefix_ok un [OF that, unfolded p]]
      by (cases "s = sid") (simp_all add: p)
    have earliest: "stream_earliest (wal_stream_prefix s) (ww_table w) \<le> stream_earliest (wal_stream_prefix s) (ww_table ?w)"
      if "s \<in> ws_streams W" for s
      using log_repD(6) [OF rep] log_repD(6) [OF trim(2)] \<open>e < n\<close>
        trim_cursors(2) [OF wal_prefix_ok wal_prefix_ok un [OF that, unfolded p]]
      by (cases "s = sid") (simp_all add: p)
    have "stream_ok W (ww_log w) (ww_stores w) (ww_table ?w) s" if s: "s \<in> ws_streams W" for s
    proof (cases "s = sid")
      case True
      have "log_rep (wal_stream_prefix sid) (ww_table ?w) (ww_log w sid) (filter (\<lambda>x. n < sr_end (snd x)) segs) n"
        using trim(2) by (simp add: p)
      then show ?thesis
        unfolding True by (rule stream_okI) (use segs in auto)
    next
      case False
      then show ?thesis
        using D(2) [OF s] stream_op_frame(3) [OF _ wal_prefix_ok [of sid]] un [OF s]
        unfolding stream_ok_def p by simp blast
    qed
    moreover have "pending_ok W (ww_log w) (ww_stores w) (ww_table ?w) (ww_pending w)"
      using floor by (intro pending_ok_mono [OF D(4)]) simp
    moreover have "reclaim_ok W (ww_log w) (ww_table ?w) (ww_reclaim w \<union> set trimmed)"
      unfolding reclaim_ok_def
    proof
      fix oc
      assume oc: "oc \<in> ww_reclaim w \<union> set trimmed"
      show "\<exists>s \<in> ws_streams W. reclaimable W (ww_log w) s (stream_earliest (wal_stream_prefix s) (ww_table ?w)) (snd oc)"
      proof (cases "oc \<in> set trimmed")
        case True
        then have "reclaimable W (ww_log w) sid (stream_earliest (wal_stream_prefix sid) (ww_table ?w)) (snd oc)"
          using tr log_repD(6) [OF trim(2)] by (simp add: p)
        then show ?thesis
          using sid by blast
      next
        case False
        then obtain s where s: "s \<in> ws_streams W"
          "reclaimable W (ww_log w) s (stream_earliest (wal_stream_prefix s) (ww_table w)) (snd oc)"
          using oc D(5) unfolding reclaim_ok_def by blast
        then show ?thesis
          using reclaimable_mono [OF s(2) earliest [OF s(1)]] by blast
      qed
    qed
    ultimately show ?thesis
      using D(1,3,6) by (simp add: wal_inv_def)
  qed
qed

text \<open>Reclaiming removes only blobs below the earliest offset.\<close>

lemma gc_stores:
  "gc_trimmed_cold_segments me tr st =
     (\<lambda>m c. if m = me \<and> (me, c) \<in> set tr then None else st m c)"
  unfolding gc_trimmed_cold_segments_def
proof (induction tr arbitrary: st)
  case (Cons oc tr)
  then show ?case
    by (cases oc) (auto simp: delete_cold_segment_def fun_eq_iff)
qed simp

lemma wal_gc_inv:
  assumes W: "wal_setting_ok W" and inv: "wal_inv W w" and tr: "set trimmed \<subseteq> ww_reclaim w"
  shows "wal_inv W (w\<lparr>ww_stores := gc_trimmed_cold_segments me trimmed (ww_stores w)\<rparr>)"
proof -
  note D = wal_invD [OF inv]
  let ?st = "gc_trimmed_cold_segments me trimmed (ww_stores w)"
  have keep: "?st m c = ww_stores w m c"
    if "s \<in> ws_streams W" "segment_of W (ww_log w) s b c x"
      "stream_earliest (wal_stream_prefix s) (ww_table w) < b + seal_batch (ws_policy W)" for m c s b x
  proof -
    have "(me, c) \<notin> ww_reclaim w"
    proof
      assume "(me, c) \<in> ww_reclaim w"
      then obtain s' b' x' where "segment_of W (ww_log w) s' b' c x'"
        "b' + seal_batch (ws_policy W) \<le> stream_earliest (wal_stream_prefix s') (ww_table w)"
        using D(5) unfolding reclaim_ok_def reclaimable_def by fastforce
      then show False
        using segment_of_unique [OF W that(2)] that(3) by fastforce
    qed
    then show ?thesis
      using tr by (auto simp: gc_stores)
  qed
  have "stream_ok W (ww_log w) ?st (ww_table w) s" if s: "s \<in> ws_streams W" for s
  proof -
    obtain segs e where rep: "log_rep (wal_stream_prefix s) (ww_table w) (ww_log w s) segs e"
      and segs: "\<And>x. x \<in> set segs \<Longrightarrow> sr_end (snd x) = fst x + seal_batch (ws_policy W)"
        "\<And>x. x \<in> set segs \<Longrightarrow> sr_origin (snd x) \<in> ws_nodes W"
        "\<And>x. x \<in> set segs \<Longrightarrow> \<exists>blob. segment_of W (ww_log w) s (fst x) (sr_content_id (snd x)) blob \<and>
                    ww_stores w (sr_origin (snd x)) (sr_content_id (snd x)) = Some blob"
      using D(2) [OF s] by (rule stream_okE) blast
    have "\<exists>blob. segment_of W (ww_log w) s (fst x) (sr_content_id (snd x)) blob \<and>
                    ?st (sr_origin (snd x)) (sr_content_id (snd x)) = Some blob" if x: "x \<in> set segs" for x
    proof -
      obtain blob where blob: "segment_of W (ww_log w) s (fst x) (sr_content_id (snd x)) blob"
        "ww_stores w (sr_origin (snd x)) (sr_content_id (snd x)) = Some blob"
        using segs(3) [OF x] by blast
      have "stream_earliest (wal_stream_prefix s) (ww_table w) < fst x + seal_batch (ws_policy W)"
        using log_repD(6,10) [OF rep] segs(1) [OF x] x by fastforce
      then show ?thesis
        using keep [OF s blob(1)] blob by auto
    qed
    then show ?thesis
      using rep segs(1,2) by (rule stream_okI [rotated 3])
  qed
  moreover have "stores_ok W (ww_log w) ?st"
    using D(3) unfolding stores_ok_def gc_stores by (auto split: if_splits)
  moreover have "pending_ok W (ww_log w) ?st (ww_table w) (ww_pending w)"
  proof -
    have "seal_ok W (ww_log w) ?st (ww_table w) p b endv cid origin sz"
      if ok: "seal_ok W (ww_log w) (ww_stores w) (ww_table w) p b endv cid origin sz" for p b endv cid origin sz
    proof -
      obtain sid x where *: "sid \<in> ws_streams W" "p = wal_stream_prefix sid" "endv = b + seal_batch (ws_policy W)"
          "segment_of W (ww_log w) sid b cid x" "sz = length x" "origin \<in> ws_nodes W"
        and st: "stream_floor p (ww_table w) \<le> b \<Longrightarrow> ww_stores w origin cid = Some x"
        using ok unfolding seal_ok_def by blast
      obtain segs e where rep: "log_rep (wal_stream_prefix sid) (ww_table w) (ww_log w sid) segs e"
        using D(2) [OF *(1)] by (rule stream_okE)
      have "?st origin cid = Some x" if "stream_floor p (ww_table w) \<le> b"
        using that st keep [OF *(1,4)] log_repD(6,7) [OF rep] wal_settingD(6) [OF W] *(2) by auto
      then show ?thesis
        using * unfolding seal_ok_def by blast
    qed
    then show ?thesis
      using D(4) unfolding pending_ok_def by simp
  qed
  ultimately show ?thesis
    using D(1,5,6) by (simp add: wal_inv_def)
qed

text \<open>A read of a sealed offset finds the blob, wherever it is, and the entry in it.\<close>

lemma read_cold_result:
  assumes W: "wal_setting_ok W" and inv: "wal_inv W w" and me: "me \<in> ws_nodes W" and sid: "sid \<in> ws_streams W"
    and c: "core_ok W (ww_log w) sid c" and n: "n < stream_floor (wal_stream_prefix sid) (ww_table w)"
  obtains res c' where "read_cold me (ww_stores w) (ww_table w) n c = (res, c')"
    "core_ok W (ww_log w) sid c'"
    "res = Inr (Some (ww_log w sid ! n)) \<or>
       res = Inr None \<and> n < stream_earliest (wal_stream_prefix sid) (ww_table w)"
proof -
  note D = wal_invD [OF inv]
  let ?p = "wal_stream_prefix sid"
  obtain segs e where rep: "log_rep ?p (ww_table w) (ww_log w sid) segs e"
    and segs: "\<And>x. x \<in> set segs \<Longrightarrow> sr_end (snd x) = fst x + seal_batch (ws_policy W)"
      "\<And>x. x \<in> set segs \<Longrightarrow> sr_origin (snd x) \<in> ws_nodes W"
      "\<And>x. x \<in> set segs \<Longrightarrow> \<exists>blob. segment_of W (ww_log w) sid (fst x) (sr_content_id (snd x)) blob \<and>
                    ww_stores w (sr_origin (snd x)) (sr_content_id (snd x)) = Some blob"
    using D(2) [OF sid] by (rule stream_okE) blast
  have p: "wc_prefix c = ?p"
    using c by (simp add: core_ok_def)
  have n64: "n < 2 ^ 64"
    using n log_repD(3,5) [OF rep] by linarith
  note frame = segment_of_frame [OF W D(1) sid]
  consider (cached) b endv x where "wc_seg_cache c = Some (b, endv, x)" "b \<le> n" "n < endv"
    | (cold) "(case wc_seg_cache c of
              Some (base, endv, blob) \<Rightarrow> if base \<le> n \<and> n < endv then Some (base, blob) else None
            | None \<Rightarrow> None) = None"
    by (cases "wc_seg_cache c") force+
  then show thesis
  proof cases
    case cached
    then obtain cid where "endv = b + seal_batch (ws_policy W)" "segment_of W (ww_log w) sid b cid x"
      using c by (auto simp: core_ok_def)
    then have "extract_frame x b n = Inr (ww_log w sid ! n)"
      using frame cached by simp
    then have "read_cold me (ww_stores w) (ww_table w) n c = (Inr (Some (ww_log w sid ! n)), c)"
      using cached by (simp add: read_cold_def)
    then show ?thesis
      using that c by blast
  next
    case cold
    show ?thesis
    proof (cases "find_segment ?p n (ww_table w)")
      case None
      then have "n < e"
        using find_segment_covers [OF rep _ n] by fastforce
      moreover have "read_cold me (ww_stores w) (ww_table w) n c = (Inr None, c)"
        using cold None by (simp add: read_cold_def p)
      ultimately show ?thesis
        using that c log_repD(6) [OF rep] by blast
    next
      case (Some x)
      note x = find_segment_sound [OF rep n64 Some]
      obtain blob where blob: "segment_of W (ww_log w) sid (fst x) (sr_content_id (snd x)) blob"
        "ww_stores w (sr_origin (snd x)) (sr_content_id (snd x)) = Some blob"
        using segs(3) [OF x(1)] by blast
      have here: "y = blob" if y: "ww_stores w me (sr_content_id (snd x)) = Some y" for y
      proof -
        obtain s b where "segment_of W (ww_log w) s b (sr_content_id (snd x)) y"
          using D(3) y unfolding stores_ok_def by blast
        from segment_of_unique [OF W blob(1) this] show ?thesis
          by simp
      qed
      have self: "sr_origin (snd x) = me" if "sr_origin (snd x) = []"
      proof -
        have "[] \<in> ws_nodes W"
          using segs(2) [OF x(1)] that by simp
        then have "ws_nodes W = {[]}"
          using wal_settingD(5) [OF W] by blast
        then show ?thesis
          using me that by simp
      qed
      have "read_cold_segment me (sr_content_id (snd x)) (sr_origin (snd x)) (ww_stores w) = Inr blob"
      proof (cases "ww_stores w me (sr_content_id (snd x))")
        case None
        then have "sr_origin (snd x) \<noteq> me"
          using blob(2) by auto
        with self have "sr_origin (snd x) \<noteq> [] \<and> sr_origin (snd x) \<noteq> me"
          by blast
        then show ?thesis
          using None blob(2) by (simp add: read_cold_segment_def)
      qed (simp add: read_cold_segment_def here)
      moreover have "extract_frame blob (fst x) n = Inr (ww_log w sid ! n)"
        using frame [OF blob(1)] x segs(1) [OF x(1)] by simp
      ultimately have "read_cold me (ww_stores w) (ww_table w) n c =
          (Inr (Some (ww_log w sid ! n)), c\<lparr>wc_seg_cache := Some (fst x, sr_end (snd x), blob)\<rparr>)"
        using cold Some by (simp add: read_cold_def p case_prod_beta)
      moreover have "core_ok W (ww_log w) sid (c\<lparr>wc_seg_cache := Some (fst x, sr_end (snd x), blob)\<rparr>)"
        using c blob(1) segs(1) [OF x(1)] by (auto simp: core_ok_def)
      ultimately show ?thesis
        using that by blast
    qed
  qed
qed

lemma wal_read_result:
  assumes W: "wal_setting_ok W" and inv: "wal_inv W w" and me: "me \<in> ws_nodes W" and sid: "sid \<in> ws_streams W"
    and c: "core_ok W (ww_log w) sid c"
  obtains r c' where "wal_read_at me (ww_stores w) (ww_table w) n c = (r, c')" "core_ok W (ww_log w) sid c'"
    "r = (if length (ww_log w sid) \<le> n then SErr (if wc_closed c then StreamClosedEmpty else StreamEmpty)
          else SOk (ww_log w sid ! n, n + 1)) \<or>
     n < stream_earliest (wal_stream_prefix sid) (ww_table w) \<and>
     r = SErr (StreamTruncated (stream_earliest (wal_stream_prefix sid) (ww_table w)) n)"
proof -
  let ?p = "wal_stream_prefix sid"
  obtain segs e where rep: "log_rep ?p (ww_table w) (ww_log w sid) segs e"
    using wal_invD(2) [OF inv sid] by (rule stream_okE)
  note R = log_repD [OF rep]
  have p: "wc_prefix c = ?p" "wc_cold c"
    using c by (simp_all add: core_ok_def)
  have hot: "get_stream_entry (stream_entry_key ?p n) (ww_table w) =
      (if stream_floor ?p (ww_table w) \<le> n \<and> n < length (ww_log w sid) then Some (ww_log w sid ! n) else None)"
    using R(8) by (simp add: get_stream_entry_def hot_rows_def)
  show thesis
  proof (cases "n < stream_floor ?p (ww_table w)")
    case False
    then show ?thesis
      using that [of "if length (ww_log w sid) \<le> n then SErr (if wc_closed c then StreamClosedEmpty else StreamEmpty)
          else SOk (ww_log w sid ! n, n + 1)" c] c hot R(6,7)
      by (cases "length (ww_log w sid) \<le> n")
        (simp_all add: wal_read_at_def read_committed_def p wal_earliest_offset_def Let_def)
  next
    case True
    obtain res c' where "read_cold me (ww_stores w) (ww_table w) n c = (res, c')" and c': "core_ok W (ww_log w) sid c'"
      and res: "res = Inr (Some (ww_log w sid ! n)) \<or> res = Inr None \<and> n < stream_earliest ?p (ww_table w)"
      using read_cold_result [OF W inv me sid c True] by blast
    then have "read_committed me (ww_stores w) (ww_table w) n c = (res, c')"
      using True hot by (simp add: read_committed_def p)
    then show ?thesis
      using that c' res True R(5) p by (auto simp: wal_read_at_def wal_earliest_offset_def Let_def)
  qed
qed

lemma wal_reach_inv:
  assumes W: "wal_setting_ok W"
  shows "(wal_step W)\<^sup>*\<^sup>* (wal_init W) w \<Longrightarrow> wal_inv W w"
proof (induction rule: rtranclp_induct)
  case (step w w')
  from step(2,3) show ?case
  proof (induction rule: wal_step.induct)
    case (read me sid w seq)
    obtain r c' where c': "wal_read_at me (ww_stores w) (ww_table w) seq (ww_core w me sid) = (r, c')"
      "core_ok W (ww_log w) sid c'"
      using wal_read_result [OF W read(3,1,2) wal_invD(6) [OF read(3,2)]] by blast
    then show ?case
      using wal_invD [OF read(3)] by (simp add: wal_inv_def)
  next
    case (close w me sid)
    have "core_ok W (ww_log w) sid (wal_close c)" if "core_ok W (ww_log w) sid c" for c
      using that by (simp add: core_ok_def wal_close_def)
    then show ?case
      using wal_invD [OF close] by (simp add: wal_inv_def)
  qed (auto intro: wal_append_inv wal_seal_inv wal_apply_seal_inv wal_trim_inv wal_apply_trim_inv wal_gc_inv W)
qed (rule wal_init_inv)

text \<open>Paths as content ids tell segments apart.\<close>

lemma segment_path_inj: "segment_path z a b x = segment_path z a' b' x' \<longleftrightarrow> a = a' \<and> b = b'"
proof -
  have "rfind (CHR ''/'') (c @ CHR ''/'' # dec_digits n) = Some (length c)" for c n
    using digits_no_slash [OF dec_digits_digits] by simp
  then have "a @ CHR ''/'' # dec_digits b = a' @ CHR ''/'' # dec_digits b' \<Longrightarrow> length a = length a'"
    by (metis option.inject)
  then show ?thesis
    by (auto simp: segment_path_def)
qed

definition example_setting :: WalSetting where
  "example_setting =
     \<lparr>ws_streams = {''/s''}, ws_nodes = {''n1''}, ws_policy = \<lparr>hot_window = 0, seal_batch = 1\<rparr>,
      ws_retention = (\<lambda>_. 0), ws_cids = segment_path ''z''\<rparr>"

lemma example_setting_ok: "wal_setting_ok example_setting"
proof -
  have "utf8_string (segment_path ''z'' ''/s'' b x)" for b x
  proof -
    have "utf8_string (''/__stream_segments__/z/s/'' @ dec_digits b)"
      by (subst utf8_string_append) (code_simp, rule utf8_digits [OF dec_digits_digits])
    then show ?thesis
      by (simp add: segment_path_def)
  qed
  moreover have "utf8_string ''n1''"
    by code_simp
  ultimately show ?thesis
    by (simp add: wal_setting_ok_def example_setting_def segment_path_inj)
qed



section \<open>Where streams and stores do interfere\<close>

definition nested_streams :: stream_table where
  "nested_streams =
     (let a = wal_stream_prefix ''/a''; b = wal_stream_prefix ''/a/b'';
          t = snd (apply_append b [1] (snd (apply_append a [1] [])));
          t = snd (apply_seal a 0 1 ''ida'' ''n'' 21 t)
      in snd (apply_seal b 0 1 ''idb'' ''n'' 21 t))"



end
