(* ===== verification/Record_Control.thy ===== *)
theory Record_Control
  imports Stream_Log "HOL-Library.Monad_Syntax"
begin

text \<open>
  The records of the control store that the apply path owns
  (\<^verbatim>\<open>raft/src/raft/state_machine/conditional_metadata.rs\<close>,
  \<^verbatim>\<open>protected_metadata.rs\<close>, \<^verbatim>\<open>record_guard.rs\<close>, \<^verbatim>\<open>record_guard/io.rs\<close>): content
  revisions and their allocator, the conditional-only policy of a path, the
  binding of a record to its owner, and the retirement of an owner.

  The three redb trees of a zone are one record; a function of a write
  transaction returns the trees it leaves.  \<^term>\<open>None\<close> is an \<^verbatim>\<open>Err\<close> inside the
  transaction: the apply path panics on each of them, whatever its text.
  The lemmas of this theory are a type invariant under which the transaction
  functions cannot fail, and frame rules: which key of which tree each function
  may change.
\<close>

section \<open>Tables\<close>

record Tables =
  tb_metadata :: "(string, bytes) omap"
  tb_streams :: stream_table
  tb_control :: "(string, bytes) omap"

datatype RaftError = StorageError | UnsupportedOperation | InvalidState | ConfigError

text \<open>The \<^verbatim>\<open>?\<close> operator inside a transaction.\<close>

definition ok_value :: "RaftError + 'a \<Rightarrow> 'a option" where
  "ok_value r = (case r of Inl _ \<Rightarrow> None | Inr x \<Rightarrow> Some x)"

definition control_key :: "string \<Rightarrow> string \<Rightarrow> string" where
  "control_key namespace key = namespace @ [CHR 0x00] @ key"

definition put_metadata :: "string \<Rightarrow> bytes \<Rightarrow> Tables \<Rightarrow> Tables" where
  "put_metadata key v t = t\<lparr>tb_metadata := om_put key v (tb_metadata t)\<rparr>"

definition put_control :: "string \<Rightarrow> bytes \<Rightarrow> Tables \<Rightarrow> Tables" where
  "put_control key v t = t\<lparr>tb_control := om_put key v (tb_control t)\<rparr>"

section \<open>Content revisions\<close>

definition ALLOCATOR :: string where
  "ALLOCATOR = ''allocator''"

definition PATH_PREFIX :: string where
  "PATH_PREFIX = ''path:''"

definition TOKEN_LEN :: nat where
  "TOKEN_LEN = 24"

definition revision_key :: "string \<Rightarrow> string" where
  "revision_key path = control_key NAMESPACE (PATH_PREFIX @ path)"

definition versioned_image :: "bytes option \<Rightarrow> bytes option \<Rightarrow> RaftError + VersionedMetadata" where
  "versioned_image value version =
     (case value of
        None \<Rightarrow> Inr \<lparr>vm_value = None, vm_version = None\<rparr>
      | Some _ \<Rightarrow>
          (case version of
             None \<Rightarrow> Inl UnsupportedOperation
           | Some v \<Rightarrow>
               if length v \<noteq> TOKEN_LEN then Inl StorageError
               else Inr \<lparr>vm_value = value, vm_version = version\<rparr>))"

definition require_managed_key :: "string \<Rightarrow> RaftError + unit" where
  "require_managed_key key = (if is_managed_content_path key then Inr () else Inl UnsupportedOperation)"

definition metadata_in_txn :: "string \<Rightarrow> Tables \<Rightarrow> bytes option" where
  "metadata_in_txn key t = map_of (tb_metadata t) key"

definition revision_in_txn :: "string \<Rightarrow> Tables \<Rightarrow> bytes option" where
  "revision_in_txn key t = map_of (tb_control t) (revision_key key)"

definition allocator_key :: string where
  "allocator_key = control_key NAMESPACE ALLOCATOR"

definition allocate_revision :: "string \<Rightarrow> incarnation option \<Rightarrow> Tables \<Rightarrow> (bytes \<times> Tables) option" where
  "allocate_revision key initial t =
     do {
       token \<leftarrow> (case map_of (tb_control t) allocator_key of
                   Some token \<Rightarrow> if length token = TOKEN_LEN then Some token else None
                 | None \<Rightarrow>
                     (case initial of
                        None \<Rightarrow> None
                      | Some incarnation \<Rightarrow> Some (be_bytes 16 (unat incarnation) @ be_bytes 8 0)));
       let counter = be_value (drop 16 token);
       if counter + 1 < 2 ^ 64
       then let token' = take 16 token @ be_bytes 8 (counter + 1)
            in Some (token', put_control (revision_key key) token' (put_control allocator_key token' t))
       else None
     }"

definition refresh_tracked_version :: "string \<Rightarrow> Tables \<Rightarrow> (bool \<times> Tables) option" where
  "refresh_tracked_version key t =
     (if \<not> is_managed_content_path key then Some (False, t)
      else case revision_in_txn key t of
             Some _ \<Rightarrow> do { (_, t') \<leftarrow> allocate_revision key None t; Some (True, t') }
           | None \<Rightarrow> Some (False, t))"

section \<open>Protected paths\<close>

definition POLICY_PREFIX :: string where
  "POLICY_PREFIX = ''protected:''"

definition CONDITIONAL_ONLY :: bytes where
  "CONDITIONAL_ONLY = string_bytes ''conditional-only-v1''"

definition RECORD_OWNER :: bytes where
  "RECORD_OWNER = string_bytes ''record-owner-v1''"

definition RECORD_IO_OWNER :: bytes where
  "RECORD_IO_OWNER = string_bytes ''record-owner-io-v1''"

definition GUARDED_RECORDS :: bytes where
  "GUARDED_RECORDS = string_bytes ''guarded-records-v1''"

definition RECORD_IO :: bytes where
  "RECORD_IO = string_bytes ''guarded-record-io-v1''"

definition REQUIREMENT :: string where
  "REQUIREMENT = ''requires:protected-records-v1''"

definition requirement_key :: string where
  "requirement_key = control_key NAMESPACE REQUIREMENT"

datatype MembershipPolicy = Managed | FixedLocal

definition validate_policy :: "bool \<Rightarrow> MembershipPolicy \<Rightarrow> RaftError + unit" where
  "validate_policy required policy = (if required \<and> policy \<noteq> FixedLocal then Inl ConfigError else Inr ())"

definition policy_key :: "string \<Rightarrow> string" where
  "policy_key path = control_key NAMESPACE (POLICY_PREFIX @ path)"

definition decode_policy :: "bytes option \<Rightarrow> RaftError + bool" where
  "decode_policy value =
     (case value of
        None \<Rightarrow> Inr False
      | Some v \<Rightarrow>
          if v = CONDITIONAL_ONLY \<or> v = RECORD_OWNER \<or> v = RECORD_IO_OWNER then Inr True else Inl StorageError)"

definition decode_requirement :: "bytes option \<Rightarrow> RaftError + bool" where
  "decode_requirement value =
     (case value of
        None \<Rightarrow> Inr False
      | Some v \<Rightarrow>
          if v = CONDITIONAL_ONLY \<or> v = GUARDED_RECORDS \<or> v = RECORD_IO then Inr True else Inl StorageError)"

definition is_protected_metadata :: "string \<Rightarrow> Tables \<Rightarrow> RaftError + bool" where
  "is_protected_metadata path t = decode_policy (map_of (tb_control t) (policy_key path))"

definition record_policy_in_txn :: "string \<Rightarrow> Tables \<Rightarrow> bytes option" where
  "record_policy_in_txn path t = map_of (tb_control t) (policy_key path)"

definition protected_in_txn :: "string \<Rightarrow> Tables \<Rightarrow> bool option" where
  "protected_in_txn path t = ok_value (decode_policy (record_policy_in_txn path t))"

definition ordinary_metadata_refusal :: "string \<Rightarrow> Tables \<Rightarrow> CommandResult option option" where
  "ordinary_metadata_refusal path t =
     do { p \<leftarrow> protected_in_txn path t;
          Some (if p then Some (ErrorResult ProtectedNeedsConditional) else None) }"

definition validate_protected_storage_policy :: "MembershipPolicy \<Rightarrow> Tables \<Rightarrow> RaftError + unit" where
  "validate_protected_storage_policy policy t =
     (case decode_requirement (map_of (tb_control t) requirement_key) of
        Inl e \<Rightarrow> Inl e
      | Inr required \<Rightarrow> validate_policy required policy)"

definition is_record_owner_in_txn :: "string \<Rightarrow> Tables \<Rightarrow> bool" where
  "is_record_owner_in_txn path t =
     (record_policy_in_txn path t \<in> {Some RECORD_OWNER, Some RECORD_IO_OWNER})"

definition mark_record_owner_in_txn :: "string \<Rightarrow> Tables \<Rightarrow> Tables" where
  "mark_record_owner_in_txn path t =
     put_control (policy_key path)
       (if record_policy_in_txn path t = Some RECORD_IO_OWNER then RECORD_IO_OWNER else RECORD_OWNER) t"

definition require_record_format_in_txn :: "bool \<Rightarrow> Tables \<Rightarrow> Tables option" where
  "require_record_format_in_txn guarded t =
     (let current = map_of (tb_control t) requirement_key in
      do { _ \<leftarrow> ok_value (decode_requirement current);
           Some (put_control requirement_key
                   (if current = Some RECORD_IO then RECORD_IO
                    else if guarded \<or> current = Some GUARDED_RECORDS then GUARDED_RECORDS
                    else CONDITIONAL_ONLY) t) })"

definition mark_record_io_owner_in_txn :: "string \<Rightarrow> Tables \<Rightarrow> Tables option" where
  "mark_record_io_owner_in_txn path t =
     do { t1 \<leftarrow> require_record_format_in_txn True t;
          Some (put_control requirement_key RECORD_IO (put_control (policy_key path) RECORD_IO_OWNER t1)) }"

definition adopt_protected_in_txn ::
  "string \<Rightarrow> bytes option \<Rightarrow> incarnation \<Rightarrow> Tables \<Rightarrow> (CommandResult \<times> Tables) option" where
  "adopt_protected_in_txn key expected_image incarnation t =
     do {
       let value = metadata_in_txn key t;
       p \<leftarrow> protected_in_txn key t;
       if p then Some (ProtectedMetadata True, t)
       else if value \<noteq> expected_image then Some (ProtectedMetadata False, t)
       else do {
         t1 \<leftarrow> (if value \<noteq> None then map_option snd (allocate_revision key (Some incarnation) t) else Some t);
         t2 \<leftarrow> require_record_format_in_txn False (put_control (policy_key key) CONDITIONAL_ONLY t1);
         Some (ProtectedMetadata True, t2)
       }
     }"

definition ordinary_write_is_protected :: "Command \<Rightarrow> Tables \<Rightarrow> RaftError + bool" where
  "ordinary_write_is_protected c t =
     (case ordinary_metadata_key c of None \<Rightarrow> Inr False | Some path \<Rightarrow> is_protected_metadata path t)"

text \<open>The paths with a policy, or an error if one of the stored policies is unknown.\<close>

definition protected_metadata_paths :: "Tables \<Rightarrow> RaftError + string list" where
  "protected_metadata_paths t =
     (let rows = filter (\<lambda>e. starts_with (fst e) (policy_key [])) (tb_control t);
          path = (\<lambda>e. drop (length (policy_key [])) (fst e))
      in if list_all (\<lambda>e. decode_policy (Some (snd e)) = Inr True \<and> utf8_string (path e)) rows
         then Inr (map path rows) else Inl StorageError)"

section \<open>Conditional writes\<close>

definition get_versioned_metadata :: "string \<Rightarrow> Tables \<Rightarrow> RaftError + VersionedMetadata" where
  "get_versioned_metadata key t =
     (case (if is_managed_content_path key then Inr ()
            else case is_protected_metadata key t of
                   Inl e \<Rightarrow> Inl e
                 | Inr p \<Rightarrow> if p then Inr () else require_managed_key key) of
        Inl e \<Rightarrow> Inl e
      | Inr _ \<Rightarrow> versioned_image (metadata_in_txn key t) (revision_in_txn key t))"

definition write_versioned_in_txn ::
  "string \<Rightarrow> bytes \<Rightarrow> bytes option \<Rightarrow> incarnation \<Rightarrow> Tables \<Rightarrow> (CommandResult \<times> Tables) option" where
  "write_versioned_in_txn key v expected incarnation t =
     do {
       admitted \<leftarrow> (if is_managed_content_path key then Some True else protected_in_txn key t);
       if \<not> admitted then Some (ConditionalMetadataUnsupported, t)
       else if metadata_in_txn key t \<noteq> None \<and> revision_in_txn key t = None
       then Some (ConditionalMetadataUnsupported, t)
       else do {
         current \<leftarrow> ok_value (versioned_image (metadata_in_txn key t) (revision_in_txn key t));
         if vm_version current \<noteq> expected then Some (ConditionalMetadata False current, t)
         else do {
           (version, t1) \<leftarrow> allocate_revision key (Some incarnation) t;
           Some (ConditionalMetadata True \<lparr>vm_value = Some v, vm_version = Some version\<rparr>,
                 put_metadata key v t1)
         }
       }
     }"

section \<open>Owners of records\<close>

definition BINDING_PREFIX :: string where
  "BINDING_PREFIX = ''guard:''"

definition RETIRED_PREFIX :: string where
  "RETIRED_PREFIX = ''retired-guard:''"

definition record_control_key :: "string \<Rightarrow> string \<Rightarrow> string" where
  "record_control_key pre path = control_key NAMESPACE (pre @ path)"

definition record_control_in_txn :: "string \<Rightarrow> string \<Rightarrow> Tables \<Rightarrow> bytes option" where
  "record_control_in_txn pre path t = map_of (tb_control t) (record_control_key pre path)"

definition put_record_control_in_txn :: "string \<Rightarrow> string \<Rightarrow> bytes \<Rightarrow> Tables \<Rightarrow> Tables" where
  "put_record_control_in_txn pre path v t = put_control (record_control_key pre path) v t"

definition live_record_guard_in_txn :: "string \<Rightarrow> bytes \<Rightarrow> Tables \<Rightarrow> bool option" where
  "live_record_guard_in_txn guard_key expected t =
     do { p \<leftarrow> protected_in_txn guard_key t;
          Some (p \<and> record_control_in_txn RETIRED_PREFIX guard_key t = None \<and>
                metadata_in_txn guard_key t \<noteq> None \<and> revision_in_txn guard_key t = Some expected) }"

definition guarded_record_refusal ::
  "bytes \<Rightarrow> GuardedRecordMutation \<Rightarrow> Tables \<Rightarrow> CommandResult option option" where
  "guarded_record_refusal guard_version mutation t =
     (case mutation_key mutation of
        None \<Rightarrow> Some (Some (ErrorResult UnsupportedGuardedMutation))
      | Some key \<Rightarrow>
          (case record_control_in_txn BINDING_PREFIX key t of
             None \<Rightarrow> Some (Some (ErrorResult NoAdmittedOwner))
           | Some binding \<Rightarrow>
               do { guard_key \<leftarrow> from_utf8 binding;
                    live \<leftarrow> live_record_guard_in_txn guard_key guard_version t;
                    Some (if live then None else Some (ErrorResult OwnerNotLive)) }))"

definition record_guard_refusal :: "Command \<Rightarrow> Tables \<Rightarrow> CommandResult option option" where
  "record_guard_refusal c t =
     (case c of
        GuardedRecord guard_version mutation \<Rightarrow> guarded_record_refusal guard_version mutation t
      | _ \<Rightarrow>
          if (case record_stream_prefix c of
                Some p \<Rightarrow> starts_with p WAL_STREAM_KEY_PREFIX \<and> \<not> ends_with p ''/''
              | None \<Rightarrow> False)
          then Some (Some (ErrorResult InvalidStreamPrefix))
          else case guarded_record_key c of
                 None \<Rightarrow> Some None
               | Some key \<Rightarrow>
                   if record_control_in_txn RETIRED_PREFIX key t \<noteq> None
                   then Some (Some (ErrorResult OwnerRetired))
                   else if record_control_in_txn BINDING_PREFIX key t \<noteq> None
                   then Some (Some (ErrorResult NeedsOwnerHandle))
                   else Some None)"

definition bind_record_guard_in_txn ::
  "string \<Rightarrow> bytes option \<Rightarrow> string \<Rightarrow> bytes \<Rightarrow> incarnation \<Rightarrow> Tables \<Rightarrow> (CommandResult \<times> Tables) option" where
  "bind_record_guard_in_txn key expected_image guard_key guard_version incarnation t =
     (case validate_path_fast key of
        Inl e \<Rightarrow> Some (ErrorResult (InvalidPath e), t)
      | Inr _ \<Rightarrow>
     (case validate_path_fast guard_key of
        Inl e \<Rightarrow> Some (ErrorResult (InvalidPath e), t)
      | Inr _ \<Rightarrow>
          do {
            not_live \<leftarrow> (if key = guard_key \<or> record_control_in_txn BINDING_PREFIX guard_key t \<noteq> None
                        then Some True
                        else map_option Not (live_record_guard_in_txn guard_key guard_version t));
            if not_live then Some (ErrorResult OwnerNotLive, t)
            else if is_record_owner_in_txn key t \<or> record_control_in_txn RETIRED_PREFIX key t \<noteq> None
            then Some (ErrorResult OwnerCannotBeRecord, t)
            else case record_control_in_txn BINDING_PREFIX key t of
              Some binding \<Rightarrow>
                Some (if binding = string_bytes guard_key then Success else ErrorResult DifferentOwner, t)
            | None \<Rightarrow>
                if metadata_in_txn key t \<noteq> expected_image then Some (ErrorResult RecordChanged, t)
                else do {
                  (_, t1) \<leftarrow> adopt_protected_in_txn key expected_image incarnation t;
                  t2 \<leftarrow> require_record_format_in_txn True (mark_record_owner_in_txn guard_key t1);
                  Some (Success, put_record_control_in_txn BINDING_PREFIX key (string_bytes guard_key) t2)
                }
          }))"

definition retire_record_guard_in_txn ::
  "string \<Rightarrow> bytes \<Rightarrow> bytes \<Rightarrow> incarnation \<Rightarrow> Tables \<Rightarrow> (CommandResult \<times> Tables) option" where
  "retire_record_guard_in_txn key expected terminal_image incarnation t =
     do {
       not_live \<leftarrow> (if record_control_in_txn BINDING_PREFIX key t \<noteq> None then Some True
                   else map_option Not (live_record_guard_in_txn key expected t));
       if not_live then Some (ErrorResult OwnerNotLive, t)
       else do {
         (result, t1) \<leftarrow> write_versioned_in_txn key terminal_image (Some expected) incarnation t;
         t2 \<leftarrow> require_record_format_in_txn True (mark_record_owner_in_txn key t1);
         (case result of
            ConditionalMetadata True current \<Rightarrow>
              (case vm_version current of
                 None \<Rightarrow> None
               | Some version \<Rightarrow> Some (result, put_record_control_in_txn RETIRED_PREFIX key version t2))
          | _ \<Rightarrow> None)
       }
     }"

definition admit_record_io_in_txn :: "string \<Rightarrow> bytes \<Rightarrow> Tables \<Rightarrow> (CommandResult \<times> Tables) option" where
  "admit_record_io_in_txn owner expected t =
     (case validate_path_fast owner of
        Inl e \<Rightarrow> Some (ErrorResult (InvalidPath e), t)
      | Inr _ \<Rightarrow>
          do {
            not_live \<leftarrow> (if record_control_in_txn BINDING_PREFIX owner t \<noteq> None then Some True
                        else map_option Not (live_record_guard_in_txn owner expected t));
            if not_live then Some (ErrorResult OwnerNotLive, t)
            else do { t1 \<leftarrow> mark_record_io_owner_in_txn owner t; Some (Success, t1) }
          })"

definition is_record_io_owner_in_read :: "string \<Rightarrow> Tables \<Rightarrow> bool" where
  "is_record_io_owner_in_read path t = (record_policy_in_txn path t = Some RECORD_IO_OWNER)"

text \<open>The owner under whose lifetime a record's content may be touched.\<close>

definition live_record_io_domain :: "string \<Rightarrow> bytes \<Rightarrow> Tables \<Rightarrow> RaftError + string" where
  "live_record_io_domain key expected t =
     (case (case record_control_in_txn BINDING_PREFIX key t of
              Some binding \<Rightarrow> (case from_utf8 binding of None \<Rightarrow> Inl StorageError | Some s \<Rightarrow> Inr s)
            | None \<Rightarrow> if is_record_io_owner_in_read key t then Inr key else Inl UnsupportedOperation) of
        Inl e \<Rightarrow> Inl e
      | Inr owner \<Rightarrow>
          if \<not> is_record_io_owner_in_read owner t then Inl UnsupportedOperation
          else case get_versioned_metadata owner t of
                 Inl e \<Rightarrow> Inl e
               | Inr img \<Rightarrow>
                   if vm_version img \<noteq> Some expected \<or> record_control_in_txn RETIRED_PREFIX owner t \<noteq> None
                   then Inl InvalidState else Inr owner)"

definition retired_record_io_domain :: "string \<Rightarrow> bytes \<Rightarrow> Tables \<Rightarrow> RaftError + string" where
  "retired_record_io_domain owner terminal_version t =
     (if \<not> is_record_io_owner_in_read owner t then Inl UnsupportedOperation
      else case get_versioned_metadata owner t of
             Inl e \<Rightarrow> Inl e
           | Inr img \<Rightarrow>
               if vm_version img \<noteq> Some terminal_version \<or>
                  record_control_in_txn RETIRED_PREFIX owner t \<noteq> Some terminal_version
               then Inl InvalidState else Inr owner)"

section \<open>Keys\<close>

named_theorems control_keys "distinctness of the keys of the control store"
named_theorems control_defs "reads of the control store as lookups"

lemma control_key_eq [control_keys]:
  "control_key ns a = control_key ns b \<longleftrightarrow> a = b"
  by (simp add: control_key_def)

lemma control_key_namespace:
  assumes "CHR 0x00 \<notin> set a" and "CHR 0x00 \<notin> set b"
  shows "control_key a x = control_key b y \<longleftrightarrow> a = b \<and> x = y"
proof
  assume "control_key a x = control_key b y"
  then have "split_once (CHR 0x00) (a @ CHR 0x00 # x) = split_once (CHR 0x00) (b @ CHR 0x00 # y)"
    by (simp add: control_key_def)
  then show "a = b \<and> x = y"
    using assms by simp
qed simp

lemma record_keys_eq [control_keys]:
  "revision_key p = revision_key q \<longleftrightarrow> p = q" "policy_key p = policy_key q \<longleftrightarrow> p = q"
  "record_control_key pre p = record_control_key pre q \<longleftrightarrow> p = q"
  by (simp_all add: revision_key_def policy_key_def record_control_key_def control_keys)

lemmas record_key_defs =
  revision_key_def policy_key_def record_control_key_def allocator_key_def requirement_key_def
  PATH_PREFIX_def POLICY_PREFIX_def BINDING_PREFIX_def RETIRED_PREFIX_def ALLOCATOR_def REQUIREMENT_def

lemma record_keys_neq [control_keys]:
  "revision_key p \<noteq> policy_key q" "revision_key p \<noteq> record_control_key BINDING_PREFIX q"
  "revision_key p \<noteq> record_control_key RETIRED_PREFIX q" "revision_key p \<noteq> allocator_key"
  "revision_key p \<noteq> requirement_key" "policy_key p \<noteq> revision_key q"
  "policy_key p \<noteq> record_control_key BINDING_PREFIX q" "policy_key p \<noteq> record_control_key RETIRED_PREFIX q"
  "policy_key p \<noteq> allocator_key" "policy_key p \<noteq> requirement_key"
  "record_control_key BINDING_PREFIX p \<noteq> revision_key q" "record_control_key BINDING_PREFIX p \<noteq> policy_key q"
  "record_control_key BINDING_PREFIX p \<noteq> record_control_key RETIRED_PREFIX q"
  "record_control_key BINDING_PREFIX p \<noteq> allocator_key" "record_control_key BINDING_PREFIX p \<noteq> requirement_key"
  "record_control_key RETIRED_PREFIX p \<noteq> revision_key q" "record_control_key RETIRED_PREFIX p \<noteq> policy_key q"
  "record_control_key RETIRED_PREFIX p \<noteq> record_control_key BINDING_PREFIX q"
  "record_control_key RETIRED_PREFIX p \<noteq> allocator_key" "record_control_key RETIRED_PREFIX p \<noteq> requirement_key"
  "allocator_key \<noteq> revision_key p" "allocator_key \<noteq> policy_key p"
  "allocator_key \<noteq> record_control_key BINDING_PREFIX p" "allocator_key \<noteq> record_control_key RETIRED_PREFIX p"
  "allocator_key \<noteq> requirement_key" "requirement_key \<noteq> revision_key p" "requirement_key \<noteq> policy_key p"
  "requirement_key \<noteq> record_control_key BINDING_PREFIX p" "requirement_key \<noteq> record_control_key RETIRED_PREFIX p"
  "requirement_key \<noteq> allocator_key"
  by (simp_all add: record_key_defs control_key_eq)

lemma NAMESPACE_no_nul: "CHR 0x00 \<notin> set NAMESPACE"
  by (simp add: NAMESPACE_def)

text \<open>A key of another namespace is none of the owned keys.\<close>

definition owned_key :: "string \<Rightarrow> bool" where
  "owned_key k \<longleftrightarrow> (\<exists>x. k = control_key NAMESPACE x)"

lemma owned_keys [control_keys]:
  "owned_key (revision_key p)" "owned_key (policy_key p)" "owned_key (record_control_key pre p)"
  "owned_key allocator_key" "owned_key requirement_key"
  by (auto simp: owned_key_def record_key_defs)

lemma foreign_key:
  "CHR 0x00 \<notin> set ns \<Longrightarrow> ns \<noteq> NAMESPACE \<Longrightarrow> \<not> owned_key (control_key ns x)"
  by (simp add: owned_key_def control_key_namespace NAMESPACE_no_nul)

lemma put_control_simps [simp]:
  "tb_metadata (put_control k v t) = tb_metadata t" "tb_streams (put_control k v t) = tb_streams t"
  "map_of (tb_control (put_control k v t)) = (map_of (tb_control t))(k \<mapsto> v)"
  "tb_streams (put_metadata k v t) = tb_streams t" "tb_control (put_metadata k v t) = tb_control t"
  "map_of (tb_metadata (put_metadata k v t)) = (map_of (tb_metadata t))(k \<mapsto> v)"
  by (simp_all add: put_control_def put_metadata_def)

lemmas [control_defs] =
  metadata_in_txn_def revision_in_txn_def record_policy_in_txn_def record_control_in_txn_def
  put_record_control_in_txn_def

section \<open>The type of the control store\<close>

definition token_counter :: "bytes \<Rightarrow> nat" where
  "token_counter v = be_value (drop 16 v)"

definition policies :: "bytes set" where
  "policies = {CONDITIONAL_ONLY, RECORD_OWNER, RECORD_IO_OWNER}"

definition requirements :: "bytes set" where
  "requirements = {CONDITIONAL_ONLY, GUARDED_RECORDS, RECORD_IO}"

text \<open>
  Revisions are tokens of the allocator's incarnation, not above its counter; a
  bound record is protected and names its owner by an absolute path; a retired owner is protected
  and bound to nobody.
\<close>

definition control_ok :: "(string \<rightharpoonup> bytes) \<Rightarrow> bool" where
  "control_ok m \<longleftrightarrow>
     (\<forall>a. m allocator_key = Some a \<longrightarrow> length a = TOKEN_LEN) \<and>
     (\<forall>p v. m (revision_key p) = Some v \<longrightarrow>
        length v = TOKEN_LEN \<and>
        (\<exists>a. m allocator_key = Some a \<and> take 16 v = take 16 a \<and> token_counter v \<le> token_counter a)) \<and>
     (\<forall>p v. m (policy_key p) = Some v \<longrightarrow> v \<in> policies) \<and>
     (\<forall>v. m requirement_key = Some v \<longrightarrow> v \<in> requirements) \<and>
     (\<forall>p v. m (record_control_key BINDING_PREFIX p) = Some v \<longrightarrow>
        m (policy_key p) \<noteq> None \<and> (\<exists>g. utf8_string g \<and> starts_with g ''/'' \<and> v = string_bytes g)) \<and>
     (\<forall>p v. m (record_control_key RETIRED_PREFIX p) = Some v \<longrightarrow>
        m (policy_key p) \<noteq> None \<and> m (record_control_key BINDING_PREFIX p) = None)"

lemma control_okD:
  assumes "control_ok m"
  shows "m allocator_key = Some a \<Longrightarrow> length a = TOKEN_LEN"
    "m (revision_key p) = Some v \<Longrightarrow> length v = TOKEN_LEN"
    "m (revision_key p) = Some v \<Longrightarrow>
       \<exists>a. m allocator_key = Some a \<and> take 16 v = take 16 a \<and> token_counter v \<le> token_counter a"
    "m (policy_key p) = Some v \<Longrightarrow> v \<in> policies"
    "m requirement_key = Some v \<Longrightarrow> v \<in> requirements"
    "m (record_control_key BINDING_PREFIX p) = Some v \<Longrightarrow> m (policy_key p) \<noteq> None"
    "m (record_control_key BINDING_PREFIX p) = Some v \<Longrightarrow> \<exists>g. utf8_string g \<and> starts_with g ''/'' \<and> v = string_bytes g"
    "m (record_control_key RETIRED_PREFIX p) = Some v \<Longrightarrow> m (policy_key p) \<noteq> None"
    "m (record_control_key RETIRED_PREFIX p) = Some v \<Longrightarrow> m (record_control_key BINDING_PREFIX p) = None"
  using assms unfolding control_ok_def by meson+

lemma control_ok_empty [simp]: "control_ok Map.empty"
  by (simp add: control_ok_def)

lemma control_ok_token:
  assumes "control_ok m" and "length tok = TOKEN_LEN"
    and "\<And>a. m allocator_key = Some a \<Longrightarrow> take 16 tok = take 16 a \<and> token_counter a \<le> token_counter tok"
  shows "control_ok (m(allocator_key \<mapsto> tok, revision_key p \<mapsto> tok))"
  unfolding control_ok_def
proof (intro conjI allI impI)
  fix q v
  assume *: "(m(allocator_key \<mapsto> tok, revision_key p \<mapsto> tok)) (revision_key q) = Some v"
  show "\<exists>a. (m(allocator_key \<mapsto> tok, revision_key p \<mapsto> tok)) allocator_key = Some a \<and>
      take 16 v = take 16 a \<and> token_counter v \<le> token_counter a"
  proof (cases "q = p")
    case False
    then have "m (revision_key q) = Some v"
      using * by (simp add: control_keys)
    then obtain a where "m allocator_key = Some a" "take 16 v = take 16 a" "token_counter v \<le> token_counter a"
      using control_okD(3) [OF assms(1)] by blast
    then show ?thesis
      using assms(3) [of a] by (simp add: control_keys)
  qed (use * in \<open>simp add: control_keys\<close>)
qed (use assms control_okD [OF assms(1)] in \<open>auto simp: control_keys split: if_splits\<close>)

lemma control_ok_policy: "control_ok m \<Longrightarrow> v \<in> policies \<Longrightarrow> control_ok (m(policy_key p \<mapsto> v))"
  unfolding control_ok_def by (auto simp: control_keys)

lemma control_ok_requirement: "control_ok m \<Longrightarrow> v \<in> requirements \<Longrightarrow> control_ok (m(requirement_key \<mapsto> v))"
  unfolding control_ok_def by (auto simp: control_keys)

lemma control_ok_binding:
  "control_ok m \<Longrightarrow> m (policy_key p) \<noteq> None \<Longrightarrow> m (record_control_key RETIRED_PREFIX p) = None \<Longrightarrow>
     utf8_string g \<Longrightarrow> starts_with g ''/'' \<Longrightarrow> control_ok (m(record_control_key BINDING_PREFIX p \<mapsto> string_bytes g))"
  unfolding control_ok_def by (auto simp: control_keys)

lemma control_ok_retired:
  "control_ok m \<Longrightarrow> m (policy_key p) \<noteq> None \<Longrightarrow> m (record_control_key BINDING_PREFIX p) = None \<Longrightarrow>
     control_ok (m(record_control_key RETIRED_PREFIX p \<mapsto> v))"
  unfolding control_ok_def by (auto simp: control_keys)

lemma control_ok_foreign:
  assumes "control_ok m" and "\<not> owned_key k"
  shows "control_ok (m(k := x))"
proof -
  have "revision_key p \<noteq> k" "policy_key p \<noteq> k" "record_control_key pre p \<noteq> k" "allocator_key \<noteq> k"
    "requirement_key \<noteq> k" for p pre
    using assms(2) owned_keys by auto
  then show ?thesis
    using assms(1) unfolding control_ok_def by simp
qed

section \<open>How the control store evolves\<close>

abbreviation control_of :: "Tables \<Rightarrow> string \<rightharpoonup> bytes" where
  "control_of t \<equiv> map_of (tb_control t)"

definition alloc_counter :: "(string \<rightharpoonup> bytes) \<Rightarrow> nat" where
  "alloc_counter m = (case m allocator_key of None \<Rightarrow> 0 | Some a \<Rightarrow> token_counter a)"

text \<open>The revision of a path in \<^term>\<open>m'\<close> was allocated after \<^term>\<open>m\<close>.\<close>

definition fresher :: "(string \<rightharpoonup> bytes) \<Rightarrow> string \<Rightarrow> (string \<rightharpoonup> bytes) \<Rightarrow> bool" where
  "fresher m k m' \<longleftrightarrow> (\<exists>w. m' (revision_key k) = Some w \<and> alloc_counter m < token_counter w)"

definition evolves :: "(string \<rightharpoonup> bytes) \<Rightarrow> (string \<rightharpoonup> bytes) \<Rightarrow> bool" where
  "evolves m m' \<longleftrightarrow>
     control_ok m' \<and> alloc_counter m \<le> alloc_counter m' \<and>
     (\<forall>k. m' (revision_key k) = m (revision_key k) \<or> fresher m k m') \<and>
     (\<forall>p. m (policy_key p) \<noteq> None \<longrightarrow> m' (policy_key p) \<noteq> None) \<and>
     (\<forall>p v. m (record_control_key BINDING_PREFIX p) = Some v \<longrightarrow>
        m' (record_control_key BINDING_PREFIX p) = Some v) \<and>
     (\<forall>p v. m (record_control_key RETIRED_PREFIX p) = Some v \<longrightarrow>
        m' (record_control_key RETIRED_PREFIX p) = Some v)"

lemma evolvesD:
  assumes "evolves m m'"
  shows "control_ok m'" "alloc_counter m \<le> alloc_counter m'"
    "m' (revision_key k) = m (revision_key k) \<or> fresher m k m'"
    "m (policy_key p) \<noteq> None \<Longrightarrow> m' (policy_key p) \<noteq> None"
    "m (record_control_key BINDING_PREFIX p) = Some v \<Longrightarrow> m' (record_control_key BINDING_PREFIX p) = Some v"
    "m (record_control_key RETIRED_PREFIX p) = Some v \<Longrightarrow> m' (record_control_key RETIRED_PREFIX p) = Some v"
  using assms unfolding evolves_def by simp_all

lemma evolves_refl: "control_ok m \<Longrightarrow> evolves m m"
  by (simp add: evolves_def)

lemma fresher_mono: "alloc_counter m \<le> alloc_counter m' \<Longrightarrow> fresher m' k m'' \<Longrightarrow> fresher m k m''"
  by (auto simp: fresher_def)

lemma fresher_keep:
  assumes "fresher m k m'" and "evolves m' m''" and "alloc_counter m \<le> alloc_counter m'"
  shows "fresher m k m''"
  using evolvesD(3) [OF assms(2), of k] assms(1,3) fresher_mono by (auto simp: fresher_def)

lemma evolves_trans:
  assumes "evolves m m'" and "evolves m' m''"
  shows "evolves m m''"
proof -
  have le: "alloc_counter m \<le> alloc_counter m'"
    using evolvesD(2) assms(1) .
  have "m'' (revision_key k) = m (revision_key k) \<or> fresher m k m''" for k
    using evolvesD(3) [OF assms(1), of k] evolvesD(3) [OF assms(2), of k]
      fresher_keep [OF _ assms(2) le, of k] fresher_mono [OF le, of k m''] by auto
  then show ?thesis
    using evolvesD(1,2,4-) [OF assms(1)] evolvesD(1,2,4-) [OF assms(2)]
    unfolding evolves_def by (meson le_trans)
qed

lemma evolves_token:
  assumes "control_ok m" and "length tok = TOKEN_LEN" and "alloc_counter m < token_counter tok"
    and "\<And>a. m allocator_key = Some a \<Longrightarrow> take 16 tok = take 16 a"
  shows "evolves m (m(allocator_key \<mapsto> tok, revision_key p \<mapsto> tok))"
    "fresher m p (m(allocator_key \<mapsto> tok, revision_key p \<mapsto> tok))"
proof -
  have "control_ok (m(allocator_key \<mapsto> tok, revision_key p \<mapsto> tok))"
    using assms by (intro control_ok_token) (auto simp: alloc_counter_def)
  then show "evolves m (m(allocator_key \<mapsto> tok, revision_key p \<mapsto> tok))"
    using assms(3) by (auto simp: evolves_def alloc_counter_def fresher_def control_keys)
  show "fresher m p (m(allocator_key \<mapsto> tok, revision_key p \<mapsto> tok))"
    using assms(3) by (simp add: fresher_def control_keys)
qed

lemma evolves_policy: "control_ok m \<Longrightarrow> v \<in> policies \<Longrightarrow> evolves m (m(policy_key p \<mapsto> v))"
  using control_ok_policy [of m v p] by (auto simp: evolves_def alloc_counter_def control_keys)

lemma evolves_requirement: "control_ok m \<Longrightarrow> v \<in> requirements \<Longrightarrow> evolves m (m(requirement_key \<mapsto> v))"
  using control_ok_requirement [of m v] by (auto simp: evolves_def alloc_counter_def control_keys)

lemma evolves_binding:
  "control_ok m \<Longrightarrow> m (policy_key p) \<noteq> None \<Longrightarrow> m (record_control_key RETIRED_PREFIX p) = None \<Longrightarrow>
     m (record_control_key BINDING_PREFIX p) = None \<Longrightarrow> utf8_string g \<Longrightarrow> starts_with g ''/'' \<Longrightarrow>
     evolves m (m(record_control_key BINDING_PREFIX p \<mapsto> string_bytes g))"
  using control_ok_binding [of m p g] by (auto simp: evolves_def alloc_counter_def control_keys)

lemma evolves_retired:
  "control_ok m \<Longrightarrow> m (policy_key p) \<noteq> None \<Longrightarrow> m (record_control_key BINDING_PREFIX p) = None \<Longrightarrow>
     m (record_control_key RETIRED_PREFIX p) = None \<Longrightarrow>
     evolves m (m(record_control_key RETIRED_PREFIX p \<mapsto> v))"
  using control_ok_retired [of m p v] by (auto simp: evolves_def alloc_counter_def control_keys)

lemma evolves_foreign:
  assumes "control_ok m" and "\<not> owned_key k"
  shows "evolves m (m(k := x))"
proof -
  have neq: "revision_key p \<noteq> k" "policy_key p \<noteq> k" "record_control_key pre p \<noteq> k" "allocator_key \<noteq> k" for p pre
    using assms(2) owned_keys by auto
  have same: "alloc_counter (m(k := x)) = alloc_counter m"
    using neq by (simp add: alloc_counter_def)
  show ?thesis
    unfolding evolves_def same using neq control_ok_foreign [OF assms, of x] by simp
qed

section \<open>The transaction functions\<close>

lemma allocate_revisionD:
  assumes "allocate_revision k initial t = Some (tok, t')" and "control_ok (control_of t)"
  shows "t' = put_control (revision_key k) tok (put_control allocator_key tok t)"
    and "length tok = TOKEN_LEN" and "token_counter tok = alloc_counter (control_of t) + 1"
    and "control_of t allocator_key = Some a \<Longrightarrow> take 16 tok = take 16 a"
proof -
  obtain old where old: "length old = TOKEN_LEN" "token_counter old = alloc_counter (control_of t)"
    "control_of t allocator_key = Some a \<Longrightarrow> old = a"
    and step: "token_counter old + 1 < 2 ^ 64" "tok = take 16 old @ be_bytes 8 (token_counter old + 1)"
    "t' = put_control (revision_key k) tok (put_control allocator_key tok t)"
  proof (cases "control_of t allocator_key")
    case None
    then obtain i where "initial = Some i"
      using assms(1) by (auto simp: allocate_revision_def split: option.splits)
    then show thesis
      using None assms(1) that [of "be_bytes 16 (unat i) @ be_bytes 8 0"]
      by (auto simp: allocate_revision_def token_counter_def alloc_counter_def TOKEN_LEN_def Let_def
          split: if_splits)
  next
    case (Some b)
    then show thesis
      using assms(1) that [of b]
      by (auto simp: allocate_revision_def token_counter_def alloc_counter_def Let_def split: if_splits)
  qed
  show "t' = put_control (revision_key k) tok (put_control allocator_key tok t)"
    by (rule step)
  show "length tok = TOKEN_LEN"
    using old(1) by (simp add: step(2) TOKEN_LEN_def)
  show "token_counter tok = alloc_counter (control_of t) + 1"
    using old(1,2) step(1) by (simp add: step(2) token_counter_def TOKEN_LEN_def)
  show "take 16 tok = take 16 a" if "control_of t allocator_key = Some a"
    using old(1) old(3) [OF that] by (simp add: step(2) TOKEN_LEN_def)
qed

lemma allocate_revision_evolves:
  assumes "allocate_revision k initial t = Some (tok, t')" and "control_ok (control_of t)"
  shows "evolves (control_of t) (control_of t')" "fresher (control_of t) k (control_of t')"
    "tb_metadata t' = tb_metadata t" "tb_streams t' = tb_streams t"
    "p \<noteq> k \<Longrightarrow> control_of t' (revision_key p) = control_of t (revision_key p)"
    "control_of t' (policy_key p) = control_of t (policy_key p)"
    "control_of t' (record_control_key BINDING_PREFIX p) = control_of t (record_control_key BINDING_PREFIX p)"
    "control_of t' (record_control_key RETIRED_PREFIX p) = control_of t (record_control_key RETIRED_PREFIX p)"
    "control_of t' (revision_key k) = Some tok"
proof -
  note d = allocate_revisionD [OF assms]
  have lt: "alloc_counter (control_of t) < token_counter tok"
    using d(3) by simp
  show "evolves (control_of t) (control_of t')" "fresher (control_of t) k (control_of t')"
    using evolves_token [OF assms(2) d(2) lt d(4)] by (simp_all add: d(1))
qed (simp_all add: allocate_revisionD(1) [OF assms] control_keys)

lemma refresh_tracked_evolves:
  assumes "refresh_tracked_version k t = Some (b, t')" and "control_ok (control_of t)"
  shows "evolves (control_of t) (control_of t')"
    "tb_metadata t' = tb_metadata t" "tb_streams t' = tb_streams t"
    "p \<noteq> k \<Longrightarrow> control_of t' (revision_key p) = control_of t (revision_key p)"
    "control_of t' (policy_key p) = control_of t (policy_key p)"
    "control_of t' (record_control_key BINDING_PREFIX p) = control_of t (record_control_key BINDING_PREFIX p)"
    "control_of t' (record_control_key RETIRED_PREFIX p) = control_of t (record_control_key RETIRED_PREFIX p)"
    "is_managed_content_path k \<Longrightarrow> control_of t (revision_key k) \<noteq> None \<Longrightarrow>
       fresher (control_of t) k (control_of t')"
    "\<not> is_managed_content_path k \<Longrightarrow> t' = t"
proof -
  consider "t' = t" "\<not> (is_managed_content_path k \<and> control_of t (revision_key k) \<noteq> None)"
    | tok where "allocate_revision k None t = Some (tok, t')" "is_managed_content_path k"
    using assms(1) by (auto simp: refresh_tracked_version_def control_defs bind_eq_Some_conv
        split: if_splits option.splits)
  note cases = this
  show "evolves (control_of t) (control_of t')"
    "tb_metadata t' = tb_metadata t" "tb_streams t' = tb_streams t"
    "p \<noteq> k \<Longrightarrow> control_of t' (revision_key p) = control_of t (revision_key p)"
    "control_of t' (policy_key p) = control_of t (policy_key p)"
    "control_of t' (record_control_key BINDING_PREFIX p) = control_of t (record_control_key BINDING_PREFIX p)"
    "control_of t' (record_control_key RETIRED_PREFIX p) = control_of t (record_control_key RETIRED_PREFIX p)"
    "is_managed_content_path k \<Longrightarrow> control_of t (revision_key k) \<noteq> None \<Longrightarrow>
       fresher (control_of t) k (control_of t')"
    "\<not> is_managed_content_path k \<Longrightarrow> t' = t"
    by (rule cases; use assms(2) evolves_refl allocate_revision_evolves in \<open>auto; fail\<close>)+
qed

lemma decode_policy_ok: "v \<in> policies \<Longrightarrow> decode_policy (Some v) = Inr True"
  by (auto simp: decode_policy_def policies_def)

lemma protected_in_txn_ok:
  "control_ok (control_of t) \<Longrightarrow> protected_in_txn p t = Some (control_of t (policy_key p) \<noteq> None)"
  using control_okD(4) [of "control_of t" p] decode_policy_ok
  by (cases "control_of t (policy_key p)")
    (auto simp: protected_in_txn_def control_defs ok_value_def decode_policy_def)

lemma require_record_formatD:
  assumes "require_record_format_in_txn b t = Some t'"
  shows "\<exists>v \<in> requirements. t' = put_control requirement_key v t"
  using assms by (auto simp: require_record_format_in_txn_def Let_def bind_eq_Some_conv requirements_def)

lemma mark_record_ownerD: "\<exists>v \<in> policies. mark_record_owner_in_txn p t = put_control (policy_key p) v t"
  by (auto simp: mark_record_owner_in_txn_def policies_def)

text \<open>
  What a transaction may do: the control store evolves, and a path with a
  revision that is managed or protected changes its image only together with
  its revision.
\<close>

definition tracked :: "string \<Rightarrow> Tables \<Rightarrow> bool" where
  "tracked k t \<longleftrightarrow>
     (is_managed_content_path k \<or> control_of t (policy_key k) \<noteq> None) \<and> control_of t (revision_key k) \<noteq> None"

definition txn_step :: "Tables \<Rightarrow> Tables \<Rightarrow> bool" where
  "txn_step t t' \<longleftrightarrow>
     evolves (control_of t) (control_of t') \<and>
     (\<forall>k. tracked k t \<longrightarrow> metadata_in_txn k t' \<noteq> metadata_in_txn k t \<longrightarrow>
        fresher (control_of t) k (control_of t'))"

text \<open>Neither the image nor the revision of a path changes.\<close>

definition image_kept :: "string \<Rightarrow> Tables \<Rightarrow> Tables \<Rightarrow> bool" where
  "image_kept k t t' \<longleftrightarrow>
     metadata_in_txn k t' = metadata_in_txn k t \<and> revision_in_txn k t' = revision_in_txn k t"

lemma image_kept_refl [simp]: "image_kept k t t"
  by (simp add: image_kept_def)

lemma image_kept_trans: "image_kept k t t' \<Longrightarrow> image_kept k t' t'' \<Longrightarrow> image_kept k t t''"
  by (simp add: image_kept_def)

lemma txn_step_refl: "control_ok (control_of t) \<Longrightarrow> txn_step t t"
  by (simp add: txn_step_def evolves_refl)

lemma txn_step_control:
  "evolves (control_of t) (control_of t') \<Longrightarrow> tb_metadata t' = tb_metadata t \<Longrightarrow> txn_step t t'"
  by (simp add: txn_step_def control_defs)

text \<open>A record whose owner is retired, or that is itself a retired owner.\<close>

definition frozen :: "string \<Rightarrow> Tables \<Rightarrow> bool" where
  "frozen k t \<longleftrightarrow>
     record_control_in_txn RETIRED_PREFIX k t \<noteq> None \<or>
     (\<exists>g. utf8_string g \<and> record_control_in_txn BINDING_PREFIX k t = Some (string_bytes g) \<and>
          record_control_in_txn RETIRED_PREFIX g t \<noteq> None)"

lemma frozen_protected: "control_ok (control_of t) \<Longrightarrow> frozen k t \<Longrightarrow> control_of t (policy_key k) \<noteq> None"
  using control_okD(6,8) by (fastforce simp: frozen_def control_defs)

lemma frozen_evolves:
  assumes "evolves (control_of t) (control_of t')" and "frozen k t"
  shows "frozen k t'"
  using assms(2) evolvesD(5,6) [OF assms(1)] by (fastforce simp: frozen_def control_defs)

lemma write_versionedD:
  assumes "write_versioned_in_txn k v e i t = Some (r, t')"
  obtains "t' = t" "\<forall>cur. r \<noteq> ConditionalMetadata True cur"
  | tok t1 where "allocate_revision k (Some i) t = Some (tok, t1)" "t' = put_metadata k v t1"
    "r = ConditionalMetadata True \<lparr>vm_value = Some v, vm_version = Some tok\<rparr>"
    "e = (if metadata_in_txn k t = None then None else revision_in_txn k t)"
proof -
  let ?other = "\<exists>tok t1. allocate_revision k (Some i) t = Some (tok, t1) \<and> t' = put_metadata k v t1 \<and>
      r = ConditionalMetadata True \<lparr>vm_value = Some v, vm_version = Some tok\<rparr> \<and>
      e = (if metadata_in_txn k t = None then None else revision_in_txn k t)"
  have "t' = t \<and> (\<forall>cur. r \<noteq> ConditionalMetadata True cur) \<or> ?other"
    using assms
    by (auto simp: write_versioned_in_txn_def bind_eq_Some_conv versioned_image_def ok_value_def
        split: if_splits option.splits sum.splits)
  then show thesis
    using that by blast
qed

lemma write_versioned_step:
  assumes "write_versioned_in_txn k v e i t = Some (r, t')" and "control_ok (control_of t)"
  shows "txn_step t t'" "tb_streams t' = tb_streams t" "p \<noteq> k \<Longrightarrow> image_kept p t t'"
    "control_of t' (policy_key p) = control_of t (policy_key p)"
    "control_of t' (record_control_key BINDING_PREFIX p) = control_of t (record_control_key BINDING_PREFIX p)"
    "control_of t' (record_control_key RETIRED_PREFIX p) = control_of t (record_control_key RETIRED_PREFIX p)"
proof -
  show "txn_step t t'"
  proof (rule write_versionedD [OF assms(1)])
    fix tok t1
    assume a: "allocate_revision k (Some i) t = Some (tok, t1)" and t': "t' = put_metadata k v t1"
    note e = allocate_revision_evolves [OF a assms(2)]
    show ?thesis
      unfolding txn_step_def
    proof (intro conjI allI impI)
      show "evolves (control_of t) (control_of t')"
        using e(1) by (simp add: t')
      fix q
      assume "metadata_in_txn q t' \<noteq> metadata_in_txn q t"
      then have "q = k"
        using e(3) by (auto simp: t' control_defs split: if_splits)
      then show "fresher (control_of t) q (control_of t')"
        using e(2) by (simp add: t')
    qed
  qed (use assms(2) txn_step_refl in auto)
  show "tb_streams t' = tb_streams t" "p \<noteq> k \<Longrightarrow> image_kept p t t'"
    "control_of t' (policy_key p) = control_of t (policy_key p)"
    "control_of t' (record_control_key BINDING_PREFIX p) = control_of t (record_control_key BINDING_PREFIX p)"
    "control_of t' (record_control_key RETIRED_PREFIX p) = control_of t (record_control_key RETIRED_PREFIX p)"
    by (rule write_versionedD [OF assms(1)];
        use allocate_revision_evolves [OF _ assms(2)] in \<open>auto simp: image_kept_def control_defs; fail\<close>)+
qed

text \<open>Adoption makes a path protected and gives a present image a revision.\<close>

lemma adopt_protectedD:
  assumes "adopt_protected_in_txn k e i t = Some (r, t')" and "control_ok (control_of t)"
  shows "evolves (control_of t) (control_of t')" "tb_metadata t' = tb_metadata t" "tb_streams t' = tb_streams t"
    "p \<noteq> k \<or> control_of t (policy_key k) \<noteq> None \<Longrightarrow>
       control_of t' (revision_key p) = control_of t (revision_key p)"
    "control_of t' (record_control_key BINDING_PREFIX p) = control_of t (record_control_key BINDING_PREFIX p)"
    "control_of t' (record_control_key RETIRED_PREFIX p) = control_of t (record_control_key RETIRED_PREFIX p)"
    "metadata_in_txn k t = e \<Longrightarrow> control_of t' (policy_key k) \<noteq> None"
proof -
  note p = protected_in_txn_ok [OF assms(2), of k]
  consider "t' = t" "control_of t (policy_key k) \<noteq> None \<or> metadata_in_txn k t \<noteq> e"
    | t1 v where "control_of t (policy_key k) = None" "v \<in> requirements"
      "t' = put_control requirement_key v (put_control (policy_key k) CONDITIONAL_ONLY t1)"
      "t1 = t \<or> (\<exists>tok. allocate_revision k (Some i) t = Some (tok, t1))"
  proof (cases "control_of t (policy_key k) \<noteq> None \<or> metadata_in_txn k t \<noteq> e")
    case True
    then have "t' = t"
      using assms(1) p by (auto simp: adopt_protected_in_txn_def Let_def split: if_splits)
    then show ?thesis using True that(1) by blast
  next
    case False
    then obtain t1 where t1: "t1 = t \<or> (\<exists>tok. allocate_revision k (Some i) t = Some (tok, t1))"
      "require_record_format_in_txn False (put_control (policy_key k) CONDITIONAL_ONLY t1) = Some t'"
      using assms(1) p by (auto simp: adopt_protected_in_txn_def Let_def bind_eq_Some_conv split: if_splits)
    then show ?thesis using require_record_formatD False that(2) by blast
  qed
  note cases = this
  have step: "evolves (control_of t) (control_of t1)" "tb_metadata t1 = tb_metadata t"
    "tb_streams t1 = tb_streams t"
    "p \<noteq> k \<Longrightarrow> control_of t1 (revision_key p) = control_of t (revision_key p)"
    "control_of t1 (record_control_key BINDING_PREFIX p) = control_of t (record_control_key BINDING_PREFIX p)"
    "control_of t1 (record_control_key RETIRED_PREFIX p) = control_of t (record_control_key RETIRED_PREFIX p)"
    if "t1 = t \<or> (\<exists>tok. allocate_revision k (Some i) t = Some (tok, t1))" for t1 p
    using that evolves_refl [OF assms(2)] allocate_revision_evolves [OF _ assms(2)] by auto
  show "evolves (control_of t) (control_of t')"
  proof (rule cases)
    fix t1 v
    assume v: "v \<in> requirements"
      and t': "t' = put_control requirement_key v (put_control (policy_key k) CONDITIONAL_ONLY t1)"
      and t1: "t1 = t \<or> (\<exists>tok. allocate_revision k (Some i) t = Some (tok, t1))"
    have e1: "evolves (control_of t) (control_of t1)" by (rule step(1) [OF t1])
    have e2: "evolves (control_of t1) ((control_of t1)(policy_key k \<mapsto> CONDITIONAL_ONLY))"
      using evolvesD(1) [OF e1] by (intro evolves_policy) (simp_all add: policies_def)
    have "evolves ((control_of t1)(policy_key k \<mapsto> CONDITIONAL_ONLY)) (control_of t')"
      using evolves_requirement [OF evolvesD(1) [OF e2] v] by (simp add: t')
    then show ?thesis
      using e1 e2 evolves_trans by blast
  qed (use evolves_refl [OF assms(2)] in simp)
  have rest: "tb_metadata t' = tb_metadata t \<and> tb_streams t' = tb_streams t \<and>
    (p \<noteq> k \<or> control_of t (policy_key k) \<noteq> None \<longrightarrow>
       control_of t' (revision_key p) = control_of t (revision_key p)) \<and>
    control_of t' (record_control_key BINDING_PREFIX p) = control_of t (record_control_key BINDING_PREFIX p) \<and>
    control_of t' (record_control_key RETIRED_PREFIX p) = control_of t (record_control_key RETIRED_PREFIX p) \<and>
    (metadata_in_txn k t = e \<longrightarrow> control_of t' (policy_key k) \<noteq> None)"
  proof (rule cases)
    assume "t' = t" "control_of t (policy_key k) \<noteq> None \<or> metadata_in_txn k t \<noteq> e"
    then show ?thesis by auto
  next
    fix t1 v
    assume none: "control_of t (policy_key k) = None"
      and t': "t' = put_control requirement_key v (put_control (policy_key k) CONDITIONAL_ONLY t1)"
      and t1: "t1 = t \<or> (\<exists>tok. allocate_revision k (Some i) t = Some (tok, t1))"
    show ?thesis
      using none step(2-) [OF t1] by (simp add: t' control_keys)
  qed
  show "tb_metadata t' = tb_metadata t" "tb_streams t' = tb_streams t"
    "p \<noteq> k \<or> control_of t (policy_key k) \<noteq> None \<Longrightarrow>
       control_of t' (revision_key p) = control_of t (revision_key p)"
    "control_of t' (record_control_key BINDING_PREFIX p) = control_of t (record_control_key BINDING_PREFIX p)"
    "control_of t' (record_control_key RETIRED_PREFIX p) = control_of t (record_control_key RETIRED_PREFIX p)"
    "metadata_in_txn k t = e \<Longrightarrow> control_of t' (policy_key k) \<noteq> None"
    using rest by simp_all
qed

lemma live_record_guard_ok:
  "control_ok (control_of t) \<Longrightarrow>
     live_record_guard_in_txn g e t =
       Some (control_of t (policy_key g) \<noteq> None \<and> record_control_in_txn RETIRED_PREFIX g t = None \<and>
             metadata_in_txn g t \<noteq> None \<and> revision_in_txn g t = Some e)"
  by (simp add: live_record_guard_in_txn_def protected_in_txn_ok)

text \<open>A chain of steps on the policy, the requirement and one further record.\<close>

lemma evolves_marks:
  assumes "control_ok (control_of t)" and "v \<in> policies" and "w \<in> requirements"
    and "t' = put_control requirement_key w (put_control (policy_key g) v t)"
  shows "evolves (control_of t) (control_of t')" "tb_metadata t' = tb_metadata t" "tb_streams t' = tb_streams t"
    "control_of t' (revision_key p) = control_of t (revision_key p)"
    "control_of t' (record_control_key BINDING_PREFIX p) = control_of t (record_control_key BINDING_PREFIX p)"
    "control_of t' (record_control_key RETIRED_PREFIX p) = control_of t (record_control_key RETIRED_PREFIX p)"
    "control_of t' (policy_key g) \<noteq> None"
proof -
  have "evolves (control_of t) ((control_of t)(policy_key g \<mapsto> v))"
    using assms(1,2) by (rule evolves_policy)
  moreover have "evolves ((control_of t)(policy_key g \<mapsto> v)) (control_of t')"
    using evolves_requirement [OF evolvesD(1) [OF calculation] assms(3)] by (simp add: assms(4))
  ultimately show "evolves (control_of t) (control_of t')"
    by (rule evolves_trans)
qed (simp_all add: assms(4) control_keys)

lemma mark_and_require:
  assumes "require_record_format_in_txn b (mark_record_owner_in_txn g t) = Some t'"
  obtains v w where "v \<in> policies" "w \<in> requirements"
    "t' = put_control requirement_key w (put_control (policy_key g) v t)"
  using assms mark_record_ownerD [of g t] require_record_formatD by metis

lemma bind_record_guard_step:
  assumes "bind_record_guard_in_txn k e g gv i t = Some (r, t')" and "control_ok (control_of t)"
    and "utf8_string g"
  shows "txn_step t t'" "tb_streams t' = tb_streams t" "frozen p t \<Longrightarrow> image_kept p t t'"
proof -
  have "t' = t \<or> starts_with g ''/'' \<and> record_control_in_txn BINDING_PREFIX k t = None \<and> \<not> frozen k t \<and>
      record_control_in_txn RETIRED_PREFIX k t = None \<and> metadata_in_txn k t = e \<and>
      (\<exists>t1 t2 r1. adopt_protected_in_txn k e i t = Some (r1, t1) \<and>
         require_record_format_in_txn True (mark_record_owner_in_txn g t1) = Some t2 \<and>
         t' = put_control (record_control_key BINDING_PREFIX k) (string_bytes g) t2)"
    using assms(1)
    by (auto simp: bind_record_guard_in_txn_def bind_eq_Some_conv frozen_def put_record_control_in_txn_def
        validate_path_fast_def split: if_splits option.splits sum.splits)
  then consider "t' = t"
    | t1 t2 r1 where "control_of t (record_control_key BINDING_PREFIX k) = None"
      "control_of t (record_control_key RETIRED_PREFIX k) = None" "metadata_in_txn k t = e" "\<not> frozen k t"
      "adopt_protected_in_txn k e i t = Some (r1, t1)"
      "require_record_format_in_txn True (mark_record_owner_in_txn g t1) = Some t2"
      "t' = put_control (record_control_key BINDING_PREFIX k) (string_bytes g) t2" "starts_with g ''/''"
    by (auto simp: control_defs)
  then have "txn_step t t' \<and> tb_streams t' = tb_streams t \<and> (frozen p t \<longrightarrow> image_kept p t t')"
  proof cases
    case 2
    note a = adopt_protectedD [OF 2(5) assms(2)]
    obtain v w where vw: "v \<in> policies" "w \<in> requirements"
      "t2 = put_control requirement_key w (put_control (policy_key g) v t1)"
      using 2(6) by (rule mark_and_require)
    note m = evolves_marks [OF evolvesD(1) [OF a(1)] vw]
    have pol: "control_of t2 (policy_key k) \<noteq> None"
      using a(7) [OF 2(3)] evolvesD(4) [OF m(1), of k] by blast
    have e3: "evolves (control_of t2) (control_of t')"
      using evolves_binding [OF evolvesD(1) [OF m(1)] pol, where g = g] assms(3) m(5,6) a(5,6) 2(1,2,8)
      by (simp add: 2(7))
    have "evolves (control_of t) (control_of t')"
      using a(1) m(1) e3 evolves_trans by blast
    then have "txn_step t t'"
      using a(2) m(2) by (intro txn_step_control) (simp_all add: 2(7))
    moreover have "image_kept p t t'" if "frozen p t"
    proof -
      have "p \<noteq> k" using that 2(4) by auto
      then show ?thesis
        using a(2,4) m(2,4) by (simp add: image_kept_def control_defs 2(7) control_keys)
    qed
    ultimately show ?thesis
      using a(3) m(3) by (simp add: 2(7))
  qed (simp add: txn_step_refl assms(2))
  then show "txn_step t t'" "tb_streams t' = tb_streams t" "frozen p t \<Longrightarrow> image_kept p t t'"
    by simp_all
qed

lemma committed_case:
  "(case r of ConditionalMetadata True cur \<Rightarrow> f cur | _ \<Rightarrow> None) = Some x \<longleftrightarrow>
     (\<exists>cur. r = ConditionalMetadata True cur \<and> f cur = Some x)"
  by (cases r) (auto split: bool.splits)

lemma retire_record_guard_step:
  assumes "retire_record_guard_in_txn k e img i t = Some (r, t')" and "control_ok (control_of t)"
  shows "txn_step t t'" "tb_streams t' = tb_streams t" "frozen p t \<Longrightarrow> image_kept p t t'"
proof -
  have "t' = t \<or> control_of t (record_control_key BINDING_PREFIX k) = None \<and>
      control_of t (record_control_key RETIRED_PREFIX k) = None \<and> control_of t (policy_key k) \<noteq> None \<and>
      (\<exists>t1 t2 ver. write_versioned_in_txn k img (Some e) i t = Some (r, t1) \<and>
         require_record_format_in_txn True (mark_record_owner_in_txn k t1) = Some t2 \<and>
         t' = put_control (record_control_key RETIRED_PREFIX k) ver t2)"
    using assms(1)
    by (auto simp: retire_record_guard_in_txn_def bind_eq_Some_conv live_record_guard_ok [OF assms(2)] control_defs
        committed_case split: if_splits option.splits)
  then consider "t' = t"
    | t1 t2 ver where "control_of t (record_control_key BINDING_PREFIX k) = None"
      "control_of t (record_control_key RETIRED_PREFIX k) = None" "control_of t (policy_key k) \<noteq> None"
      "write_versioned_in_txn k img (Some e) i t = Some (r, t1)"
      "require_record_format_in_txn True (mark_record_owner_in_txn k t1) = Some t2"
      "t' = put_control (record_control_key RETIRED_PREFIX k) ver t2"
    by auto
  then have "txn_step t t' \<and> tb_streams t' = tb_streams t \<and> (frozen p t \<longrightarrow> image_kept p t t')"
  proof cases
    case 2
    note w = write_versioned_step [OF 2(4) assms(2)]
    have e1: "evolves (control_of t) (control_of t1)"
      using w(1) by (simp add: txn_step_def)
    obtain v u where vu: "v \<in> policies" "u \<in> requirements"
      "t2 = put_control requirement_key u (put_control (policy_key k) v t1)"
      using 2(5) by (rule mark_and_require)
    note m = evolves_marks [OF evolvesD(1) [OF e1] vu]
    have e3: "evolves (control_of t2) (control_of t')"
      using evolves_retired [OF evolvesD(1) [OF m(1)] m(7), of ver] m(5,6) w(5,6) 2(1,2) by (simp add: 2(6))
    have e: "evolves (control_of t) (control_of t')"
      using e1 m(1) e3 evolves_trans by blast
    have rev: "control_of t' (revision_key q) = control_of t1 (revision_key q)" for q
      using m(4) by (simp add: 2(6) control_keys)
    have "txn_step t t'"
      using w(1) e m(2) by (auto simp: txn_step_def control_defs 2(6) fresher_def m(4) control_keys)
    moreover have "image_kept p t t'" if "frozen p t"
    proof -
      have "p \<noteq> k" using that 2(1,2) by (auto simp: frozen_def control_defs)
      then show ?thesis
        using w(3) [of p] m(2) rev by (simp add: image_kept_def control_defs 2(6))
    qed
    ultimately show ?thesis
      using w(2) m(3) by (simp add: 2(6))
  qed (simp add: txn_step_refl assms(2))
  then show "txn_step t t'" "tb_streams t' = tb_streams t" "frozen p t \<Longrightarrow> image_kept p t t'"
    by simp_all
qed

lemma admit_record_io_step:
  assumes "admit_record_io_in_txn k e t = Some (r, t')" and "control_ok (control_of t)"
  shows "txn_step t t'" "tb_streams t' = tb_streams t" "image_kept p t t'"
proof -
  have "t' = t \<or> (\<exists>w \<in> requirements. t' = put_control requirement_key RECORD_IO (put_control (policy_key k) RECORD_IO_OWNER
       (put_control requirement_key w t)))"
    using assms(1) require_record_formatD
    by (fastforce simp: admit_record_io_in_txn_def mark_record_io_owner_in_txn_def bind_eq_Some_conv
        split: if_splits sum.splits)
  then consider "t' = t"
    | w where "w \<in> requirements" "t' = put_control requirement_key RECORD_IO (put_control (policy_key k) RECORD_IO_OWNER
       (put_control requirement_key w t))"
    by blast
  then have "txn_step t t' \<and> tb_streams t' = tb_streams t \<and> image_kept p t t'"
  proof cases
    case 2
    have e1: "evolves (control_of t) (control_of (put_control requirement_key w t))"
      using evolves_requirement [OF assms(2) 2(1)] by simp
    note m = evolves_marks [OF evolvesD(1) [OF e1] _ _ 2(2)]
    have "evolves (control_of t) (control_of t')"
      using evolves_trans [OF e1 m(1)] by (simp add: policies_def requirements_def)
    moreover have "image_kept p t t'"
      by (simp add: 2(2) image_kept_def control_defs control_keys)
    ultimately show ?thesis
      by (simp add: 2(2) txn_step_control)
  qed (simp add: txn_step_refl assms(2))
  then show "txn_step t t'" "tb_streams t' = tb_streams t" "image_kept p t t'"
    by simp_all
qed

end
