(* ===== verification/Metadata_Rename.thy ===== *)
theory Metadata_Rename
  imports Record_Control
begin

text \<open>
  The metadata image a path stores (\<^verbatim>\<open>proto/nexus/core/metadata.proto\<close>) and the
  transactional rename over it
  (\<^verbatim>\<open>raft/src/raft/state_machine/metadata_rename.rs\<close>).  The protobuf codec and the
  RFC 3339 parser are crates outside the repository: they are the fields of a
  \<^verbatim>\<open>MetadataCodec\<close> that every function using them takes as its argument.
\<close>

section \<open>Images\<close>

record FileMetadata =
  fm_path :: string
  fm_size :: int
  fm_content_id :: string
  fm_mime_type :: string
  fm_created_at :: string
  fm_modified_at :: string
  fm_version :: int
  fm_zone_id :: string
  fm_owner_id :: string
  fm_entry_type :: int
  fm_target_zone_id :: string
  fm_ttl_seconds :: bytes
  fm_last_writer_address :: string
  fm_link_target :: string
  fm_gen :: nat
  fm_target_subtree :: string

record MetadataCodec =
  mc_decode :: "bytes \<Rightarrow> FileMetadata option"
  mc_encode :: "FileMetadata \<Rightarrow> bytes"
  mc_parse_time :: "string \<Rightarrow> u64 option"

definition DT_REG :: int where "DT_REG = 0"

definition DT_DIR :: int where "DT_DIR = 1"

definition DT_MOUNT :: int where "DT_MOUNT = 2"

definition DT_LINK :: int where "DT_LINK = 6"

definition decode_rename_entry :: "MetadataCodec \<Rightarrow> bytes \<Rightarrow> string \<Rightarrow> Refusal + FileMetadata" where
  "decode_rename_entry C img path =
     (case mc_decode C img of
        None \<Rightarrow> Inl (RenameDecode path)
      | Some m \<Rightarrow>
          if fm_entry_type m \<notin> {DT_REG, DT_DIR, DT_LINK} then Inl (RenameEntryType path) else Inr m)"

text \<open>The backend-relative path selected by a rename; \<^term>\<open>None\<close> keeps an opaque identifier.\<close>

definition renamed_pas_content_id :: "string \<Rightarrow> string \<Rightarrow> string \<Rightarrow> string option" where
  "renamed_pas_content_id cid old_vfs new_vfs =
     (if ends_with old_vfs (''/'' @ cid) \<or> old_vfs = cid
      then let prefix_len = length old_vfs - length cid in
           if starts_with new_vfs (take prefix_len old_vfs) then Some (drop prefix_len new_vfs) else None
      else None)"

section \<open>Rename\<close>

definition rename_target_refusal :: "MetadataCodec \<Rightarrow> string \<Rightarrow> Tables \<Rightarrow> Refusal option" where
  "rename_target_refusal C path t =
     (case map_of (tb_metadata t) path of
        None \<Rightarrow> None
      | Some img \<Rightarrow> (case decode_rename_entry C img path of Inl e \<Rightarrow> Some e | Inr _ \<Rightarrow> None))"

definition metadata_rename_rows :: "string \<Rightarrow> string \<Rightarrow> Tables \<Rightarrow> (string \<times> bytes) list option" where
  "metadata_rename_rows key pre t =
     (let own = (case map_of (tb_metadata t) key of None \<Rightarrow> [] | Some img \<Rightarrow> [(key, img)]);
          below = takeWhile (\<lambda>e. starts_with (fst e) pre) (filter (\<lambda>e. pre \<le> fst e) (tb_metadata t))
      in if list_all (\<lambda>e. utf8_string (fst e)) below then Some (own @ below) else None)"

definition renamed_image ::
  "MetadataCodec \<Rightarrow> bool \<Rightarrow> string \<Rightarrow> string \<Rightarrow> FileMetadata \<Rightarrow> FileMetadata" where
  "renamed_image C is_pas source target m =
     (let m1 = m\<lparr>fm_path := target\<rparr> in
      if is_pas
      then case renamed_pas_content_id (fm_content_id m1) source target of
             Some content_id \<Rightarrow> m1\<lparr>fm_content_id := content_id\<rparr>
           | None \<Rightarrow> m1
      else m1)"

definition rename_target :: "string \<Rightarrow> string \<Rightarrow> string \<Rightarrow> string" where
  "rename_target old_key new_key source =
     (if source = old_key then new_key
      else trim_end_matches (CHR ''/'') new_key @ ''/'' @
           drop (length (trim_end_matches (CHR ''/'') old_key @ ''/'')) source)"

text \<open>
  The first loop of the rename: the planned changes, or the first refusal.
  \<^term>\<open>None\<close> is a storage error.
\<close>

fun rename_changes ::
  "MetadataCodec \<Rightarrow> string \<Rightarrow> string \<Rightarrow> bool \<Rightarrow> Tables \<Rightarrow> (string \<times> bytes) list
     \<Rightarrow> (CommandResult + (string \<times> string \<times> bytes) list) option" where
  "rename_changes C old_key new_key is_pas t [] = Some (Inr [])"
| "rename_changes C old_key new_key is_pas t ((source, img) # rows) =
     (let target = rename_target old_key new_key source in
      do {
        r1 \<leftarrow> ordinary_metadata_refusal source t;
        (case r1 of Some refusal \<Rightarrow> Some (Inl refusal) | None \<Rightarrow>
          do {
            r2 \<leftarrow> ordinary_metadata_refusal target t;
            (case r2 of Some refusal \<Rightarrow> Some (Inl refusal) | None \<Rightarrow>
              (case decode_rename_entry C img source of
                 Inl e \<Rightarrow> Some (Inl (ErrorResult e))
               | Inr m \<Rightarrow>
                   (case rename_target_refusal C target t of
                      Some e \<Rightarrow> Some (Inl (ErrorResult e))
                    | None \<Rightarrow>
                        do {
                          rest \<leftarrow> rename_changes C old_key new_key is_pas t rows;
                          Some (case rest of
                                  Inl refusal \<Rightarrow> Inl refusal
                                | Inr changes \<Rightarrow>
                                    Inr ((source, target,
                                          mc_encode C (renamed_image C is_pas source target m)) # changes))
                        })))
          })
      })"

text \<open>The second loop: revisions of both ends of every change.\<close>

fun rename_revisions :: "(string \<times> string \<times> bytes) list \<Rightarrow> Tables \<Rightarrow> Tables option" where
  "rename_revisions [] t = Some t"
| "rename_revisions ((source, target, img) # changes) t =
     do {
       (tracked, t1) \<leftarrow> refresh_tracked_version source t;
       t2 \<leftarrow> (if tracked \<and> is_managed_content_path target
              then map_option snd (allocate_revision target None t1)
              else map_option snd (refresh_tracked_version target t1));
       rename_revisions changes t2
     }"

definition move_rows ::
  "(string \<times> string \<times> bytes) list \<Rightarrow> (string, bytes) omap \<Rightarrow> (string, bytes) omap" where
  "move_rows changes m =
     fold (\<lambda>(_, target, img). om_put target img) changes
       (fold om_del (map fst changes) m)"

definition rename_metadata_in_txn ::
  "MetadataCodec \<Rightarrow> string \<Rightarrow> string \<Rightarrow> bool \<Rightarrow> Tables \<Rightarrow> (CommandResult \<times> Tables) option" where
  "rename_metadata_in_txn C old_key new_key is_pas t =
     (case validate_path_fast old_key of
        Inl e \<Rightarrow> Some (ErrorResult (InvalidPath e), t)
      | Inr _ \<Rightarrow>
     (case validate_path_fast new_key of
        Inl e \<Rightarrow> Some (ErrorResult (InvalidPath e), t)
      | Inr _ \<Rightarrow>
          if old_key = new_key then Some (Success, t)
          else
            let pre = trim_end_matches (CHR ''/'') old_key @ ''/'' in
            if old_key = ''/'' \<or> new_key = ''/'' \<or> starts_with new_key pre
            then Some (ErrorResult InvalidRenameDestination, t)
            else do {
              rows \<leftarrow> metadata_rename_rows old_key pre t;
              (case rename_target_refusal C new_key t of
                 Some e \<Rightarrow> Some (ErrorResult e, t)
               | None \<Rightarrow>
                   do {
                     planned \<leftarrow> rename_changes C old_key new_key is_pas t rows;
                     (case planned of
                        Inl refusal \<Rightarrow> Some (refusal, t)
                      | Inr changes \<Rightarrow>
                          do {
                            t1 \<leftarrow> rename_revisions changes t;
                            Some (Success, t1\<lparr>tb_metadata := move_rows changes (tb_metadata t1)\<rparr>)
                          })
                   })
            }))"

section \<open>What a rename may touch\<close>

lemma case_sum_eq:
  "case_sum f g x = y \<longleftrightarrow> (\<exists>a. x = Inl a \<and> f a = y) \<or> (\<exists>b. x = Inr b \<and> g b = y)"
  by (cases x) auto

lemma case_option_eq:
  "case_option f g x = y \<longleftrightarrow> x = None \<and> f = y \<or> (\<exists>b. x = Some b \<and> g b = y)"
  by (cases x) auto

lemmas case_eqs = case_sum_eq case_option_eq

lemma rename_changesD:
  assumes "rename_changes C old_key new_key is_pas t rows = Some (Inr changes)"
    and "control_ok (control_of t)"
  shows "map fst changes = map fst rows \<and>
    map (fst \<circ> snd) changes = map (rename_target old_key new_key \<circ> fst) rows \<and>
    (\<forall>(source, target, img) \<in> set changes.
      control_of t (policy_key source) = None \<and> control_of t (policy_key target) = None)"
  using assms(1)
proof (induction rows arbitrary: changes)
  case (Cons row rows)
  obtain source img where row: "row = (source, img)" by (cases row)
  have "\<exists>m changes'. changes = (source, rename_target old_key new_key source, m) # changes' \<and>
      rename_changes C old_key new_key is_pas t rows = Some (Inr changes') \<and>
      control_of t (policy_key source) = None \<and>
      control_of t (policy_key (rename_target old_key new_key source)) = None"
    using Cons.prems
    by (auto simp: row Let_def bind_eq_Some_conv ordinary_metadata_refusal_def protected_in_txn_ok [OF assms(2)]
        case_eqs split: if_split_asm)
  then show ?case
    using Cons.IH by (auto simp: row)
qed simp

definition rename_ends :: "(string \<times> string \<times> bytes) list \<Rightarrow> string set" where
  "rename_ends changes = fst ` set changes \<union> (fst \<circ> snd) ` set changes"

lemma rename_ends_simps [simp]:
  "rename_ends [] = {}" "rename_ends ((a, b, c) # changes) = {a, b} \<union> rename_ends changes"
  by (auto simp: rename_ends_def)

text \<open>One change of a rename: both ends are refreshed if they are tracked.\<close>

lemma rename_change_step:
  assumes "refresh_tracked_version source t = Some (b, t1)"
    and "(if b \<and> is_managed_content_path target
              then map_option snd (allocate_revision target None t1)
              else map_option snd (refresh_tracked_version target t1)) = Some t2"
    and "control_ok (control_of t)"
  shows "evolves (control_of t) (control_of t2)" "tb_metadata t2 = tb_metadata t" "tb_streams t2 = tb_streams t"
    "p \<notin> {source, target} \<Longrightarrow> control_of t2 (revision_key p) = control_of t (revision_key p)"
    "control_of t2 (policy_key p) = control_of t (policy_key p)"
    "k \<in> {source, target} \<Longrightarrow> is_managed_content_path k \<Longrightarrow> control_of t (revision_key k) \<noteq> None \<Longrightarrow>
       fresher (control_of t) k (control_of t2)"
proof -
  note r = refresh_tracked_evolves [OF assms(1,3)]
  have ok1: "control_ok (control_of t1)"
    using r(1) by (rule evolvesD)
  have second: "evolves (control_of t1) (control_of t2) \<and> tb_metadata t2 = tb_metadata t1 \<and>
      tb_streams t2 = tb_streams t1 \<and>
      (p \<noteq> target \<longrightarrow> control_of t2 (revision_key p) = control_of t1 (revision_key p)) \<and>
      control_of t2 (policy_key p) = control_of t1 (policy_key p) \<and>
      (is_managed_content_path target \<longrightarrow> control_of t1 (revision_key target) \<noteq> None \<longrightarrow>
         fresher (control_of t1) target (control_of t2))" for p
  proof (cases "b \<and> is_managed_content_path target")
    case True
    then obtain tok where "allocate_revision target None t1 = Some (tok, t2)"
      using assms(2) by auto
    from allocate_revision_evolves [OF this ok1] show ?thesis by simp
  next
    case False
    then obtain c where "refresh_tracked_version target t1 = Some (c, t2)"
      using assms(2) by auto
    from refresh_tracked_evolves [OF this ok1] show ?thesis by simp
  qed
  have le: "alloc_counter (control_of t) \<le> alloc_counter (control_of t1)"
    using r(1) by (rule evolvesD)
  show ev: "evolves (control_of t) (control_of t2)"
    using r(1) second evolves_trans by blast
  show "tb_metadata t2 = tb_metadata t" "tb_streams t2 = tb_streams t"
    "p \<notin> {source, target} \<Longrightarrow> control_of t2 (revision_key p) = control_of t (revision_key p)"
    "control_of t2 (policy_key p) = control_of t (policy_key p)"
    using r(2-5) second by auto
  show "fresher (control_of t) k (control_of t2)"
    if k: "k \<in> {source, target}" "is_managed_content_path k" "control_of t (revision_key k) \<noteq> None"
  proof (cases "k = source")
    case True
    then have "fresher (control_of t) k (control_of t1)"
      using k r(8) by simp
    then show ?thesis
      using second le fresher_keep by blast
  next
    case False
    then have "control_of t1 (revision_key target) \<noteq> None"
      using k r(4) [of target] by auto
    then have "fresher (control_of t1) target (control_of t2)"
      using second k False by auto
    then show ?thesis
      using k False le fresher_mono by auto
  qed
qed

lemma rename_revisionsD:
  assumes "rename_revisions changes t = Some t'" and "control_ok (control_of t)"
  shows "evolves (control_of t) (control_of t') \<and> tb_metadata t' = tb_metadata t \<and>
    tb_streams t' = tb_streams t \<and>
    (\<forall>p. p \<notin> rename_ends changes \<longrightarrow> control_of t' (revision_key p) = control_of t (revision_key p)) \<and>
    (\<forall>k \<in> rename_ends changes. is_managed_content_path k \<longrightarrow> control_of t (revision_key k) \<noteq> None \<longrightarrow>
       fresher (control_of t) k (control_of t'))"
  using assms
proof (induction changes arbitrary: t)
  case Nil
  then show ?case by (simp add: evolves_refl)
next
  case (Cons change changes)
  obtain source target img where change: "change = (source, target, img)" by (cases change)
  obtain b t1 t2 where steps: "refresh_tracked_version source t = Some (b, t1)"
    "(if b \<and> is_managed_content_path target
              then map_option snd (allocate_revision target None t1)
              else map_option snd (refresh_tracked_version target t1)) = Some t2"
    "rename_revisions changes t2 = Some t'"
    using Cons.prems(1) by (auto simp: change bind_eq_Some_conv)
  note one = rename_change_step [OF steps(1,2) Cons.prems(2)]
  note IH = Cons.IH [OF steps(3) evolvesD(1) [OF one(1)]]
  have le: "alloc_counter (control_of t) \<le> alloc_counter (control_of t2)"
    using one(1) by (rule evolvesD)
  have fresh: "fresher (control_of t) k (control_of t')"
    if k: "k \<in> rename_ends (change # changes)" "is_managed_content_path k" "control_of t (revision_key k) \<noteq> None" for k
  proof (cases "k \<in> {source, target}")
    case True
    then show ?thesis
      using one(6) k IH le fresher_keep by blast
  next
    case False
    then have "k \<in> rename_ends changes" "control_of t2 (revision_key k) \<noteq> None"
      using k one(4) by (auto simp: change)
    then show ?thesis
      using IH k(2) le fresher_mono by blast
  qed
  have "evolves (control_of t) (control_of t')"
    using one(1) IH evolves_trans by blast
  moreover have "control_of t' (revision_key p) = control_of t (revision_key p)"
    if "p \<notin> rename_ends (change # changes)" for p
    using that IH one(4) by (simp add: change)
  ultimately show ?case
    using IH one(2,3) fresh by simp
qed

lemma move_rows_out:
  "p \<notin> rename_ends changes \<Longrightarrow> map_of (move_rows changes m) p = map_of m p"
proof -
  have puts: "p \<notin> (fst \<circ> snd) ` set changes \<Longrightarrow>
      map_of (fold (\<lambda>(_, target, img). om_put target img) changes m) p = map_of m p" for m
    by (induction changes arbitrary: m) (auto simp: fun_upd_other)
  assume "p \<notin> rename_ends changes"
  then show ?thesis
    using puts by (auto simp: move_rows_def rename_ends_def om_dels_lookup)
qed

lemma rename_metadata_cases:
  assumes "rename_metadata_in_txn C a b is_pas t = Some (r, t')"
  obtains (kept) "t' = t"
  | (moved) rows changes t1 where
      "metadata_rename_rows a (trim_end_matches (CHR ''/'') a @ ''/'') t = Some rows"
      "rename_changes C a b is_pas t rows = Some (Inr changes)"
      "rename_revisions changes t = Some t1" "t' = t1\<lparr>tb_metadata := move_rows changes (tb_metadata t1)\<rparr>"
      "starts_with a ''/''" "starts_with b ''/''" "r = Success"
  using assms
  by (auto simp: rename_metadata_in_txn_def Let_def bind_eq_Some_conv case_eqs validate_path_fast_def
      split: if_split_asm)

lemma rename_metadata_step:
  assumes "rename_metadata_in_txn C a b is_pas t = Some (r, t')" and "control_ok (control_of t)"
  shows "txn_step t t'" "tb_streams t' = tb_streams t" "control_of t (policy_key p) \<noteq> None \<Longrightarrow> image_kept p t t'"
proof -
  from assms(1) have "txn_step t t' \<and> tb_streams t' = tb_streams t \<and>
      (control_of t (policy_key p) \<noteq> None \<longrightarrow> image_kept p t t')"
  proof (cases rule: rename_metadata_cases)
    case (moved rows changes t1)
    note c = rename_changesD [OF moved(2) assms(2)]
    note rv = rename_revisionsD [OF moved(3) assms(2)]
    have free: "control_of t (policy_key k) = None" if "k \<in> rename_ends changes" for k
      using c that by (auto simp: rename_ends_def)
    have out: "metadata_in_txn k t' = metadata_in_txn k t" if "k \<notin> rename_ends changes" for k
      using rv move_rows_out [OF that] by (simp add: moved(4) control_defs)
    have "txn_step t t'"
      unfolding txn_step_def
    proof (intro conjI allI impI)
      show "evolves (control_of t) (control_of t')"
        using rv by (simp add: moved(4))
      fix k
      assume "tracked k t" "metadata_in_txn k t' \<noteq> metadata_in_txn k t"
      moreover from this have "k \<in> rename_ends changes"
        using out by blast
      ultimately show "fresher (control_of t) k (control_of t')"
        using rv free by (simp add: tracked_def moved(4))
    qed
    moreover have "image_kept p t t'" if "control_of t (policy_key p) \<noteq> None"
    proof -
      have "p \<notin> rename_ends changes" using that free [of p] by auto
      then show ?thesis
        using rv out by (simp add: image_kept_def control_defs moved(4))
    qed
    ultimately show ?thesis
      using rv by (simp add: moved(4))
  qed (simp add: txn_step_refl assms(2))
  then show "txn_step t t'" "tb_streams t' = tb_streams t"
    "control_of t (policy_key p) \<noteq> None \<Longrightarrow> image_kept p t t'"
    by simp_all
qed

end
