(* ===== verification/Wire_Version.thy ===== *)
theory Wire_Version
  imports Byte_Codec Text_Format "HOL-Library.Code_Target_Nat"
begin

text \<open>
  Reading the version out of a stored metadata image without decoding it
  (\<^verbatim>\<open>FullStateMachine::extract_version\<close> and the two varint readers of
  \<^verbatim>\<open>raft/src/raft/state_machine.rs\<close>), and the protobuf wire format it scans.
  The index of the scan is a 64-bit machine integer: in a release build its
  additions wrap, and a shift count is taken modulo 64.  A scan that does not
  end is \<^term>\<open>None\<close>.
\<close>

section \<open>Varints\<close>

definition varint_shift :: "u8 \<Rightarrow> nat \<Rightarrow> nat" where
  "varint_shift b s = ((unat b mod 128) * 2 ^ (s mod 64)) mod 2 ^ 64"

text \<open>
  The bits of one byte are or-ed into the result; the sum of the shifted
  payloads is that disjunction as long as the shift stays below 64 bits, and
  the model keeps the bitwise operation of the source.
\<close>

fun decode_varint_from :: "nat \<Rightarrow> nat \<Rightarrow> bytes \<Rightarrow> nat" where
  "decode_varint_from r s [] = r"
| "decode_varint_from r s (b # bs) =
     (let r' = or r (varint_shift b s) in
      if unat b < 128 then r' else decode_varint_from r' (s + 7) bs)"

definition decode_varint :: "bytes \<Rightarrow> nat" where
  "decode_varint bs = decode_varint_from 0 0 bs"

fun decode_varint_with_len_from :: "nat \<Rightarrow> nat \<Rightarrow> nat \<Rightarrow> bytes \<Rightarrow> nat \<times> nat" where
  "decode_varint_with_len_from r s i [] = (r, i)"
| "decode_varint_with_len_from r s i (b # bs) =
     (let r' = or r (varint_shift b s) in
      if unat b < 128 then (r', i + 1) else decode_varint_with_len_from r' (s + 7) (i + 1) bs)"

definition decode_varint_with_len :: "bytes \<Rightarrow> nat \<times> nat" where
  "decode_varint_with_len bs = decode_varint_with_len_from 0 0 0 bs"

section \<open>The scan\<close>

text \<open>The end of a varint that is skipped: past the first byte without its top bit.\<close>

fun skip_varint :: "nat \<Rightarrow> bytes \<Rightarrow> nat" where
  "skip_varint i [] = i + 1"
| "skip_varint i (b # bs) = (if unat b < 128 then i + 1 else skip_varint (i + 1) bs)"

definition wrap :: "nat \<Rightarrow> nat" where
  "wrap n = n mod 2 ^ 64"

text \<open>
  One round at the tag byte \<^verbatim>\<open>bytes[i]\<close>: the version, the next index, or the
  end of the scan.
\<close>

datatype ScanStep = Found u32 | Next nat | Stop

definition scan_round :: "bytes \<Rightarrow> nat \<Rightarrow> ScanStep" where
  "scan_round bytes i =
     (let tag = unat (bytes ! i); field_number = tag div 8; wire_type = tag mod 8 in
      if field_number = 9 \<and> wire_type = 0 \<and> i + 1 < length bytes
      then Found (word_of_nat (decode_varint (drop (i + 1) bytes)))
      else
        let i1 = (if field_number = 9 \<and> wire_type = 0 then i + 2 else i + 1) in
        if wire_type = 0 then Next (skip_varint i1 (drop i1 bytes))
        else if wire_type = 1 then Next (i1 + 8)
        else if wire_type = 2
        then (case decode_varint_with_len (drop i1 bytes) of
                (len, consumed) \<Rightarrow> Next (wrap (i1 + wrap (consumed + len))))
        else if wire_type = 5 then Next (i1 + 4)
        else Stop)"

partial_function (option) version_scan :: "bytes \<Rightarrow> nat \<Rightarrow> u32 option option" where
  "version_scan bytes i =
     (if i < length bytes
      then (case scan_round bytes i of
              Found v \<Rightarrow> Some (Some v)
            | Next j \<Rightarrow> version_scan bytes j
            | Stop \<Rightarrow> Some None)
      else Some None)"

declare version_scan.simps [code]

section \<open>The JSON fallback\<close>

fun find_str :: "string \<Rightarrow> string \<Rightarrow> string option" where
  "find_str pat [] = (if pat = [] then Some [] else None)"
| "find_str pat (c # s) =
     (if starts_with (c # s) pat then Some (drop (length pat) (c # s)) else find_str pat s)"

text \<open>The UTF-8 encodings of the white space characters that \<^verbatim>\<open>trim_start\<close> removes.\<close>

definition white_space :: "string list" where
  "white_space =
     map (\<lambda>n. [char_of n]) ([9..<14] @ [32 :: nat]) @
     map (map char_of)
       ([[0xC2, 0x85], [0xC2, 0xA0], [0xE1, 0x9A, 0x80]] @
        map (\<lambda>n. [0xE2, 0x80, n]) ([0x80..<0x8B] @ [0xA8, 0xA9, 0xAF]) @
        [[0xE2, 0x81, 0x9F], [0xE3, 0x80, 0x80 :: nat]])"

fun trim_start_from :: "nat \<Rightarrow> string \<Rightarrow> string" where
  "trim_start_from 0 s = s"
| "trim_start_from (Suc n) s =
     (case find (starts_with s) white_space of
        None \<Rightarrow> s
      | Some w \<Rightarrow> trim_start_from n (drop (length w) s))"

definition trim_start :: "string \<Rightarrow> string" where
  "trim_start s = trim_start_from (length s) s"

definition parse_u32 :: "string \<Rightarrow> u32 option" where
  "parse_u32 s =
     (if s = [] then None
      else if dec_value s < 2 ^ 32 then Some (word_of_nat (dec_value s)) else None)"

definition json_version :: "string \<Rightarrow> u32 option" where
  "json_version text =
     (case find_str ([CHR 0x22] @ ''version'' @ [CHR 0x22]) text of
        None \<Rightarrow> None
      | Some after \<Rightarrow>
          (case find_str '':'' after of
             None \<Rightarrow> None
           | Some rest \<Rightarrow> parse_u32 (takeWhile is_digit (trim_start rest))))"

definition extract_version :: "bytes \<Rightarrow> u32 option" where
  "extract_version bytes =
     (case version_scan bytes 0 of
        None \<Rightarrow> None
      | Some (Some v) \<Rightarrow> Some v
      | Some None \<Rightarrow>
          Some (case from_utf8 bytes of
                  None \<Rightarrow> 0
                | Some text \<Rightarrow> (case json_version text of None \<Rightarrow> 0 | Some v \<Rightarrow> v)))"

section \<open>The wire format\<close>

text \<open>
  A message as protobuf writes it: its fields in order, each with a tag that
  joins the field number and the kind of its payload.
\<close>

datatype WireField =
    WireVarint nat
  | WireFixed64 bytes
  | WireBytes bytes
  | WireFixed32 bytes

fun encode_varint :: "nat \<Rightarrow> bytes" where
  "encode_varint n =
     (if n < 128 then [word_of_nat n] else word_of_nat (128 + n mod 128) # encode_varint (n div 128))"

declare encode_varint.simps [simp del]

fun wire_type_of :: "WireField \<Rightarrow> nat" where
  "wire_type_of (WireVarint _) = 0"
| "wire_type_of (WireFixed64 _) = 1"
| "wire_type_of (WireBytes _) = 2"
| "wire_type_of (WireFixed32 _) = 5"

fun encode_payload :: "WireField \<Rightarrow> bytes" where
  "encode_payload (WireVarint n) = encode_varint n"
| "encode_payload (WireFixed64 bs) = bs"
| "encode_payload (WireBytes bs) = encode_varint (length bs) @ bs"
| "encode_payload (WireFixed32 bs) = bs"

definition encode_field :: "nat \<times> WireField \<Rightarrow> bytes" where
  "encode_field f = encode_varint (8 * fst f + wire_type_of (snd f)) @ encode_payload (snd f)"

definition encode_message :: "(nat \<times> WireField) list \<Rightarrow> bytes" where
  "encode_message fs = concat (map encode_field fs)"

fun wire_ok :: "WireField \<Rightarrow> bool" where
  "wire_ok (WireVarint n) \<longleftrightarrow> n < 2 ^ 64"
| "wire_ok (WireFixed64 bs) \<longleftrightarrow> length bs = 8"
| "wire_ok (WireBytes bs) \<longleftrightarrow> length bs < 2 ^ 62"
| "wire_ok (WireFixed32 bs) \<longleftrightarrow> length bs = 4"

lemma unat_low_byte: "n < 128 \<Longrightarrow> unat (word_of_nat n :: u8) = n"
  by (simp add: unat_of_nat)

lemma unat_high_byte: "unat (word_of_nat (128 + n mod 128) :: u8) = 128 + n mod 128"
proof -
  have "128 + n mod 128 < 2 ^ 8" by simp
  then show ?thesis by (simp only: unat_of_nat len_bit0 len_num1) simp
qed

lemma or_disjoint:
  fixes r x :: nat
  assumes "r < 2 ^ s"
  shows "or r (x * 2 ^ s) = r + x * 2 ^ s"
proof -
  have "\<not> bit r n \<or> \<not> bit (x * 2 ^ s) n" for n
  proof (cases "n < s")
    case True
    then show ?thesis by (simp add: bit_push_bit_iff flip: push_bit_eq_mult)
  next
    case False
    then have "r < 2 ^ n"
      using assms by (meson le_less_linear less_le_trans one_le_numeral power_increasing)
    then show ?thesis by (simp add: bit_iff_odd)
  qed
  then show ?thesis by (simp add: disjunctive_add)
qed

lemma varint_shift_low:
  assumes "unat b mod 128 = m" and "m * 2 ^ s < 2 ^ 64" and "s < 64"
  shows "varint_shift b s = m * 2 ^ s"
  using assms by (simp add: varint_shift_def)

lemma varint_parts:
  fixes n :: nat
  assumes "n * 2 ^ s < 2 ^ 64"
  shows "(n mod 128) * 2 ^ s < 2 ^ 64" "(n div 128) * 2 ^ (s + 7) < 2 ^ 64"
    "(n mod 128) * 2 ^ s + (n div 128) * 2 ^ (s + 7) = n * 2 ^ s"
proof -
  have "(2 :: nat) ^ (s + 7) = 128 * 2 ^ s" by (simp add: power_add)
  then have "(n mod 128) * 2 ^ s + (n div 128) * 2 ^ (s + 7) = (n mod 128 + n div 128 * 128) * 2 ^ s"
    by (simp only: distrib_right mult.assoc)
  then show *: "(n mod 128) * 2 ^ s + (n div 128) * 2 ^ (s + 7) = n * 2 ^ s"
    by (simp only: mod_div_mult_eq)
  then show "(n mod 128) * 2 ^ s < 2 ^ 64" "(n div 128) * 2 ^ (s + 7) < 2 ^ 64"
    using assms by linarith+
qed

lemma varint_shift_bound:
  fixes n :: nat
  assumes "n * 2 ^ s < 2 ^ 64" and "0 < n"
  shows "s < 64"
proof (rule ccontr)
  assume "\<not> s < 64"
  then have "(2 :: nat) ^ 64 \<le> 2 ^ s" by (intro power_increasing) auto
  then show False using assms by (metis One_nat_def Suc_leI le_trans less_le_not_le mult.left_neutral mult_le_mono1)
qed

lemma varint_next_low:
  fixes r :: nat
  assumes "r < 2 ^ s"
  shows "r + (n mod 128) * 2 ^ s < 2 ^ (s + 7)"
proof -
  have "(n mod 128) * 2 ^ s \<le> 127 * 2 ^ s" by (intro mult_le_mono1) simp
  moreover have "(2 :: nat) ^ (s + 7) = 128 * 2 ^ s" by (simp add: power_add)
  ultimately show ?thesis using assms by linarith
qed

lemma decode_varint_from_encode:
  assumes "r < 2 ^ s" and "n * 2 ^ s < 2 ^ 64" and "s < 64"
  shows "decode_varint_from r s (encode_varint n @ rest) = r + n * 2 ^ s"
  using assms
proof (induction n arbitrary: r s rule: encode_varint.induct)
  case (1 n)
  note parts = varint_parts [OF 1(3)]
  show ?case
  proof (cases "n < 128")
    case True
    then show ?thesis
      using 1(2-) by (simp add: encode_varint.simps [of n] unat_low_byte varint_shift_low [where m = n] or_disjoint Let_def)
  next
    case False
    have shift: "varint_shift (word_of_nat (128 + n mod 128)) s = (n mod 128) * 2 ^ s"
      using parts(1) 1(4) by (intro varint_shift_low) (simp_all only: unat_high_byte, simp_all)
    have "s + 7 < 64"
      using varint_shift_bound [OF parts(2)] False by simp
    from 1(1) [OF False varint_next_low [OF 1(2)] parts(2) this, of n]
    show ?thesis
      using False parts(3) unfolding encode_varint.simps [of n]
      by (simp add: shift unat_high_byte or_disjoint [OF 1(2)] Let_def del: of_nat_add)
  qed
qed

lemma decode_varint_encode:
  "n < 2 ^ 64 \<Longrightarrow> decode_varint (encode_varint n @ rest) = n"
  by (simp add: decode_varint_def decode_varint_from_encode)

lemma decode_varint_with_len_from_encode:
  assumes "r < 2 ^ s" and "n * 2 ^ s < 2 ^ 64" and "s < 64"
  shows "decode_varint_with_len_from r s i (encode_varint n @ rest) =
    (r + n * 2 ^ s, i + length (encode_varint n))"
  using assms
proof (induction n arbitrary: r s i rule: encode_varint.induct)
  case (1 n)
  note parts = varint_parts [OF 1(3)]
  show ?case
  proof (cases "n < 128")
    case True
    then show ?thesis
      using 1(2-) by (simp add: encode_varint.simps [of n] unat_low_byte varint_shift_low [where m = n] or_disjoint Let_def)
  next
    case False
    have shift: "varint_shift (word_of_nat (128 + n mod 128)) s = (n mod 128) * 2 ^ s"
      using parts(1) 1(4) by (intro varint_shift_low) (simp_all only: unat_high_byte, simp_all)
    have "s + 7 < 64"
      using varint_shift_bound [OF parts(2)] False by simp
    from 1(1) [OF False varint_next_low [OF 1(2)] parts(2) this, of n]
    show ?thesis
      using False parts(3) unfolding encode_varint.simps [of n]
      by (simp add: shift unat_high_byte or_disjoint [OF 1(2)] Let_def del: of_nat_add)
  qed
qed

lemma decode_varint_with_len_encode:
  "n < 2 ^ 64 \<Longrightarrow> decode_varint_with_len (encode_varint n @ rest) = (n, length (encode_varint n))"
  by (simp add: decode_varint_with_len_def decode_varint_with_len_from_encode)

lemma skip_varint_encode:
  "skip_varint i (encode_varint n @ rest) = i + length (encode_varint n)"
proof (induction n arbitrary: i rule: encode_varint.induct)
  case (1 n)
  then show ?case
    unfolding encode_varint.simps [of n] by (auto simp: unat_low_byte unat_high_byte simp del: of_nat_add)
qed

text \<open>One round of the scan over a field with a small number skips exactly that field.\<close>

lemma scan_round_field:
  assumes "bytes = pre @ encode_field (num, f) @ rest" and "length bytes < 2 ^ 62"
    and "wire_ok f" and "num < 16" and "\<not> (num = 9 \<and> wire_type_of f = 0)"
  shows "scan_round bytes (length pre) = Next (length pre + length (encode_field (num, f)))"
proof -
  have t: "wire_type_of f < 8" by (cases f) simp_all
  have "8 * num + wire_type_of f < 128" using assms(4) t by linarith
  then have tag: "encode_varint (8 * num + wire_type_of f) = [word_of_nat (8 * num + wire_type_of f)]"
    "unat (word_of_nat (8 * num + wire_type_of f) :: u8) = 8 * num + wire_type_of f"
    by (simp add: encode_varint.simps, simp add: unat_low_byte del: of_nat_add of_nat_mult)
  have i: "bytes ! length pre = word_of_nat (8 * num + wire_type_of f)"
    "drop (Suc (length pre)) bytes = encode_payload f @ rest"
    by (simp_all add: assms(1) encode_field_def tag(1) del: of_nat_add of_nat_mult)
  have len: "length (encode_field (num, f)) = Suc (length (encode_payload f))"
    by (simp add: encode_field_def tag(1) del: of_nat_add of_nat_mult)
  have dm: "unat (bytes ! length pre) div 8 = num" "unat (bytes ! length pre) mod 8 = wire_type_of f"
    using t by (simp_all only: i(1) tag(2)) simp_all
  show ?thesis
  proof (cases f)
    case (WireBytes bs)
    have "length bs < 2 ^ 64" using assms(3) WireBytes by simp
    then have d: "decode_varint_with_len (encode_varint (length bs) @ bs @ rest) =
        (length bs, length (encode_varint (length bs)))"
      by (rule decode_varint_with_len_encode)
    have "Suc (length pre) + (length (encode_varint (length bs)) + length bs) \<le> length bytes"
      using len by (simp add: assms(1) WireBytes)
    then have "Suc (length pre) + (length (encode_varint (length bs)) + length bs) < 2 ^ 64"
      using assms(2) by simp
    then have w: "wrap (length (encode_varint (length bs)) + length bs) =
        length (encode_varint (length bs)) + length bs"
      "wrap (Suc (length pre) + (length (encode_varint (length bs)) + length bs)) =
        Suc (length pre) + (length (encode_varint (length bs)) + length bs)"
      by (simp_all add: wrap_def)
    show ?thesis
      using d w WireBytes len by (simp add: scan_round_def i(2) dm)
  qed (use assms(3,5) len in \<open>simp_all add: scan_round_def i(2) dm Let_def skip_varint_encode\<close>)
qed

lemma version_scan_skip:
  assumes "length (pre @ encode_message fs @ rest) < 2 ^ 62"
    and "\<forall>f \<in> set fs. wire_ok (snd f) \<and> fst f < 16 \<and> \<not> (fst f = 9 \<and> wire_type_of (snd f) = 0)"
  shows "version_scan (pre @ encode_message fs @ rest) (length pre) =
    version_scan (pre @ encode_message fs @ rest) (length pre + length (encode_message fs))"
  using assms
proof (induction fs arbitrary: pre)
  case Nil
  then show ?case by (simp add: encode_message_def)
next
  case (Cons f fs)
  let ?bytes = "pre @ encode_message (f # fs) @ rest"
  have eq: "?bytes = pre @ encode_field (fst f, snd f) @ (encode_message fs @ rest)"
    "?bytes = (pre @ encode_field f) @ encode_message fs @ rest"
    by (simp_all add: encode_message_def)
  have "scan_round ?bytes (length pre) = Next (length pre + length (encode_field f))"
    using scan_round_field [OF eq(1) Cons.prems(1)] Cons.prems(2) by auto
  moreover have "length pre < length ?bytes"
    by (simp add: encode_message_def encode_field_def encode_varint.simps [of "_ + _"])
  ultimately have "version_scan ?bytes (length pre) = version_scan ?bytes (length (pre @ encode_field f))"
    by (subst version_scan.simps) simp
  also have "\<dots> = version_scan ?bytes (length (pre @ encode_field f) + length (encode_message fs))"
    unfolding eq(2) using Cons.prems unfolding eq(2) by (intro Cons.IH) auto
  also have "\<dots> = version_scan ?bytes (length pre + length (encode_message (f # fs)))"
    by (simp add: encode_message_def add.assoc)
  finally show ?case .
qed

section \<open>Properties\<close>

text \<open>
  C21.  On a protobuf message whose fields before the version have numbers below
  sixteen, as those of \<^verbatim>\<open>FileMetadata\<close> have, the scan returns the version the
  message carries, truncated to 32 bits.
\<close>

theorem extract_version_exact:
  assumes "length (encode_message (fs @ (9, WireVarint v) # gs)) < 2 ^ 62"
    and "\<forall>f \<in> set fs. wire_ok (snd f) \<and> fst f < 16 \<and> \<not> (fst f = 9 \<and> wire_type_of (snd f) = 0)"
    and "v < 2 ^ 64"
  shows "extract_version (encode_message (fs @ (9, WireVarint v) # gs)) = Some (word_of_nat v)"
proof -
  let ?bytes = "encode_message (fs @ (9, WireVarint v) # gs)"
  have eq: "?bytes = [] @ encode_message fs @ (72 # encode_varint v @ encode_message gs)"
    by (simp add: encode_message_def encode_field_def encode_varint.simps [of 72])
  have "version_scan ?bytes 0 = version_scan ?bytes (length (encode_message fs))"
    using version_scan_skip [of "[]" fs "72 # encode_varint v @ encode_message gs"] assms(1,2)
    unfolding eq by simp
  also have "\<dots> = Some (Some (word_of_nat v))"
  proof -
    have "encode_varint v \<noteq> []" by (simp add: encode_varint.simps [of v])
    then have "Suc (length (encode_message fs)) < length ?bytes"
      unfolding eq by (simp add: Suc_lessI)
    moreover have "drop (Suc (length (encode_message fs))) ?bytes = encode_varint v @ encode_message gs"
      "?bytes ! length (encode_message fs) = 72"
      unfolding eq by simp_all
    ultimately have "scan_round ?bytes (length (encode_message fs)) = Found (word_of_nat v)"
      using assms(3) by (simp add: scan_round_def decode_varint_encode)
    then show ?thesis
      using \<open>Suc (length (encode_message fs)) < length ?bytes\<close> by (subst version_scan.simps) simp
  qed
  finally show ?thesis
    by (simp add: extract_version_def)
qed

theorem extract_version_exact_witness:
  "extract_version (encode_message
     ([(1, WireBytes (string_bytes ''/a'')), (8, WireBytes [])] @ (9, WireVarint 300) # [(13, WireVarint 1)])) =
   Some 300"
proof -
  have "length (encode_message
      ([(1, WireBytes (string_bytes ''/a'')), (8, WireBytes [])] @ (9, WireVarint 300) # [(13, WireVarint 1)])) = 11"
    by code_simp
  then show ?thesis
    using extract_version_exact [of "[(1, WireBytes (string_bytes ''/a'')), (8, WireBytes [])]" 300
        "[(13, WireVarint 1)]"] by simp
qed

text \<open>
  A message without a version, as protobuf writes the version zero, can be
  read as any version: the tag of a field with a number above fifteen takes two
  bytes and the scan reads its content as further tags, and a message that is
  valid text is searched for a JSON member.
\<close>

theorem version_zero_misread:
  "extract_version (encode_message [(1, WireBytes (string_bytes ''/a'')),
      (16, WireBytes (string_bytes ''Host:7''))]) = Some 111 \<and>
   extract_version (encode_message
      [(1, WireBytes (string_bytes (''/'' @ [CHR 0x22] @ ''version'' @ [CHR 0x22] @ '':7'')))]) = Some 7"
  by code_simp

definition looping_image :: bytes where
  "looping_image = 0x0A # encode_varint (2 ^ 64 - 11)"

lemma looping_round: "scan_round looping_image 0 = Next 0"
  by code_simp

lemma version_scan_looping: "version_scan bs i = Some r \<Longrightarrow> \<not> (bs = looping_image \<and> i = 0)"
proof (rule version_scan.raw_induct [where P = "\<lambda>bs i r. \<not> (bs = looping_image \<and> i = 0)"])
  fix f :: "bytes \<Rightarrow> nat \<Rightarrow> u32 option option" and bs i r
  assume IH: "\<And>bs i r. f bs i = Some r \<Longrightarrow> \<not> (bs = looping_image \<and> i = 0)"
    and run: "(if i < length bs
      then case scan_round bs i of Found v \<Rightarrow> Some (Some v) | Next j \<Rightarrow> f bs j | Stop \<Rightarrow> Some None
      else Some None) = Some r"
  show "\<not> (bs = looping_image \<and> i = 0)"
  proof
    assume eq: "bs = looping_image \<and> i = 0"
    have "0 < length looping_image" by (simp add: looping_image_def)
    then have "f looping_image 0 = Some r"
      using run eq looping_round by simp
    then show False using IH by blast
  qed
qed

text \<open>
  C22.  A length that wraps the index back to its own tag makes the scan run for
  ever.
\<close>

theorem extract_version_diverges: "extract_version looping_image = None"
  using version_scan_looping [of looping_image 0]
  by (cases "version_scan looping_image 0") (auto simp: extract_version_def)

end
