(* ===== verification/State_Machine.thy ===== *)
theory State_Machine
  imports Metadata_Rename Wire_Version
begin

text \<open>
  The replicated state machine of a zone
  (\<^verbatim>\<open>FullStateMachine\<close> in \<^verbatim>\<open>raft/src/raft/state_machine.rs\<close>): the dispatch of a
  committed command inside one transaction, the apply path with its index gate,
  the eventually consistent write path with last-writer-wins, snapshots and
  their restoration.  The state is the three redb trees, the advisory lock table
  in memory, and the last applied index.

  \<^term>\<open>None\<close> is an apply that does not come back: a storage error makes it panic, and
  the version scan of a compare-and-swap may not end.  Apply observers are not
  called here; what they are given is part of the result.
\<close>

section \<open>State\<close>

record FullStateMachine =
  sm_tables :: Tables
  sm_advisory :: LockState
  sm_last_applied :: nat

definition KEY_LAST_APPLIED :: string where
  "KEY_LAST_APPLIED = ''__last_applied__''"

definition no_tables :: Tables where
  "no_tables = \<lparr>tb_metadata = [], tb_streams = [], tb_control = []\<rparr>"

definition with_advisory :: "Tables \<Rightarrow> LockState \<Rightarrow> RaftError + FullStateMachine" where
  "with_advisory t advisory =
     (case map_of (tb_metadata t) KEY_LAST_APPLIED of
        None \<Rightarrow> Inr \<lparr>sm_tables = t, sm_advisory = advisory, sm_last_applied = 0\<rparr>
      | Some bs \<Rightarrow>
          if length bs = 8
          then Inr \<lparr>sm_tables = t, sm_advisory = advisory, sm_last_applied = be_value bs\<rparr>
          else Inl StorageError)"

definition state_machine_new :: "Tables \<Rightarrow> RaftError + FullStateMachine" where
  "state_machine_new t = with_advisory t lock_state_new"

section \<open>Lock commands\<close>

definition apply_acquire_lock ::
  "string \<Rightarrow> string \<Rightarrow> u32 \<Rightarrow> u32 \<Rightarrow> string \<Rightarrow> u64 \<Rightarrow> LockState \<Rightarrow> CommandResult \<times> LockState" where
  "apply_acquire_lock path lid maxh ttl info now s =
     (case apply_acquire path lid maxh ttl info now s of (r, s') \<Rightarrow> (LockResult r, s'))"

definition lock_outcome :: "bool \<times> LockState \<Rightarrow> string \<Rightarrow> CommandResult \<times> LockState" where
  "lock_outcome r path =
     (if fst r then Success
      else if get_lock (snd r) path = None then ErrorResult LockNotFound
      else ErrorResult LockHolderNotFound, snd r)"

definition apply_release_lock :: "string \<Rightarrow> string \<Rightarrow> LockState \<Rightarrow> CommandResult \<times> LockState" where
  "apply_release_lock path lid s = lock_outcome (apply_release path lid s) path"

definition apply_force_release_lock :: "string \<Rightarrow> LockState \<Rightarrow> CommandResult \<times> LockState" where
  "apply_force_release_lock path s =
     (case apply_force_release path s of
        (found, s') \<Rightarrow> (if found then Success else ErrorResult LockNotFound, s'))"

definition apply_extend_lock ::
  "string \<Rightarrow> string \<Rightarrow> u32 \<Rightarrow> u64 \<Rightarrow> LockState \<Rightarrow> CommandResult \<times> LockState" where
  "apply_extend_lock path lid ttl now s = lock_outcome (apply_extend path lid ttl now s) path"

fun apply_lock_command :: "Command \<Rightarrow> LockState \<Rightarrow> CommandResult \<times> LockState" where
  "apply_lock_command (AcquireLock path lid maxh ttl info now) s =
     apply_acquire_lock path lid maxh ttl info now s"
| "apply_lock_command (ReleaseLock path lid) s = apply_release_lock path lid s"
| "apply_lock_command (ForceReleaseLock path) s = apply_force_release_lock path s"
| "apply_lock_command (ExtendLock path lid ttl now) s = apply_extend_lock path lid ttl now s"
| "apply_lock_command _ s = (Success, s)"

section \<open>Metadata commands\<close>

text \<open>An \<^verbatim>\<open>i64\<close> counter: the sum wraps, and a negative result is stored as zero.\<close>

definition stored_i64 :: "bytes option \<Rightarrow> i64" where
  "stored_i64 v = (case v of Some bs \<Rightarrow> if length bs = 8 then word_of_nat (be_value bs) else 0 | None \<Rightarrow> 0)"

definition adjusted_counter :: "i64 \<Rightarrow> i64 \<Rightarrow> i64" where
  "adjusted_counter current delta = (if sint (current + delta) < 0 then 0 else current + delta)"

definition apply_adjust_counter :: "string \<Rightarrow> i64 \<Rightarrow> Tables \<Rightarrow> CommandResult \<times> Tables" where
  "apply_adjust_counter key delta t =
     (let new_val = adjusted_counter (stored_i64 (map_of (tb_metadata t) key)) delta in
      (Value (be_bytes 8 (unat new_val)), put_metadata key (be_bytes 8 (unat new_val)) t))"

definition apply_set_metadata :: "string \<Rightarrow> bytes \<Rightarrow> Tables \<Rightarrow> CommandResult \<times> Tables" where
  "apply_set_metadata key v t = (Success, put_metadata key v t)"

definition del_metadata :: "string \<Rightarrow> Tables \<Rightarrow> Tables" where
  "del_metadata key t = t\<lparr>tb_metadata := om_del key (tb_metadata t)\<rparr>"

definition apply_delete_metadata :: "string \<Rightarrow> Tables \<Rightarrow> CommandResult \<times> Tables" where
  "apply_delete_metadata key t = (Success, del_metadata key t)"

definition current_version :: "bytes option \<Rightarrow> u32 option" where
  "current_version current = (case current of None \<Rightarrow> Some 0 | Some bs \<Rightarrow> extract_version bs)"

definition apply_cas_set_metadata ::
  "string \<Rightarrow> bytes \<Rightarrow> u32 \<Rightarrow> Tables \<Rightarrow> (CommandResult \<times> Tables) option" where
  "apply_cas_set_metadata key v expected t =
     do {
       current \<leftarrow> current_version (map_of (tb_metadata t) key);
       Some (if current \<noteq> expected then (CasResult False current, t)
             else (CasResult True (expected + 1), put_metadata key v t))
     }"

definition on_streams ::
  "(stream_table \<Rightarrow> CommandResult \<times> stream_table) \<Rightarrow> Tables \<Rightarrow> CommandResult \<times> Tables" where
  "on_streams f t = (case f (tb_streams t) of (r, s) \<Rightarrow> (r, t\<lparr>tb_streams := s\<rparr>))"

definition put_control_state ::
  "string \<Rightarrow> string \<Rightarrow> bytes \<Rightarrow> bool \<Rightarrow> Tables \<Rightarrow> CommandResult \<times> Tables" where
  "put_control_state namespace key v if_absent t =
     (if if_absent \<and> map_of (tb_control t) (control_key namespace key) \<noteq> None
      then (ErrorResult ControlStateExists, t)
      else (Success, put_control (control_key namespace key) v t))"

definition delete_control_state :: "string \<Rightarrow> string \<Rightarrow> Tables \<Rightarrow> CommandResult \<times> Tables" where
  "delete_control_state namespace key t =
     (Success, t\<lparr>tb_control := om_del (control_key namespace key) (tb_control t)\<rparr>)"

section \<open>Dispatch inside the apply transaction\<close>

fun execute_guarded ::
  "GuardedRecordMutation \<Rightarrow> Tables \<Rightarrow> (CommandResult \<times> Tables) option" where
  "execute_guarded (ReplaceMetadata key v expected incarnation) t =
     write_versioned_in_txn key v expected incarnation t"
| "execute_guarded (GuardedAppend p data) t = Some (on_streams (apply_append p data) t)"
| "execute_guarded (GuardedSeal p base endv content_id origin sz) t =
     Some (on_streams (apply_seal p base endv content_id origin sz) t)"
| "execute_guarded (GuardedTrim p up_to trimmed) t = Some (on_streams (apply_trim p up_to) t)"

fun execute_arm :: "MetadataCodec \<Rightarrow> Command \<Rightarrow> Tables \<Rightarrow> (CommandResult \<times> Tables) option" where
  "execute_arm C (AdmitRecordIoOwner key expected_version) t = admit_record_io_in_txn key expected_version t"
| "execute_arm C (BindRecordGuard key expected_image guard_key guard_version incarnation) t =
     bind_record_guard_in_txn key expected_image guard_key guard_version incarnation t"
| "execute_arm C (RetireRecordGuard key expected_version v incarnation) t =
     retire_record_guard_in_txn key expected_version v incarnation t"
| "execute_arm C (SetMetadata key v) t =
     do { (_, t1) \<leftarrow> refresh_tracked_version key t; Some (Success, put_metadata key v t1) }"
| "execute_arm C (CasSetMetadata key v expected) t =
     do {
       current \<leftarrow> current_version (metadata_in_txn key t);
       if current \<noteq> expected then Some (CasResult False current, t)
       else do { (_, t1) \<leftarrow> refresh_tracked_version key t;
                 Some (CasResult True (expected + 1), put_metadata key v t1) }
     }"
| "execute_arm C (DeleteMetadata key) t =
     do { (_, t1) \<leftarrow> refresh_tracked_version key t; Some (Success, del_metadata key t1) }"
| "execute_arm C (AdjustCounter key delta) t =
     (if is_managed_content_path key then Some (ErrorResult CounterOnManaged, t)
      else Some (apply_adjust_counter key delta t))"
| "execute_arm C (AppendStreamEntry p data) t = Some (on_streams (apply_append p data) t)"
| "execute_arm C (SealStreamSegment p base endv content_id origin sz) t =
     Some (on_streams (apply_seal p base endv content_id origin sz) t)"
| "execute_arm C (TrimStreamSegment p up_to trimmed) t = Some (on_streams (apply_trim p up_to) t)"
| "execute_arm C (PutControlState namespace key v if_absent) t =
     (if namespace = NAMESPACE then Some (ErrorResult ControlStateOwned, t)
      else Some (put_control_state namespace key v if_absent t))"
| "execute_arm C (DeleteControlState namespace key) t =
     (if namespace = NAMESPACE then Some (ErrorResult ControlStateOwned, t)
      else Some (delete_control_state namespace key t))"
| "execute_arm C (WriteVersionedMetadata key v expected incarnation) t =
     write_versioned_in_txn key v expected incarnation t"
| "execute_arm C (GuardedRecord guard_version mutation) t = execute_guarded mutation t"
| "execute_arm C (AdoptProtectedMetadata key expected_image incarnation) t =
     adopt_protected_in_txn key expected_image incarnation t"
| "execute_arm C (RenameMetadata old_key new_key is_pas) t =
     rename_metadata_in_txn C old_key new_key is_pas t"
| "execute_arm C Noop t = Some (Success, t)"
| "execute_arm C (AcquireLock _ _ _ _ _ _) t = None"
| "execute_arm C (ReleaseLock _ _) t = None"
| "execute_arm C (ForceReleaseLock _) t = None"
| "execute_arm C (ExtendLock _ _ _ _) t = None"

definition execute_metadata_in_txn ::
  "MetadataCodec \<Rightarrow> Command \<Rightarrow> Tables \<Rightarrow> (CommandResult \<times> Tables) option" where
  "execute_metadata_in_txn C c t =
     do {
       guard \<leftarrow> record_guard_refusal c t;
       (case guard of
          Some refusal \<Rightarrow> Some (refusal, t)
        | None \<Rightarrow>
            do {
              ordinary \<leftarrow> (case ordinary_metadata_key c of
                             None \<Rightarrow> Some None
                           | Some key \<Rightarrow> ordinary_metadata_refusal key t);
              (case ordinary of
                 Some refusal \<Rightarrow> Some (refusal, t)
               | None \<Rightarrow> execute_arm C c t)
            })
     }"

section \<open>The apply path\<close>

definition peek_is_dt_mount :: "MetadataCodec \<Rightarrow> string \<Rightarrow> Tables \<Rightarrow> bool" where
  "peek_is_dt_mount C key t =
     (case map_of (tb_metadata t) key of
        None \<Rightarrow> False
      | Some bs \<Rightarrow> (case mc_decode C bs of Some p \<Rightarrow> fm_entry_type p = DT_MOUNT | None \<Rightarrow> False))"

fun removed_mount_key :: "MetadataCodec \<Rightarrow> Command \<Rightarrow> Tables \<Rightarrow> string option" where
  "removed_mount_key C (DeleteMetadata key) t = (if peek_is_dt_mount C key t then Some key else None)"
| "removed_mount_key C (SetMetadata key v) t =
     (if peek_is_dt_mount C key t \<and>
         \<not> (case mc_decode C v of Some p \<Rightarrow> fm_entry_type p = DT_MOUNT | None \<Rightarrow> False)
      then Some key else None)"
| "removed_mount_key C _ t = None"

record AppliedEntry =
  ae_index :: nat
  ae_command :: Command
  ae_result :: CommandResult
  ae_removed_mount_key :: "string option"

definition apply_command ::
  "MetadataCodec \<Rightarrow> nat \<Rightarrow> Command \<Rightarrow> FullStateMachine
     \<Rightarrow> (CommandResult \<times> AppliedEntry option \<times> FullStateMachine) option" where
  "apply_command C index c sm =
     (if is_lock_command c
      then case apply_lock_command c (sm_advisory sm) of
             (r, s) \<Rightarrow>
               Some (r, None,
                     sm\<lparr>sm_advisory := s,
                        sm_last_applied := (if sm_last_applied sm < index then index else sm_last_applied sm)\<rparr>)
      else if index \<le> sm_last_applied sm then Some (Success, None, sm)
      else do {
        (r, t) \<leftarrow> execute_metadata_in_txn C c (sm_tables sm);
        Some (r,
              Some \<lparr>ae_index = index, ae_command = c, ae_result = r,
                    ae_removed_mount_key = removed_mount_key C c (sm_tables sm)\<rparr>,
              sm\<lparr>sm_tables := put_metadata KEY_LAST_APPLIED (be_bytes 8 index) t,
                 sm_last_applied := index\<rparr>)
      })"

section \<open>Mount events\<close>

datatype MountApplyEvent = MountSet string string string | MountDelete string

definition subtree_or_whole_zone :: "string \<Rightarrow> string" where
  "subtree_or_whole_zone raw = (if raw = [] then ''/'' else raw)"

fun mount_apply_event_from :: "MetadataCodec \<Rightarrow> Command \<Rightarrow> string option \<Rightarrow> MountApplyEvent option" where
  "mount_apply_event_from C (SetMetadata key v) removed =
     (case mc_decode C v of
        None \<Rightarrow> None
      | Some p \<Rightarrow>
          if fm_entry_type p = DT_MOUNT \<and> fm_target_zone_id p \<noteq> []
          then Some (MountSet key (fm_target_zone_id p) (subtree_or_whole_zone (fm_target_subtree p)))
          else if removed = Some key then Some (MountDelete key) else None)"
| "mount_apply_event_from C (DeleteMetadata key) removed =
     (if removed = Some key then Some (MountDelete key) else None)"
| "mount_apply_event_from C _ removed = None"

section \<open>Reads\<close>

definition get_metadata :: "string \<Rightarrow> Tables \<Rightarrow> bytes option" where
  "get_metadata path t = map_of (tb_metadata t) path"

definition list_metadata :: "string \<Rightarrow> Tables \<Rightarrow> (string \<times> bytes) list" where
  "list_metadata pre t =
     filter (\<lambda>e. starts_with (fst e) pre \<and> utf8_string (fst e) \<and> \<not> starts_with (fst e) ''__'') (tb_metadata t)"

text \<open>A mount declaration: the zone a mount points into and the subtree it exposes.\<close>

definition iter_dt_mount_entries :: "MetadataCodec \<Rightarrow> Tables \<Rightarrow> (string \<times> string \<times> string) list" where
  "iter_dt_mount_entries C t =
     List.map_filter
       (\<lambda>(key, bs). case mc_decode C bs of
                      None \<Rightarrow> None
                    | Some p \<Rightarrow>
                        if fm_entry_type p = DT_MOUNT \<and> fm_target_zone_id p \<noteq> []
                        then Some (key, fm_target_zone_id p, subtree_or_whole_zone (fm_target_subtree p))
                        else None)
       (list_metadata ''/'' t)"

definition get_control_state :: "string \<Rightarrow> string \<Rightarrow> Tables \<Rightarrow> bytes option" where
  "get_control_state namespace key t = map_of (tb_control t) (control_key namespace key)"

definition list_control_state :: "string \<Rightarrow> Tables \<Rightarrow> (string \<times> bytes) list" where
  "list_control_state namespace t =
     (let pre = namespace @ [CHR 0x00] in
      map (\<lambda>(k, v). (drop (length pre) k, v))
        (filter (\<lambda>(k, v). length pre < length k \<and> take (length pre) k = pre \<and>
                          utf8_string (drop (length pre) k)) (tb_control t)))"

section \<open>The eventually consistent path\<close>

definition requires_strong_consistency :: "Command \<Rightarrow> Tables \<Rightarrow> RaftError + bool" where
  "requires_strong_consistency c t =
     (if requires_conditional_sc c then Inr True else ordinary_write_is_protected c t)"

text \<open>The arms of \<^verbatim>\<open>execute\<close> that the local path admits.\<close>

fun execute_local :: "Command \<Rightarrow> Tables \<Rightarrow> (RaftError + CommandResult \<times> Tables) option" where
  "execute_local (SetMetadata key v) t = Some (Inr (apply_set_metadata key v t))"
| "execute_local (CasSetMetadata key v expected) t =
     map_option Inr (apply_cas_set_metadata key v expected t)"
| "execute_local (DeleteMetadata key) t = Some (Inr (apply_delete_metadata key t))"
| "execute_local (PutControlState namespace key v if_absent) t =
     Some (Inr (put_control_state namespace key v if_absent t))"
| "execute_local (DeleteControlState namespace key) t = Some (Inr (delete_control_state namespace key t))"
| "execute_local _ t = Some (Inl InvalidState)"

definition apply_local ::
  "Command \<Rightarrow> FullStateMachine \<Rightarrow> (RaftError + CommandResult \<times> FullStateMachine) option" where
  "apply_local c sm =
     (case requires_strong_consistency c (sm_tables sm) of
        Inl e \<Rightarrow> Some (Inl e)
      | Inr True \<Rightarrow> Some (Inl InvalidState)
      | Inr False \<Rightarrow>
          do {
            r \<leftarrow> execute_local c (sm_tables sm);
            Some (case r of Inl e \<Rightarrow> Inl e | Inr (r, t) \<Rightarrow> Inr (r, sm\<lparr>sm_tables := t\<rparr>))
          })"

definition decode_modified_at :: "MetadataCodec \<Rightarrow> bytes \<Rightarrow> string" where
  "decode_modified_at C bs = (case mc_decode C bs of None \<Rightarrow> [] | Some m \<Rightarrow> fm_modified_at m)"

definition decode_modified_at_unix :: "MetadataCodec \<Rightarrow> bytes \<Rightarrow> u64" where
  "decode_modified_at_unix C bs =
     (case mc_decode C bs of
        None \<Rightarrow> 0
      | Some m \<Rightarrow> (case mc_parse_time C (fm_modified_at m) of None \<Rightarrow> 0 | Some n \<Rightarrow> n))"

fun lww_write :: "MetadataCodec \<Rightarrow> Command \<Rightarrow> u64 \<Rightarrow> Tables \<Rightarrow> RaftError + CommandResult \<times> Tables" where
  "lww_write C (SetMetadata key v) entry_timestamp t =
     (case map_of (tb_metadata t) key of
        Some existing \<Rightarrow>
          if decode_modified_at C v < decode_modified_at C existing then Inr (Success, t)
          else Inr (apply_set_metadata key v t)
      | None \<Rightarrow> Inr (apply_set_metadata key v t))"
| "lww_write C (DeleteMetadata key) entry_timestamp t =
     (case map_of (tb_metadata t) key of
        Some existing \<Rightarrow>
          if entry_timestamp < decode_modified_at_unix C existing then Inr (Success, t)
          else Inr (apply_delete_metadata key t)
      | None \<Rightarrow> Inr (apply_delete_metadata key t))"
| "lww_write C _ entry_timestamp t = Inl InvalidState"

definition apply_ec_with_lww ::
  "MetadataCodec \<Rightarrow> Command \<Rightarrow> u64 \<Rightarrow> FullStateMachine \<Rightarrow> RaftError + CommandResult \<times> FullStateMachine" where
  "apply_ec_with_lww C c entry_timestamp sm =
     (case requires_strong_consistency c (sm_tables sm) of
        Inl e \<Rightarrow> Inl e
      | Inr True \<Rightarrow> Inr (Success, sm)
      | Inr False \<Rightarrow>
          (case lww_write C c entry_timestamp (sm_tables sm) of
             Inl e \<Rightarrow> Inl e
           | Inr (r, t) \<Rightarrow> Inr (r, sm\<lparr>sm_tables := t\<rparr>)))"

definition ec_state_snapshot :: "FullStateMachine \<Rightarrow> RaftError + Command list" where
  "ec_state_snapshot sm =
     (case protected_metadata_paths (sm_tables sm) of
        Inl e \<Rightarrow> Inl e
      | Inr protected \<Rightarrow>
          Inr (map (\<lambda>(key, v). SetMetadata key v)
                 (filter (\<lambda>(key, v). \<not> is_managed_content_path key \<and> key \<notin> set protected)
                    (list_metadata [] (sm_tables sm)))))"

section \<open>Snapshots\<close>

text \<open>
  The serialised maps of a snapshot are written without duplicates; they are
  kept here in key order.
\<close>

record Snapshot =
  ss_metadata :: "(string, bytes) omap"
  ss_stream_entries :: "(string, bytes) omap"
  ss_control_state :: "(string, bytes) omap"
  ss_advisory :: LockState
  ss_last_applied :: nat

definition snapshot :: "FullStateMachine \<Rightarrow> Snapshot" where
  "snapshot sm =
     \<lparr>ss_metadata = filter (\<lambda>e. utf8_string (fst e) \<and> \<not> starts_with (fst e) ''__'') (tb_metadata (sm_tables sm)),
      ss_stream_entries = filter (\<lambda>e. utf8_string (fst e)) (tb_streams (sm_tables sm)),
      ss_control_state = filter (\<lambda>e. utf8_string (fst e)) (tb_control (sm_tables sm)),
      ss_advisory = sm_advisory sm,
      ss_last_applied = sm_last_applied sm\<rparr>"

definition refill :: "(string, bytes) omap \<Rightarrow> (string, bytes) omap" where
  "refill m = fold (\<lambda>(k, v). om_put k v) m []"

definition restore_snapshot :: "Snapshot \<Rightarrow> FullStateMachine" where
  "restore_snapshot ss =
     \<lparr>sm_tables =
        \<lparr>tb_metadata = om_put KEY_LAST_APPLIED (be_bytes 8 (ss_last_applied ss)) (refill (ss_metadata ss)),
         tb_streams = refill (ss_stream_entries ss),
         tb_control = refill (ss_control_state ss)\<rparr>,
      sm_advisory = ss_advisory ss,
      sm_last_applied = ss_last_applied ss\<rparr>"

definition validate_protected_snapshot_policy :: "Snapshot \<Rightarrow> MembershipPolicy \<Rightarrow> RaftError + unit" where
  "validate_protected_snapshot_policy ss policy =
     (case decode_requirement (map_of (ss_control_state ss) requirement_key) of
        Inl e \<Rightarrow> Inl e
      | Inr required \<Rightarrow> validate_policy required policy)"

end
