(* ===== verification/Record_Safety.thy ===== *)
theory Record_Safety
  imports State_Machine
begin

text \<open>
  What the transactions of the replicated state machine guarantee about
  versioned records: the control store keeps its type, a revision names one
  image of its path for ever, and a record whose owner is retired is never
  written again.  The runs are all sequences of committed commands and of
  eventually consistent writes, local and from peers.
\<close>

section \<open>One committed command\<close>

text \<open>
  What a command owes to its type: its strings are UTF-8 text, and the
  namespace of a control record is free of the separator.
\<close>

fun mutation_text :: "GuardedRecordMutation \<Rightarrow> bool" where
  "mutation_text (ReplaceMetadata key _ _ _) \<longleftrightarrow> utf8_string key"
| "mutation_text (GuardedAppend p _) \<longleftrightarrow> utf8_string p"
| "mutation_text (GuardedSeal p _ _ _ _ _) \<longleftrightarrow> utf8_string p"
| "mutation_text (GuardedTrim p _ _) \<longleftrightarrow> utf8_string p"

fun command_text :: "Command \<Rightarrow> bool" where
  "command_text (SetMetadata key _) \<longleftrightarrow> utf8_string key"
| "command_text (DeleteMetadata key) \<longleftrightarrow> utf8_string key"
| "command_text (CasSetMetadata key _ _) \<longleftrightarrow> utf8_string key"
| "command_text (AdjustCounter key _) \<longleftrightarrow> utf8_string key"
| "command_text (AppendStreamEntry p _) \<longleftrightarrow> utf8_string p"
| "command_text (SealStreamSegment p _ _ _ _ _) \<longleftrightarrow> utf8_string p"
| "command_text (TrimStreamSegment p _ _) \<longleftrightarrow> utf8_string p"
| "command_text (PutControlState ns key _ _) \<longleftrightarrow> utf8_string ns \<and> utf8_string key \<and> CHR 0x00 \<notin> set ns"
| "command_text (DeleteControlState ns key) \<longleftrightarrow> utf8_string ns \<and> utf8_string key \<and> CHR 0x00 \<notin> set ns"
| "command_text (WriteVersionedMetadata key _ _ _) \<longleftrightarrow> utf8_string key"
| "command_text (AdoptProtectedMetadata key _ _) \<longleftrightarrow> utf8_string key"
| "command_text (RenameMetadata old_key new_key _) \<longleftrightarrow> utf8_string old_key \<and> utf8_string new_key"
| "command_text (BindRecordGuard key _ guard_key _ _) \<longleftrightarrow> utf8_string key \<and> utf8_string guard_key"
| "command_text (GuardedRecord _ mutation) \<longleftrightarrow> mutation_text mutation"
| "command_text (RetireRecordGuard key _ _ _) \<longleftrightarrow> utf8_string key"
| "command_text (AdmitRecordIoOwner key _) \<longleftrightarrow> utf8_string key"
| "command_text _ \<longleftrightarrow> True"

lemma on_streams_simps [simp]:
  "tb_metadata (snd (on_streams f t)) = tb_metadata t" "tb_control (snd (on_streams f t)) = tb_control t"
  "tb_streams (snd (on_streams f t)) = snd (f (tb_streams t))"
  by (simp_all add: on_streams_def case_prod_beta)

lemma stream_txn_step:
  assumes "Some (on_streams f t) = Some (r, t')" and "control_ok (control_of t)"
  shows "txn_step t t'" "image_kept p t t'"
proof -
  have "tb_metadata t' = tb_metadata t" "tb_control t' = tb_control t"
    using assms(1) on_streams_simps(1,2) [of f t] by (metis option.inject snd_conv)+
  then show "txn_step t t'" "image_kept p t t'"
    using assms(2) by (simp_all add: txn_step_control evolves_refl image_kept_def control_defs)
qed

lemma del_metadata_simps [simp]:
  "tb_streams (del_metadata k t) = tb_streams t" "tb_control (del_metadata k t) = tb_control t"
  "map_of (tb_metadata (del_metadata k t)) = (map_of (tb_metadata t))(k := None)"
  by (simp_all add: del_metadata_def)

text \<open>A write to one unprotected path after its revision was refreshed.\<close>

lemma refreshed_write_step:
  assumes "refresh_tracked_version k t = Some (b, t1)" and "control_ok (control_of t)"
    and "control_of t (policy_key k) = None" and "tb_control t' = tb_control t1" and "tb_streams t' = tb_streams t1"
    and "\<And>q. q \<noteq> k \<Longrightarrow> map_of (tb_metadata t') q = map_of (tb_metadata t1) q"
  shows "txn_step t t'" "frozen p t \<Longrightarrow> image_kept p t t'" "tb_streams t' = tb_streams t"
proof -
  note r = refresh_tracked_evolves [OF assms(1,2)]
  show "txn_step t t'"
    unfolding txn_step_def
  proof (intro conjI allI impI)
    show "evolves (control_of t) (control_of t')"
      using r(1) by (simp add: assms(4))
    fix q
    assume q: "tracked q t" "metadata_in_txn q t' \<noteq> metadata_in_txn q t"
    then have "q = k"
      using assms(6) r(2) by (auto simp: control_defs)
    then show "fresher (control_of t) q (control_of t')"
      using q(1) r(8) assms(3) by (simp add: tracked_def assms(4))
  qed
  show "image_kept p t t'" if "frozen p t"
  proof -
    have "p \<noteq> k"
      using frozen_protected [OF assms(2) that] assms(3) by auto
    then show ?thesis
      using assms(6) r(2,4) by (simp add: image_kept_def control_defs assms(4))
  qed
  show "tb_streams t' = tb_streams t"
    using r(3) assms(5) by simp
qed

lemma foreign_control_step:
  assumes "control_ok (control_of t)" and "\<not> owned_key k" and "tb_metadata t' = tb_metadata t"
    and "control_of t' = (control_of t)(k := x)"
  shows "txn_step t t'" "image_kept p t t'"
proof -
  show "txn_step t t'"
    using evolves_foreign [OF assms(1,2)] assms(3) by (intro txn_step_control) (simp_all add: assms(4))
  have "k \<noteq> revision_key p"
    using assms(2) owned_keys by auto
  then show "image_kept p t t'"
    using assms(3) by (simp add: image_kept_def control_defs assms(4))
qed

lemma control_state_step:
  assumes "control_ok (control_of t)" and "CHR 0x00 \<notin> set ns" and "ns \<noteq> NAMESPACE"
  shows "txn_step t (snd (put_control_state ns key v b t))" "image_kept p t (snd (put_control_state ns key v b t))"
    "txn_step t (snd (delete_control_state ns key t))" "image_kept p t (snd (delete_control_state ns key t))"
    "tb_streams (snd (put_control_state ns key v b t)) = tb_streams t"
    "tb_streams (snd (delete_control_state ns key t)) = tb_streams t"
proof -
  have k: "\<not> owned_key (control_key ns key)"
    using assms(2,3) by (rule foreign_key)
  show "txn_step t (snd (put_control_state ns key v b t))" "image_kept p t (snd (put_control_state ns key v b t))"
    "txn_step t (snd (delete_control_state ns key t))" "image_kept p t (snd (delete_control_state ns key t))"
    using foreign_control_step [OF assms(1) k, of "put_control (control_key ns key) v t"]
      foreign_control_step [OF assms(1) k, of "t\<lparr>tb_control := om_del (control_key ns key) (tb_control t)\<rparr>"]
      txn_step_refl [OF assms(1)]
    by (simp_all add: put_control_state_def delete_control_state_def)
qed (simp_all add: put_control_state_def delete_control_state_def)

text \<open>
  The guard of a record: an unguarded conditional write never reaches a bound
  record or a retired owner, a guarded one only a record with a live owner.
\<close>

lemma guarded_write_not_frozen:
  assumes "guarded_record_refusal gv m t = Some None" and "mutation_key m = Some k"
    and "control_ok (control_of t)"
  shows "\<not> frozen k t"
proof
  assume f: "frozen k t"
  obtain b g where b: "record_control_in_txn BINDING_PREFIX k t = Some b" "from_utf8 b = Some g"
    "record_control_in_txn RETIRED_PREFIX g t = None"
    using assms by (auto simp: guarded_record_refusal_def bind_eq_Some_conv case_eqs live_record_guard_ok
        split: if_split_asm)
  have "record_control_in_txn RETIRED_PREFIX k t = None"
    using b(1) control_okD(9) [OF assms(3), of k] by (cases "record_control_in_txn RETIRED_PREFIX k t")
      (auto simp: control_defs)
  then obtain g' where "utf8_string g'" "b = string_bytes g'" "record_control_in_txn RETIRED_PREFIX g' t \<noteq> None"
    using f b(1) by (auto simp: frozen_def)
  then show False
    using b(2,3) from_utf8_string [of g'] by auto
qed

lemma unguarded_write_not_frozen:
  assumes "record_guard_refusal c t = Some None" and "guarded_record_key c = Some k"
    and "\<forall>gv m. c \<noteq> GuardedRecord gv m"
  shows "\<not> frozen k t"
proof -
  have "record_control_in_txn RETIRED_PREFIX k t = None \<and> record_control_in_txn BINDING_PREFIX k t = None"
    using assms by (cases c) (auto simp: record_guard_refusal_def split: if_split_asm option.split_asm)
  then show ?thesis
    by (simp add: frozen_def)
qed

text \<open>
  A committed command either is refused and changes nothing, or passes both
  gates and runs its arm.
\<close>

lemma execute_cases:
  assumes "execute_metadata_in_txn C c t = Some (r, t')" and "control_ok (control_of t)"
  obtains "t' = t"
  | "record_guard_refusal c t = Some None" "execute_arm C c t = Some (r, t')"
    "\<And>k. ordinary_metadata_key c = Some k \<Longrightarrow> control_of t (policy_key k) = None"
proof -
  have "t' = t \<or> record_guard_refusal c t = Some None \<and> execute_arm C c t = Some (r, t') \<and>
      (\<forall>k. ordinary_metadata_key c = Some k \<longrightarrow> control_of t (policy_key k) = None)"
    using assms by (auto simp: execute_metadata_in_txn_def bind_eq_Some_conv case_eqs ordinary_metadata_refusal_def
        protected_in_txn_ok split: if_split_asm)
  then show thesis
    using that by blast
qed

lemma guarded_mutation_step:
  assumes "execute_guarded m t = Some (r, t')" and "guarded_record_refusal gv m t = Some None"
    and "control_ok (control_of t)"
  shows "txn_step t t'" "frozen p t \<Longrightarrow> image_kept p t t'"
proof -
  have "txn_step t t' \<and> (frozen p t \<longrightarrow> image_kept p t t')"
  proof (cases m)
    case (ReplaceMetadata k v e i)
    then have w: "write_versioned_in_txn k v e i t = Some (r, t')"
      using assms(1) by simp
    have "\<not> frozen k t"
      using guarded_write_not_frozen [OF assms(2) _ assms(3)] ReplaceMetadata by simp
    then show ?thesis
      using write_versioned_step(1,3) [OF w assms(3)] by metis
  qed (use assms(1) stream_txn_step [OF _ assms(3)] in simp_all)
  then show "txn_step t t'" "frozen p t \<Longrightarrow> image_kept p t t'"
    by simp_all
qed

lemma execute_arm_step:
  assumes "execute_arm C c t = Some (r, t')" and "record_guard_refusal c t = Some None"
    and "\<And>k. ordinary_metadata_key c = Some k \<Longrightarrow> control_of t (policy_key k) = None"
    and ok: "control_ok (control_of t)" and typed: "command_text c"
  shows "txn_step t t' \<and> (frozen p t \<longrightarrow> image_kept p t t')"
proof (cases c)
  case (SetMetadata k v)
  then obtain b t1 where "refresh_tracked_version k t = Some (b, t1)" "t' = put_metadata k v t1"
    using assms(1) by (auto simp: bind_eq_Some_conv)
  then show ?thesis
    using refreshed_write_step [OF _ ok, of k b t1 t'] assms(3) [of k] SetMetadata by simp
next
  case (DeleteMetadata k)
  then obtain b t1 where "refresh_tracked_version k t = Some (b, t1)" "t' = del_metadata k t1"
    using assms(1) by (auto simp: bind_eq_Some_conv)
  then show ?thesis
    using refreshed_write_step [OF _ ok, of k b t1 t'] assms(3) [of k] DeleteMetadata by simp
next
  case (CasSetMetadata k v e)
  then consider "t' = t"
    | b t1 where "refresh_tracked_version k t = Some (b, t1)" "t' = put_metadata k v t1"
    using assms(1) by (auto simp: bind_eq_Some_conv split: if_split_asm)
  then show ?thesis
  proof cases
    case 2
    then show ?thesis
      using refreshed_write_step [OF _ ok, of k b t1 t'] assms(3) [of k] CasSetMetadata by simp
  qed (simp add: txn_step_refl [OF ok])
next
  case (AdjustCounter k d)
  show ?thesis
  proof (cases "is_managed_content_path k")
    case False
    then have "refresh_tracked_version k t = Some (False, t)"
      by (simp add: refresh_tracked_version_def)
    moreover obtain v where "t' = put_metadata k v t"
      using assms(1) AdjustCounter False by (auto simp: apply_adjust_counter_def Let_def)
    ultimately show ?thesis
      using refreshed_write_step [OF _ ok, of k False t t'] assms(3) [of k] AdjustCounter by simp
  qed (use assms(1) AdjustCounter txn_step_refl [OF ok] in simp)
next
  case (PutControlState ns k v b)
  then have "t' = t \<or> t' = snd (put_control_state ns k v b t) \<and> ns \<noteq> NAMESPACE"
    using assms(1) by (auto split: if_split_asm)
  then show ?thesis
    using control_state_step(1,2) [OF ok, of ns] typed PutControlState txn_step_refl [OF ok] by (elim disjE) simp_all
next
  case (DeleteControlState ns k)
  then have "t' = t \<or> t' = snd (delete_control_state ns k t) \<and> ns \<noteq> NAMESPACE"
    using assms(1) by (auto split: if_split_asm)
  then show ?thesis
    using control_state_step(3,4) [OF ok, of ns] typed DeleteControlState txn_step_refl [OF ok] by (elim disjE) simp_all
next
  case (WriteVersionedMetadata k v e i)
  then have w: "write_versioned_in_txn k v e i t = Some (r, t')"
    using assms(1) by simp
  have "\<not> frozen k t"
    using unguarded_write_not_frozen [OF assms(2)] WriteVersionedMetadata by (simp add: guarded_record_key_def)
  then show ?thesis
    using write_versioned_step(1,3) [OF w ok] by metis
next
  case (AdoptProtectedMetadata k e i)
  then have a: "adopt_protected_in_txn k e i t = Some (r, t')"
    using assms(1) by simp
  note d = adopt_protectedD [OF a ok]
  have "image_kept p t t'" if "frozen p t"
    using d(2) d(4) [of p] frozen_protected [OF ok that] by (auto simp: image_kept_def control_defs)
  then show ?thesis
    using txn_step_control [OF d(1,2)] by simp
next
  case (RenameMetadata a b is_pas)
  then show ?thesis
    using assms(1) rename_metadata_step [OF _ ok] frozen_protected [OF ok] by (metis execute_arm.simps(16))
next
  case (BindRecordGuard k e g gv i)
  then show ?thesis
    using assms(1) bind_record_guard_step [OF _ ok] typed by simp
next
  case (GuardedRecord gv m)
  then show ?thesis
    using assms(1,2) guarded_mutation_step [OF _ _ ok] by (simp add: record_guard_refusal_def)
next
  case (RetireRecordGuard k e v i)
  then show ?thesis
    using assms(1) retire_record_guard_step [OF _ ok] by simp
next
  case (AdmitRecordIoOwner k e)
  then show ?thesis
    using assms(1) admit_record_io_step [OF _ ok] by simp
qed (use assms(1) stream_txn_step [OF _ ok] txn_step_refl [OF ok] in simp_all)

lemma execute_step:
  assumes "execute_metadata_in_txn C c t = Some (r, t')" and "control_ok (control_of t)" and "command_text c"
  shows "txn_step t t'" "frozen p t \<Longrightarrow> image_kept p t t'"
proof -
  have "txn_step t t' \<and> (frozen p t \<longrightarrow> image_kept p t t')"
  proof (rule execute_cases [OF assms(1,2)])
    assume "record_guard_refusal c t = Some None" "execute_arm C c t = Some (r, t')"
      "\<And>k. ordinary_metadata_key c = Some k \<Longrightarrow> control_of t (policy_key k) = None"
    then show ?thesis
      using execute_arm_step assms(2,3) by blast
  qed (simp add: txn_step_refl assms(2))
  then show "txn_step t t'" "frozen p t \<Longrightarrow> image_kept p t t'"
    by simp_all
qed

section \<open>Eventually consistent writes\<close>

lemma weak_key_free:
  assumes "requires_strong_consistency c t = Inr False" and "ordinary_metadata_key c = Some k"
  shows "\<not> is_managed_content_path k" "control_of t (policy_key k) = None"
  using assms
  by (auto simp: requires_strong_consistency_def requires_conditional_sc_def ordinary_write_is_protected_def
      is_protected_metadata_def decode_policy_def split: if_split_asm option.split_asm)

lemma weak_write_step:
  assumes "requires_strong_consistency c t = Inr False" and "ordinary_metadata_key c = Some k"
    and "control_ok (control_of t)" and "t' = put_metadata k v t \<or> t' = del_metadata k t \<or> t' = t"
  shows "txn_step t t'" "frozen p t \<Longrightarrow> image_kept p t t'" "tb_streams t' = tb_streams t"
proof -
  note free = weak_key_free [OF assms(1,2)]
  have "refresh_tracked_version k t = Some (False, t)"
    using free(1) by (simp add: refresh_tracked_version_def)
  moreover have "tb_control t' = tb_control t" "tb_streams t' = tb_streams t"
    "\<And>q. q \<noteq> k \<Longrightarrow> map_of (tb_metadata t') q = map_of (tb_metadata t) q"
    using assms(4) by auto
  ultimately show "txn_step t t'" "frozen p t \<Longrightarrow> image_kept p t t'" "tb_streams t' = tb_streams t"
    using refreshed_write_step [OF _ assms(3) free(2), of False t t'] by simp_all
qed

lemma weak_control_namespace:
  "requires_strong_consistency (PutControlState ns key v b) t = Inr False \<Longrightarrow> ns \<noteq> NAMESPACE"
  "requires_strong_consistency (DeleteControlState ns key) t = Inr False \<Longrightarrow> ns \<noteq> NAMESPACE"
  by (auto simp: requires_strong_consistency_def requires_conditional_sc_def split: if_split_asm)

lemma apply_local_step:
  assumes "apply_local c sm = Some (Inr (r, sm'))" and "control_ok (control_of (sm_tables sm))"
    and "command_text c"
  shows "txn_step (sm_tables sm) (sm_tables sm')"
    "frozen p (sm_tables sm) \<Longrightarrow> image_kept p (sm_tables sm) (sm_tables sm')"
    "tb_streams (sm_tables sm') = tb_streams (sm_tables sm)"
proof -
  let ?t = "sm_tables sm" and ?t' = "sm_tables sm'"
  have weak: "requires_strong_consistency c ?t = Inr False"
    and run: "execute_local c ?t = Some (Inr (r, ?t'))"
    using assms(1)
    by (auto simp: apply_local_def bind_eq_Some_conv case_eqs split: bool.split_asm)
  have "txn_step ?t ?t' \<and> (frozen p ?t \<longrightarrow> image_kept p ?t ?t') \<and> tb_streams ?t' = tb_streams ?t"
  proof (cases c)
    case (SetMetadata k v)
    then have "?t' = put_metadata k v ?t"
      using run by (simp add: apply_set_metadata_def)
    then show ?thesis
      using weak_write_step [OF weak _ assms(2), of k ?t' v] SetMetadata by simp
  next
    case (DeleteMetadata k)
    then have "?t' = del_metadata k ?t"
      using run by (simp add: apply_delete_metadata_def)
    then show ?thesis
      using weak_write_step [OF weak _ assms(2), of k ?t'] DeleteMetadata by simp
  next
    case (CasSetMetadata k v e)
    then have "?t' = put_metadata k v ?t \<or> ?t' = ?t"
      using run by (auto simp: apply_cas_set_metadata_def bind_eq_Some_conv split: if_split_asm)
    then show ?thesis
      using weak_write_step [OF weak _ assms(2), of k ?t' v] CasSetMetadata by auto
  next
    case (PutControlState ns k v b)
    then have "?t' = snd (put_control_state ns k v b ?t)"
      using run by simp
    then show ?thesis
      using control_state_step [OF assms(2), of ns] weak_control_namespace(1) weak assms(3) PutControlState by auto
  next
    case (DeleteControlState ns k)
    then have "?t' = snd (delete_control_state ns k ?t)"
      using run by simp
    then show ?thesis
      using control_state_step [OF assms(2), of ns] weak_control_namespace(2) weak assms(3) DeleteControlState by auto
  qed (use run in simp_all)
  then show "txn_step ?t ?t'" "frozen p ?t \<Longrightarrow> image_kept p ?t ?t'" "tb_streams ?t' = tb_streams ?t"
    by simp_all
qed

lemma apply_ec_step:
  assumes "apply_ec_with_lww C c ts sm = Inr (r, sm')" and "control_ok (control_of (sm_tables sm))"
  shows "txn_step (sm_tables sm) (sm_tables sm')"
    "frozen p (sm_tables sm) \<Longrightarrow> image_kept p (sm_tables sm) (sm_tables sm')"
    "tb_streams (sm_tables sm') = tb_streams (sm_tables sm)"
proof -
  let ?t = "sm_tables sm" and ?t' = "sm_tables sm'"
  have "?t' = ?t \<or> requires_strong_consistency c ?t = Inr False \<and>
      (\<exists>k v. ordinary_metadata_key c = Some k \<and> (?t' = put_metadata k v ?t \<or> ?t' = del_metadata k ?t \<or> ?t' = ?t))"
    using assms(1)
    by (cases c) (auto simp: apply_ec_with_lww_def apply_set_metadata_def apply_delete_metadata_def case_eqs
        split: bool.split_asm if_split_asm)
  then have "txn_step ?t ?t' \<and> (frozen p ?t \<longrightarrow> image_kept p ?t ?t') \<and> tb_streams ?t' = tb_streams ?t"
    using weak_write_step [OF _ _ assms(2)] txn_step_refl [OF assms(2)] by (metis image_kept_refl)
  then show "txn_step ?t ?t'" "frozen p ?t \<Longrightarrow> image_kept p ?t ?t'" "tb_streams ?t' = tb_streams ?t"
    by simp_all
qed

section \<open>The stream of a record\<close>

text \<open>The hot entries and the cursors of the stream that belongs to a record.\<close>

definition live_row :: "string \<Rightarrow> string \<Rightarrow> bool" where
  "live_row p k \<longleftrightarrow>
     k \<in> {stream_tail_key (wal_stream_prefix p), stream_floor_key (wal_stream_prefix p),
          stream_earliest_key (wal_stream_prefix p)} \<or>
     (\<exists>s. k = stream_entry_key (wal_stream_prefix p) s)"

lemma last_dec_digits: "last (dec_digits n) \<noteq> CHR ''/''"
  using dec_digits_digits [of n] last_in_set [OF dec_digits_ne, of n] digits_no_slash by metis

lemma foreign_entry_key:
  assumes "q \<noteq> wal_stream_prefix p" and "starts_with q WAL_STREAM_KEY_PREFIX \<longrightarrow> ends_with q ''/''"
    and "live_row p k"
  shows "stream_entry_key q i \<noteq> k"
proof
  assume eq: "stream_entry_key q i = k"
  have "last k \<noteq> CHR ''/''"
    using last_dec_digits by (simp add: eq [symmetric] stream_entry_key_def)
  then obtain s where k: "k = wal_stream_prefix p @ dec_digits s"
    using assms(3) by (auto simp: live_row_def stream_key_defs wal_stream_prefix_def)
  have slash: "CHR ''/'' \<notin> set (dec_digits n)" for n
    using dec_digits_digits by (rule digits_no_slash)
  consider us where "q = wal_stream_prefix p @ us" "us @ dec_digits i = dec_digits s"
    | us where "wal_stream_prefix p = q @ us" "dec_digits i = us @ dec_digits s"
    using eq unfolding k stream_entry_key_def append_eq_append_conv2 by metis
  then show False
  proof cases
    case 1
    then have "us \<noteq> []" "starts_with q WAL_STREAM_KEY_PREFIX"
      using assms(1) by (auto simp: wal_stream_prefix_def starts_with_iff)
    then have "last us = CHR ''/''"
      using assms(2) 1(1) by (auto simp: ends_with_iff) (metis last_appendR last_snoc)
    then have "CHR ''/'' \<in> set (dec_digits s)"
      using \<open>us \<noteq> []\<close> 1(2) by (metis UnCI last_in_set set_append)
    then show False using slash by blast
  next
    case 2
    then have "us \<noteq> []" using assms(1) by auto
    moreover have "last (wal_stream_prefix p) = CHR ''/''"
      by (simp add: wal_stream_prefix_def)
    ultimately have "last us = CHR ''/''"
      using 2(1) by simp
    then have "CHR ''/'' \<in> set (dec_digits i)"
      using \<open>us \<noteq> []\<close> 2(2) by (metis UnCI last_in_set set_append)
    then show False using slash by blast
  qed
qed

lemma foreign_cursor_keys:
  assumes "q \<noteq> wal_stream_prefix p" and "live_row p k"
  shows "stream_tail_key q \<noteq> k" "stream_floor_key q \<noteq> k" "stream_earliest_key q \<noteq> k"
    "starts_with k (stream_segment_key_prefix q') \<Longrightarrow> False"
  using assms by (auto simp: live_row_def stream_key_defs wal_stream_prefix_def WAL_STREAM_KEY_PREFIX_def starts_with_iff)

lemma trimmed_segment_keys: "k \<in> set (trimmed_keys q n t) \<Longrightarrow> starts_with k (stream_segment_key_prefix q)"
  using prefix_range [of "stream_segment_key_prefix q" k "CHR 0xFF"]
  by (auto simp: trimmed_keys_def segment_rows_def rows_between_def map_filter_def starts_with_iff
      split: option.splits if_splits)

lemma foreign_stream_rows:
  assumes "q \<noteq> wal_stream_prefix p" and "starts_with q WAL_STREAM_KEY_PREFIX \<longrightarrow> ends_with q ''/''"
    and "live_row p k"
  shows "map_of (snd (apply_append q d t)) k = map_of t k"
    "map_of (snd (apply_seal q base endv cid origin sz t)) k = map_of t k"
    "map_of (snd (apply_trim q n t)) k = map_of t k"
proof -
  note e = foreign_entry_key [OF assms] and c = foreign_cursor_keys [OF assms(1,3)]
  have seg: "stream_segment_key q base \<noteq> k"
    using c(4) [of q] by (auto simp: stream_segment_key_def)
  have trim: "k \<notin> set (trimmed_keys q n t)"
    using trimmed_segment_keys c(4) by blast
  show "map_of (snd (apply_append q d t)) k = map_of t k"
    using e [of "stream_tail q t"] c(1) by (auto simp: apply_append_def Let_def)
  show "map_of (snd (apply_seal q base endv cid origin sz t)) k = map_of t k"
    using e c(2) seg by (auto simp: apply_seal_def Let_def om_dels_lookup)
  show "map_of (snd (apply_trim q n t)) k = map_of t k"
    using c(3) trim by (simp add: apply_trim_def om_dels_lookup)
qed

lemma delimited_watch_pathD:
  assumes "delimited_watch_path q = Some p"
  shows "q = wal_stream_prefix p"
proof -
  obtain rest i where r: "q = WAL_STREAM_KEY_PREFIX @ rest" "rfind (CHR ''/'') rest = Some i" "p = take i rest"
    "ends_with q ''/''"
    using assms
    by (auto simp: delimited_watch_path_def watch_path_from_wal_stream_key_def strip_prefix_Some
        split: if_split_asm option.split_asm)
  have "rest \<noteq> []" using r(2) by auto
  moreover have "last q = CHR ''/''"
    using r(4) by (auto simp: ends_with_iff)
  ultimately have "last rest = CHR ''/''"
    using r(1) by simp
  then have split: "rest = butlast rest @ ''/''"
    using \<open>rest \<noteq> []\<close> by (metis append_butlast_last_id)
  have "rfind (CHR ''/'') (butlast rest @ CHR ''/'' # []) = Some (length (butlast rest))"
    by (rule rfind_append) simp
  then have "i = length (butlast rest)"
    using r(2) split by simp
  then have "p = butlast rest"
    using r(3) split by (metis append_eq_conv_conj)
  then show ?thesis
    using r(1) split by (simp add: wal_stream_prefix_def)
qed

lemma delimited_watch_path_prefix: "p \<noteq> [] \<Longrightarrow> delimited_watch_path (wal_stream_prefix p) = Some p"
  by (simp add: delimited_watch_path_def watch_path_from_wal_stream_key_def wal_stream_prefix_def
      strip_prefix_def ends_with_iff)

text \<open>A stream command that passed the guard does not touch the stream of a frozen record.\<close>

lemma admitted_prefix:
  assumes "record_guard_refusal c t = Some None" and "record_stream_prefix c = Some q" and "frozen p t" and "p \<noteq> []"
  shows "q \<noteq> wal_stream_prefix p" "starts_with q WAL_STREAM_KEY_PREFIX \<longrightarrow> ends_with q ''/''"
proof -
  have c: "\<forall>gv m. c \<noteq> GuardedRecord gv m"
    using assms(2) by auto
  show "q \<noteq> wal_stream_prefix p"
  proof
    assume "q = wal_stream_prefix p"
    then have "guarded_record_key c = Some p"
      using assms(2,4) delimited_watch_path_prefix by (cases c) (simp_all add: guarded_record_key_def)
    then show False
      using unguarded_write_not_frozen [OF assms(1) _ c] assms(3) by blast
  qed
  show "starts_with q WAL_STREAM_KEY_PREFIX \<longrightarrow> ends_with q ''/''"
    using assms(1,2) c by (cases c) (auto simp: record_guard_refusal_def split: if_split_asm)
qed

lemma guarded_prefix:
  assumes "guarded_record_refusal gv m t = Some None" and "control_ok (control_of t)" and "frozen p t"
    and "m = GuardedAppend q d \<or> m = GuardedSeal q base endv cid origin sz \<or> m = GuardedTrim q n tr"
  shows "q \<noteq> wal_stream_prefix p" "starts_with q WAL_STREAM_KEY_PREFIX \<longrightarrow> ends_with q ''/''"
proof -
  obtain k where k: "mutation_key m = Some k" "delimited_watch_path q = Some k"
    using assms(1,4) by (cases "mutation_key m") (auto simp: guarded_record_refusal_def)
  have q: "q = wal_stream_prefix k"
    using k(2) by (rule delimited_watch_pathD)
  have "k \<noteq> p"
    using guarded_write_not_frozen [OF assms(1) k(1) assms(2)] assms(3) by auto
  then show "q \<noteq> wal_stream_prefix p"
    by (simp add: q wal_stream_prefix_def)
  show "starts_with q WAL_STREAM_KEY_PREFIX \<longrightarrow> ends_with q ''/''"
    by (simp add: q wal_stream_prefix_def ends_with_iff)
qed

lemma execute_stream_rows:
  assumes "execute_metadata_in_txn C c t = Some (r, t')" and ok: "control_ok (control_of t)" and "command_text c"
    and "frozen p t" and "p \<noteq> []" and "live_row p k"
  shows "map_of (tb_streams t') k = map_of (tb_streams t) k"
proof (rule execute_cases [OF assms(1,2)])
  assume guard: "record_guard_refusal c t = Some None" and arm: "execute_arm C c t = Some (r, t')"
    and free: "\<And>k. ordinary_metadata_key c = Some k \<Longrightarrow> control_of t (policy_key k) = None"
  note own = admitted_prefix [OF guard _ assms(4,5)]
  note rows = foreign_stream_rows [OF _ _ assms(6)]
  have on: "map_of (tb_streams t') k = map_of (snd (f (tb_streams t))) k"
    if "Some (on_streams f t) = Some (r, t')" for f
    using that on_streams_simps(3) [of f t] by (metis option.inject snd_conv)
  show ?thesis
  proof (cases c)
    case (SetMetadata a v)
    then show ?thesis
      using arm refresh_tracked_evolves(3) [OF _ ok] by (auto simp: bind_eq_Some_conv)
  next
    case (DeleteMetadata a)
    then show ?thesis
      using arm refresh_tracked_evolves(3) [OF _ ok] by (auto simp: bind_eq_Some_conv)
  next
    case (CasSetMetadata a v e)
    then show ?thesis
      using arm refresh_tracked_evolves(3) [OF _ ok] by (auto simp: bind_eq_Some_conv split: if_split_asm)
  next
    case (AdjustCounter a d)
    then show ?thesis
      using arm by (auto simp: apply_adjust_counter_def Let_def split: if_split_asm)
  next
    case (AppendStreamEntry q d)
    then show ?thesis
      using arm own [of q] on [of "apply_append q d"] rows(1) by simp
  next
    case (SealStreamSegment q base endv cid origin sz)
    then show ?thesis
      using arm own [of q] on [of "apply_seal q base endv cid origin sz"] rows(2) by simp
  next
    case (TrimStreamSegment q n tr)
    then show ?thesis
      using arm own [of q] on [of "apply_trim q n"] rows(3) by simp
  next
    case (PutControlState ns a v b)
    then show ?thesis
      using arm by (auto simp: put_control_state_def split: if_split_asm)
  next
    case (DeleteControlState ns a)
    then show ?thesis
      using arm by (auto simp: delete_control_state_def split: if_split_asm)
  next
    case (GuardedRecord gv m)
    then have refusal: "guarded_record_refusal gv m t = Some None"
      using guard by (simp add: record_guard_refusal_def)
    note gp = guarded_prefix [OF refusal ok assms(4)]
    show ?thesis
    proof (cases m)
      case (ReplaceMetadata a v e i)
      then show ?thesis
        using arm GuardedRecord write_versioned_step(2) [OF _ ok] by simp
    next
      case (GuardedAppend q d)
      then show ?thesis
        using arm GuardedRecord gp [of q d] on [of "apply_append q d"] rows(1) by simp
    next
      case (GuardedSeal q base endv cid origin sz)
      then show ?thesis
        using arm GuardedRecord gp(1,2) [of q _ base endv cid origin sz]
          on [of "apply_seal q base endv cid origin sz"] rows(2) by simp
    next
      case (GuardedTrim q n tr)
      then show ?thesis
        using arm GuardedRecord gp(1,2) [of q _ _ _ _ _ _ n tr] on [of "apply_trim q n"] rows(3) by simp
    qed
  qed (use arm assms(3) write_versioned_step(2) [OF _ ok] adopt_protectedD(3) [OF _ ok] rename_metadata_step(2) [OF _ ok]
      bind_record_guard_step(2) [OF _ ok] retire_record_guard_step(2) [OF _ ok] admit_record_io_step(2) [OF _ ok] in simp_all)
qed simp

section \<open>Runs of a zone\<close>

inductive zone_step :: "MetadataCodec \<Rightarrow> FullStateMachine \<Rightarrow> FullStateMachine \<Rightarrow> bool" for C where
  committed: "apply_command C index c sm = Some (r, e, sm') \<Longrightarrow> command_text c \<Longrightarrow> zone_step C sm sm'"
| local_write: "apply_local c sm = Some (Inr (r, sm')) \<Longrightarrow> command_text c \<Longrightarrow> zone_step C sm sm'"
| peer_write: "apply_ec_with_lww C c ts sm = Inr (r, sm') \<Longrightarrow> command_text c \<Longrightarrow> zone_step C sm sm'"

definition fresh_machine :: FullStateMachine where
  "fresh_machine = \<lparr>sm_tables = no_tables, sm_advisory = lock_state_new, sm_last_applied = 0\<rparr>"

text \<open>The index marker is the one metadata row that changes outside of every command.\<close>

definition zone_ok_step :: "Tables \<Rightarrow> Tables \<Rightarrow> bool" where
  "zone_ok_step t t' \<longleftrightarrow>
     evolves (control_of t) (control_of t') \<and>
     (\<forall>k. k \<noteq> KEY_LAST_APPLIED \<longrightarrow> tracked k t \<longrightarrow> metadata_in_txn k t' \<noteq> metadata_in_txn k t \<longrightarrow>
        fresher (control_of t) k (control_of t')) \<and>
     (\<forall>p. p \<noteq> KEY_LAST_APPLIED \<longrightarrow> frozen p t \<longrightarrow> image_kept p t t' \<and>
        (p \<noteq> [] \<longrightarrow> (\<forall>k. live_row p k \<longrightarrow> map_of (tb_streams t') k = map_of (tb_streams t) k)))"

lemma zone_step_ok:
  assumes "zone_step C sm sm'" and "control_ok (control_of (sm_tables sm))"
  shows "zone_ok_step (sm_tables sm) (sm_tables sm')"
  using assms(1)
proof cases
  case (committed index c r e)
  show ?thesis
  proof (cases "is_lock_command c \<or> index \<le> sm_last_applied sm")
    case True
    then have "sm_tables sm' = sm_tables sm"
      using committed(1) by (auto simp: apply_command_def case_prod_beta split: if_split_asm)
    then show ?thesis
      using evolves_refl [OF assms(2)] by (simp add: zone_ok_step_def)
  next
    case False
    then obtain t1 where run: "execute_metadata_in_txn C c (sm_tables sm) = Some (r, t1)"
      "sm_tables sm' = put_metadata KEY_LAST_APPLIED (be_bytes 8 index) t1"
      using committed(1) by (auto simp: apply_command_def bind_eq_Some_conv split: if_split_asm)
    note ex = execute_step [OF run(1) assms(2) committed(2)]
      and rows = execute_stream_rows [OF run(1) assms(2) committed(2)]
    have "evolves (control_of (sm_tables sm)) (control_of t1)"
      using ex(1) by (simp add: txn_step_def)
    then show ?thesis
      using ex rows by (auto simp: zone_ok_step_def txn_step_def run(2) control_defs image_kept_def)
  qed
next
  case (local_write c r)
  then show ?thesis
    using apply_local_step [OF local_write(1) assms(2)] by (simp add: zone_ok_step_def txn_step_def)
next
  case (peer_write c ts r)
  then show ?thesis
    using apply_ec_step [OF peer_write(1) assms(2)] by (simp add: zone_ok_step_def txn_step_def)
qed

lemma zone_run_ok:
  assumes "(zone_step C)\<^sup>*\<^sup>* sm sm'" and "control_ok (control_of (sm_tables sm))"
  shows "evolves (control_of (sm_tables sm)) (control_of (sm_tables sm'))"
  using assms(1)
proof induction
  case base
  show ?case using assms(2) by (rule evolves_refl)
next
  case (step sm1 sm2)
  then show ?case
    using zone_step_ok [OF step(2)] evolvesD(1) [OF step(3)] evolves_trans by (auto simp: zone_ok_step_def)
qed

lemma reachable_control_ok:
  assumes "(zone_step C)\<^sup>*\<^sup>* fresh_machine sm"
  shows "control_ok (control_of (sm_tables sm))"
proof -
  have "control_ok (control_of (sm_tables fresh_machine))"
    by (simp add: fresh_machine_def no_tables_def)
  then show ?thesis
    using zone_run_ok [OF assms] evolvesD(1) by blast
qed

text \<open>A tracked path keeps its image, or has a revision allocated since.\<close>

lemma tracked_run:
  assumes "(zone_step C)\<^sup>*\<^sup>* sm sm'" and "control_ok (control_of (sm_tables sm))"
    and "tracked k (sm_tables sm)" and "k \<noteq> KEY_LAST_APPLIED"
  shows "image_kept k (sm_tables sm) (sm_tables sm') \<or>
    fresher (control_of (sm_tables sm)) k (control_of (sm_tables sm'))"
  using assms(1)
proof induction
  case base
  show ?case by simp
next
  case (step sm1 sm2)
  let ?t = "sm_tables sm" and ?t1 = "sm_tables sm1" and ?t2 = "sm_tables sm2"
  have ev: "evolves (control_of ?t) (control_of ?t1)"
    using zone_run_ok [OF step(1) assms(2)] .
  have le: "alloc_counter (control_of ?t) \<le> alloc_counter (control_of ?t1)"
    using ev by (rule evolvesD)
  have z: "zone_ok_step ?t1 ?t2"
    using zone_step_ok [OF step(2) evolvesD(1) [OF ev]] .
  then have ev2: "evolves (control_of ?t1) (control_of ?t2)"
    by (simp add: zone_ok_step_def)
  show ?case
  proof (cases "fresher (control_of ?t) k (control_of ?t1)")
    case True
    then show ?thesis using fresher_keep [OF _ ev2 le] by blast
  next
    case False
    then have kept: "image_kept k ?t ?t1" using step(3) by blast
    then have "tracked k ?t1"
      using assms(3) evolvesD(4) [OF ev, of k] by (auto simp: tracked_def image_kept_def control_defs)
    then have "metadata_in_txn k ?t2 = metadata_in_txn k ?t1 \<or> fresher (control_of ?t1) k (control_of ?t2)"
      using z assms(4) by (auto simp: zone_ok_step_def)
    then show ?thesis
      using evolvesD(3) [OF ev2, of k] kept fresher_mono [OF le]
      by (auto simp: image_kept_def control_defs)
  qed
qed

lemma versioned_tracked:
  assumes "get_versioned_metadata k t = Inr \<lparr>vm_value = Some v, vm_version = Some tok\<rparr>"
  shows "tracked k t" "metadata_in_txn k t = Some v" "revision_in_txn k t = Some tok"
  using assms
  by (auto simp: get_versioned_metadata_def tracked_def versioned_image_def is_protected_metadata_def
      decode_policy_def require_managed_key_def control_defs split: if_split_asm option.split_asm sum.split_asm)

text \<open>A sequence of committed commands, applied from an index on.\<close>

fun commit_all :: "MetadataCodec \<Rightarrow> nat \<Rightarrow> Command list \<Rightarrow> FullStateMachine \<Rightarrow> FullStateMachine option" where
  "commit_all C i [] sm = Some sm"
| "commit_all C i (c # cs) sm =
     (case apply_command C i c sm of
        None \<Rightarrow> None
      | Some (_, _, sm') \<Rightarrow> commit_all C (i + 1) cs sm')"

lemma commit_all_append:
  "commit_all C i (cs @ ds) sm =
     (case commit_all C i cs sm of None \<Rightarrow> None | Some sm' \<Rightarrow> commit_all C (i + length cs) ds sm')"
  by (induction cs arbitrary: i sm) (auto split: option.split)

lemma commit_all_run:
  assumes "commit_all C i cs sm = Some sm'" and "list_all command_text cs"
  shows "(zone_step C)\<^sup>*\<^sup>* sm sm'"
  using assms
proof (induction cs arbitrary: i sm)
  case (Cons c cs)
  then obtain r e sm1 where "apply_command C i c sm = Some (r, e, sm1)" "commit_all C (i + 1) cs sm1 = Some sm'"
    by (auto split: option.splits)
  then show ?case
    using Cons zone_step.committed by (metis (no_types, lifting) converse_rtranclp_into_rtranclp list.pred_inject(2))
qed simp

lemma commit_all_split:
  assumes "commit_all C i (cs @ ds) sm \<noteq> None" and "i + length cs = j"
  obtains sm1 sm2 where "commit_all C i cs sm = Some sm1" "commit_all C j ds sm1 = Some sm2"
    "commit_all C i (cs @ ds) sm = Some sm2"
  using assms unfolding commit_all_append by (auto split: option.splits)

section \<open>Properties\<close>

text \<open>
  C6.  A content revision names one image for ever: whatever commands commit and
  whatever eventually consistent writes arrive in between, a reader that finds
  the revision it saw before finds the value it saw before.
\<close>

theorem revision_identifies_image:
  assumes "(zone_step C)\<^sup>*\<^sup>* fresh_machine sm" and "(zone_step C)\<^sup>*\<^sup>* sm sm'" and "k \<noteq> KEY_LAST_APPLIED"
    and "get_versioned_metadata k (sm_tables sm) = Inr \<lparr>vm_value = Some v, vm_version = Some tok\<rparr>"
    and "get_versioned_metadata k (sm_tables sm') = Inr \<lparr>vm_value = Some v', vm_version = Some tok\<rparr>"
  shows "v' = v"
proof -
  note before = versioned_tracked [OF assms(4)] and after = versioned_tracked [OF assms(5)]
  have ok: "control_ok (control_of (sm_tables sm))"
    using reachable_control_ok [OF assms(1)] .
  have "token_counter tok \<le> alloc_counter (control_of (sm_tables sm))"
    using control_okD(3) [OF ok, of k tok] before(3) by (auto simp: control_defs alloc_counter_def)
  then have "\<not> fresher (control_of (sm_tables sm)) k (control_of (sm_tables sm'))"
    using after(3) by (auto simp: fresher_def control_defs)
  then have "image_kept k (sm_tables sm) (sm_tables sm')"
    using tracked_run [OF assms(2) ok before(1) assms(3)] by blast
  then show ?thesis
    using before(2) after(2) by (simp add: image_kept_def)
qed

definition no_codec :: MetadataCodec where
  "no_codec = \<lparr>mc_decode = (\<lambda>_. None), mc_encode = (\<lambda>_. []), mc_parse_time = (\<lambda>_. None)\<rparr>"

definition managed_example :: string where
  "managed_example = ''/__managed_content_v1__/a''"

definition versioned_run :: "Command list" where
  "versioned_run =
     [WriteVersionedMetadata managed_example [1] None 7,
      WriteVersionedMetadata ''/__managed_content_v1__/b'' [2] None 7,
      WriteVersionedMetadata managed_example [3] None 7]"

theorem revision_identifies_image_witness:
  "\<exists>sm sm' v tok.
     commit_all no_codec 1 (take 1 versioned_run) fresh_machine = Some sm \<and>
     commit_all no_codec 1 versioned_run fresh_machine = Some sm' \<and>
     get_versioned_metadata managed_example (sm_tables sm) = Inr \<lparr>vm_value = Some v, vm_version = Some tok\<rparr> \<and>
     get_versioned_metadata managed_example (sm_tables sm') = Inr \<lparr>vm_value = Some v, vm_version = Some tok\<rparr>"
proof -
  have "case commit_all no_codec 1 (take 1 versioned_run) fresh_machine of
      None \<Rightarrow> False
    | Some sm \<Rightarrow>
        get_versioned_metadata managed_example (sm_tables sm) =
          Inr \<lparr>vm_value = Some [1], vm_version = Some (be_bytes 16 7 @ be_bytes 8 1)\<rparr> \<and>
        (case commit_all no_codec 2 (drop 1 versioned_run) sm of
           None \<Rightarrow> False
         | Some sm' \<Rightarrow>
             get_versioned_metadata managed_example (sm_tables sm') =
               Inr \<lparr>vm_value = Some [1], vm_version = Some (be_bytes 16 7 @ be_bytes 8 1)\<rparr>)"
    by code_simp
  then obtain sm sm' v tok where sm: "commit_all no_codec 1 (take 1 versioned_run) fresh_machine = Some sm"
    and sm': "commit_all no_codec 2 (drop 1 versioned_run) sm = Some sm'"
    and img: "get_versioned_metadata managed_example (sm_tables sm) = Inr \<lparr>vm_value = Some v, vm_version = Some tok\<rparr>"
      "get_versioned_metadata managed_example (sm_tables sm') = Inr \<lparr>vm_value = Some [1], vm_version = Some tok\<rparr>"
    by (auto split: option.split_asm)
  have "commit_all no_codec 1 (take 1 versioned_run @ drop 1 versioned_run) fresh_machine = Some sm'"
    unfolding commit_all_append sm using sm' by (simp add: versioned_run_def numeral_2_eq_2)
  moreover have "list_all command_text (take 1 versioned_run)" "list_all command_text (drop 1 versioned_run)"
    "managed_example \<noteq> KEY_LAST_APPLIED"
    by code_simp+
  ultimately show ?thesis
    using revision_identifies_image [OF commit_all_run [OF sm] commit_all_run [OF sm'] _ img] sm img by auto
qed

text \<open>
  C7.  Retirement is final: once the owner of a record is retired, no committed
  command and no eventually consistent write changes the image or the revision
  of the record or of the owner, the entries of its stream still in the table,
  or the cursors of that stream.
\<close>

theorem retired_owner_freezes_record:
  assumes "(zone_step C)\<^sup>*\<^sup>* fresh_machine sm" and "(zone_step C)\<^sup>*\<^sup>* sm sm'"
    and "frozen p (sm_tables sm)" and "p \<noteq> KEY_LAST_APPLIED" and "p \<noteq> []"
  shows "image_kept p (sm_tables sm) (sm_tables sm') \<and>
    (\<forall>k. live_row p k \<longrightarrow> map_of (tb_streams (sm_tables sm')) k = map_of (tb_streams (sm_tables sm)) k)"
  using assms(2)
proof induction
  case base
  show ?case by simp
next
  case (step sm1 sm2)
  have ok: "control_ok (control_of (sm_tables sm))"
    using reachable_control_ok [OF assms(1)] .
  have ev: "evolves (control_of (sm_tables sm)) (control_of (sm_tables sm1))"
    using zone_run_ok [OF step(1) ok] .
  have "zone_ok_step (sm_tables sm1) (sm_tables sm2)"
    using zone_step_ok [OF step(2) evolvesD(1) [OF ev]] .
  moreover have "frozen p (sm_tables sm1)"
    using frozen_evolves [OF ev assms(3)] .
  ultimately show ?case
    using step(3) assms(4,5) by (auto simp: zone_ok_step_def image_kept_def)
qed

definition owner_run :: "Command list" where
  "owner_run =
     [SetMetadata ''/o'' [1], AdoptProtectedMetadata ''/o'' (Some [1]) 7,
      BindRecordGuard ''/r'' None ''/o'' (be_bytes 16 7 @ be_bytes 8 1) 7,
      GuardedRecord (be_bytes 16 7 @ be_bytes 8 1) (GuardedAppend (wal_stream_prefix ''/r'') [5]),
      RetireRecordGuard ''/o'' (be_bytes 16 7 @ be_bytes 8 1) [2] 7]"

definition late_writes :: "Command list" where
  "late_writes =
     [GuardedRecord (be_bytes 16 7 @ be_bytes 8 1) (GuardedAppend (wal_stream_prefix ''/r'') [6]),
      AppendStreamEntry (wal_stream_prefix ''/r'') [7], SetMetadata ''/r'' [8]]"

theorem retired_owner_freezes_record_witness:
  "\<exists>sm sm'. commit_all no_codec 1 owner_run fresh_machine = Some sm \<and>
     commit_all no_codec 6 late_writes sm = Some sm' \<and> stream_tail (wal_stream_prefix ''/r'') (tb_streams (sm_tables sm)) = 1 \<and>
     image_kept ''/r'' (sm_tables sm) (sm_tables sm') \<and>
     (\<forall>k. live_row ''/r'' k \<longrightarrow> map_of (tb_streams (sm_tables sm')) k = map_of (tb_streams (sm_tables sm)) k)"
proof -
  have "case commit_all no_codec 1 owner_run fresh_machine of
      None \<Rightarrow> False
    | Some sm \<Rightarrow>
        record_control_in_txn BINDING_PREFIX ''/r'' (sm_tables sm) = Some (string_bytes ''/o'') \<and>
        record_control_in_txn RETIRED_PREFIX ''/o'' (sm_tables sm) \<noteq> None \<and>
        stream_tail (wal_stream_prefix ''/r'') (tb_streams (sm_tables sm)) = 1 \<and>
        commit_all no_codec 6 late_writes sm \<noteq> None"
    by code_simp
  then obtain sm sm' where sm: "commit_all no_codec 1 owner_run fresh_machine = Some sm"
    and sm': "commit_all no_codec 6 late_writes sm = Some sm'"
    and owner: "record_control_in_txn BINDING_PREFIX ''/r'' (sm_tables sm) = Some (string_bytes ''/o'')"
      "record_control_in_txn RETIRED_PREFIX ''/o'' (sm_tables sm) \<noteq> None"
      "stream_tail (wal_stream_prefix ''/r'') (tb_streams (sm_tables sm)) = 1"
    by (auto split: option.split_asm)
  have "utf8_string ''/o''" by code_simp
  then have "frozen ''/r'' (sm_tables sm)"
    using owner unfolding frozen_def by blast
  moreover have "list_all command_text owner_run" "list_all command_text late_writes" "''/r'' \<noteq> KEY_LAST_APPLIED"
    by code_simp+
  ultimately show ?thesis
    using retired_owner_freezes_record [OF commit_all_run [OF sm] commit_all_run [OF sm']] sm sm' owner(3) by blast
qed

end
