(* ===== verification/Machine_Types.thy ===== *)
theory Machine_Types
  imports Record_Safety
begin

text \<open>
  The type invariant of the three trees of a zone and what follows from it.
  Every tree is in key order and every key is UTF-8 text; with the type of the
  control store this is kept by every transaction, and it is enough for a
  committed command to be applied without a storage error.
\<close>

section \<open>Keys are text\<close>

named_theorems utf8_intros "strings that are UTF-8 text"

lemma utf8_append [utf8_intros]: "utf8_string a \<Longrightarrow> utf8_string b \<Longrightarrow> utf8_string (a @ b)"
  by (simp add: utf8_string_append)

declare utf8_digits [utf8_intros]

lemma utf8_from_drop_ascii: "utf8_from rs (a @ [c]) \<Longrightarrow> c < 128 \<Longrightarrow> (\<forall>r \<in> set rs. 128 \<le> fst r) \<Longrightarrow> utf8_from rs a"
proof (induction a arbitrary: rs)
  case Nil
  then show ?case by (cases rs) auto
next
  case (Cons b a)
  show ?case
  proof (cases rs)
    case rs: Nil
    then obtain rs' where "utf8_lead b = Some rs'" "utf8_from rs' (a @ [c])"
      using Cons.prems(1) by (auto split: option.splits)
    moreover from this(1) have "\<forall>r \<in> set rs'. 128 \<le> fst r"
      by (auto simp: utf8_lead_def Let_def split: if_split_asm)
    ultimately show ?thesis
      using rs Cons.IH Cons.prems(2) by auto
  next
    case (Cons r rs')
    then show ?thesis
      using Cons.prems Cons.IH by auto
  qed
qed

lemma utf8_drop_ascii: "utf8_string (a @ [c]) \<Longrightarrow> of_char c < (128 :: nat) \<Longrightarrow> utf8_string a"
  unfolding utf8_string_def using utf8_from_drop_ascii [of "[]" "map of_char a" "of_char c"] by simp

lemma utf8_trim_end [utf8_intros]: "utf8_string s \<Longrightarrow> utf8_string (trim_end_matches (CHR ''/'') s)"
proof (induction s rule: rev_induct)
  case (snoc c s)
  then show ?case
    using utf8_drop_ascii [of s c] by (auto simp: trim_end_matches_def)
qed (simp add: trim_end_matches_def)

lemma utf8_literals [utf8_intros]:
  "utf8_string []" "utf8_string ''/''" "utf8_string [CHR 0x00]" "utf8_string NAMESPACE" "utf8_string PATH_PREFIX"
  "utf8_string POLICY_PREFIX" "utf8_string BINDING_PREFIX" "utf8_string RETIRED_PREFIX" "utf8_string ALLOCATOR"
  "utf8_string REQUIREMENT" "utf8_string KEY_LAST_APPLIED" "utf8_string ''__stream_tail__''"
  "utf8_string ''__stream_floor__''" "utf8_string ''__stream_earliest__''" "utf8_string ''__stream_seg__''"
  by code_simp+

lemma utf8_control_keys [utf8_intros]:
  "utf8_string ns \<Longrightarrow> utf8_string k \<Longrightarrow> utf8_string (control_key ns k)"
  "utf8_string k \<Longrightarrow> utf8_string (revision_key k)" "utf8_string k \<Longrightarrow> utf8_string (policy_key k)"
  "utf8_string k \<Longrightarrow> utf8_string (record_control_key BINDING_PREFIX k)"
  "utf8_string k \<Longrightarrow> utf8_string (record_control_key RETIRED_PREFIX k)"
  "utf8_string allocator_key" "utf8_string requirement_key"
  unfolding revision_key_def policy_key_def record_control_key_def allocator_key_def requirement_key_def
    control_key_def
  by (simp_all only: utf8_string_append utf8_literals)

lemma utf8_stream_keys [utf8_intros]:
  "utf8_string p \<Longrightarrow> utf8_string (stream_tail_key p)" "utf8_string p \<Longrightarrow> utf8_string (stream_floor_key p)"
  "utf8_string p \<Longrightarrow> utf8_string (stream_earliest_key p)" "utf8_string p \<Longrightarrow> utf8_string (stream_segment_key p n)"
  "utf8_string p \<Longrightarrow> utf8_string (stream_entry_key p n)"
  unfolding stream_key_defs
  by (simp_all only: utf8_string_append utf8_literals utf8_digits pad20_digits dec_digits_digits append_assoc)

section \<open>Typed tables\<close>

definition rows_ok :: "(string, bytes) omap \<Rightarrow> bool" where
  "rows_ok m \<longleftrightarrow> om_wf m \<and> (\<forall>e \<in> set m. utf8_string (fst e))"

lemma rows_ok_put: "rows_ok m \<Longrightarrow> utf8_string k \<Longrightarrow> rows_ok (om_put k v m)"
  using set_om_put_sub [of k v m] by (auto simp: rows_ok_def)

lemma rows_ok_del: "rows_ok m \<Longrightarrow> rows_ok (om_del k m)"
  by (auto simp: rows_ok_def om_set_del)

lemma rows_ok_dels: "rows_ok m \<Longrightarrow> rows_ok (fold om_del ks m)"
  by (auto simp: rows_ok_def om_dels_set om_dels_wf)

lemma rows_ok_Nil [simp]: "rows_ok []"
  by (simp add: rows_ok_def)

definition typed :: "Tables \<Rightarrow> bool" where
  "typed t \<longleftrightarrow> rows_ok (tb_metadata t) \<and> rows_ok (tb_streams t) \<and> rows_ok (tb_control t)"

lemma typed_puts:
  "typed t \<Longrightarrow> utf8_string k \<Longrightarrow> typed (put_control k v t)"
  "typed t \<Longrightarrow> utf8_string k \<Longrightarrow> typed (put_metadata k v t)"
  "typed t \<Longrightarrow> typed (del_metadata k t)"
  "typed t \<Longrightarrow> typed (t\<lparr>tb_control := om_del k (tb_control t)\<rparr>)"
  by (simp_all add: typed_def put_control_def put_metadata_def del_metadata_def rows_ok_put rows_ok_del)

lemma typed_streams:
  assumes "typed t" and "utf8_string p"
  shows "typed (snd (on_streams (apply_append p d) t))"
    "typed (snd (on_streams (apply_seal p base endv cid origin sz) t))"
    "typed (snd (on_streams (apply_trim p n) t))"
  using assms
  by (simp_all add: typed_def on_streams_def case_prod_beta apply_append_def apply_seal_def apply_trim_def Let_def
      rows_ok_put rows_ok_dels utf8_intros)

lemma allocate_typed:
  "allocate_revision k i t = Some (tok, t') \<Longrightarrow> typed t \<Longrightarrow> utf8_string k \<Longrightarrow> typed t'"
  by (auto simp: allocate_revision_def bind_eq_Some_conv Let_def split: if_split_asm
      intro!: typed_puts utf8_intros)

lemma refresh_typed:
  "refresh_tracked_version k t = Some (b, t') \<Longrightarrow> typed t \<Longrightarrow> utf8_string k \<Longrightarrow> typed t'"
  by (auto simp: refresh_tracked_version_def bind_eq_Some_conv case_eqs split: if_split_asm intro: allocate_typed)

lemma require_format_typed:
  "require_record_format_in_txn b t = Some t' \<Longrightarrow> typed t \<Longrightarrow> typed t'"
  by (auto simp: require_record_format_in_txn_def Let_def bind_eq_Some_conv intro!: typed_puts utf8_intros)

lemma mark_owner_typed: "typed t \<Longrightarrow> utf8_string k \<Longrightarrow> typed (mark_record_owner_in_txn k t)"
  by (auto simp: mark_record_owner_in_txn_def intro!: typed_puts utf8_intros)

lemma write_versioned_typed:
  "write_versioned_in_txn k v e i t = Some (r, t') \<Longrightarrow> typed t \<Longrightarrow> utf8_string k \<Longrightarrow> typed t'"
  by (erule write_versionedD) (auto intro: typed_puts allocate_typed)

lemma adopt_typed:
  assumes "adopt_protected_in_txn k e i t = Some (r, t')" and "typed t" and "utf8_string k"
  shows "typed t'"
proof -
  consider "t' = t"
    | t1 where "t1 = t \<or> (\<exists>tok. allocate_revision k (Some i) t = Some (tok, t1))"
      "require_record_format_in_txn False (put_control (policy_key k) CONDITIONAL_ONLY t1) = Some t'"
    using assms(1) by (auto simp: adopt_protected_in_txn_def Let_def bind_eq_Some_conv split: if_split_asm)
  then show ?thesis
  proof cases
    case 2
    have "typed t1"
      using 2(1) allocate_typed assms(2,3) by blast
    then show ?thesis
      using require_format_typed [OF 2(2)] assms(3) by (simp add: typed_puts utf8_intros)
  qed (use assms(2) in simp)
qed

lemma bind_cases:
  assumes "bind_record_guard_in_txn k e g gv i t = Some (r, t')"
  obtains (kept) "t' = t"
  | (bound) t1 t2 r1 where "adopt_protected_in_txn k e i t = Some (r1, t1)"
      "require_record_format_in_txn True (mark_record_owner_in_txn g t1) = Some t2"
      "t' = put_control (record_control_key BINDING_PREFIX k) (string_bytes g) t2"
  using assms
  by (auto simp: bind_record_guard_in_txn_def bind_eq_Some_conv put_record_control_in_txn_def case_eqs
      split: if_split_asm)

lemma bind_typed:
  assumes "bind_record_guard_in_txn k e g gv i t = Some (r, t')" and "typed t" and "utf8_string k" and "utf8_string g"
  shows "typed t'"
  using assms(1)
proof (cases rule: bind_cases)
  case (bound t1 t2 r1)
  have "typed t2"
    using require_format_typed [OF bound(2)] mark_owner_typed adopt_typed [OF bound(1)] assms(2-4) by blast
  then show ?thesis
    using assms(3) by (simp add: bound(3) typed_puts utf8_intros)
qed (use assms(2) in simp)

lemma retire_cases:
  assumes "retire_record_guard_in_txn k e img i t = Some (r, t')"
  obtains (kept) "t' = t"
  | (retired) t1 t2 ver r1 where "write_versioned_in_txn k img (Some e) i t = Some (r1, t1)"
      "require_record_format_in_txn True (mark_record_owner_in_txn k t1) = Some t2"
      "t' = put_control (record_control_key RETIRED_PREFIX k) ver t2"
  using assms
  by (auto simp: retire_record_guard_in_txn_def bind_eq_Some_conv committed_case control_defs case_eqs
      split: if_split_asm)

lemma retire_typed:
  assumes "retire_record_guard_in_txn k e img i t = Some (r, t')" and "typed t" and "utf8_string k"
  shows "typed t'"
  using assms(1)
proof (cases rule: retire_cases)
  case (retired t1 t2 ver r1)
  have "typed t2"
    using require_format_typed [OF retired(2)] mark_owner_typed write_versioned_typed [OF retired(1)] assms(2,3) by blast
  then show ?thesis
    using assms(3) by (simp add: retired(3) typed_puts utf8_intros)
qed (use assms(2) in simp)

lemma admit_typed:
  assumes "admit_record_io_in_txn k e t = Some (r, t')" and "typed t" and "utf8_string k"
  shows "typed t'"
proof -
  consider "t' = t"
    | t1 where "require_record_format_in_txn True t = Some t1"
      "t' = put_control requirement_key RECORD_IO (put_control (policy_key k) RECORD_IO_OWNER t1)"
    using assms(1)
    by (auto simp: admit_record_io_in_txn_def mark_record_io_owner_in_txn_def bind_eq_Some_conv case_eqs
        split: if_split_asm)
  then show ?thesis
  proof cases
    case 2
    then show ?thesis
      using require_format_typed [OF 2(1)] assms(2,3) by (simp add: typed_puts utf8_intros)
  qed (use assms(2) in simp)
qed

subsection \<open>Rename\<close>

lemma metadata_rename_rowsD:
  assumes "metadata_rename_rows key pre t = Some rows" and "e \<in> set rows"
  shows "fst e = key \<or> starts_with (fst e) pre \<and> fst e \<in> fst ` set (tb_metadata t)"
  using assms
  by (auto simp: metadata_rename_rows_def Let_def split: if_split_asm option.split_asm
      dest!: set_takeWhileD)

lemma rename_target_utf8:
  assumes "utf8_string new_key" and "utf8_string old_key" and "utf8_string source"
    and "source = old_key \<or> starts_with source (trim_end_matches (CHR ''/'') old_key @ ''/'')"
  shows "utf8_string (rename_target old_key new_key source)"
proof (cases "source = old_key")
  case False
  then obtain rest where rest: "source = (trim_end_matches (CHR ''/'') old_key @ ''/'') @ rest"
    using assms(4) by (auto simp: starts_with_iff)
  have pre: "utf8_string (trim_end_matches (CHR ''/'') old_key @ ''/'')"
    "utf8_string (trim_end_matches (CHR ''/'') new_key @ ''/'')"
    using assms(1,2) by (simp_all only: utf8_string_append utf8_trim_end utf8_literals)
  have "utf8_string rest"
    using assms(3) pre(1) unfolding rest by (simp only: utf8_string_append)
  moreover have "rename_target old_key new_key source = (trim_end_matches (CHR ''/'') new_key @ ''/'') @ rest"
    using False unfolding rename_target_def rest by simp
  ultimately show ?thesis
    using pre(2) by (simp only: utf8_string_append)
qed (use assms(1) in \<open>simp add: rename_target_def\<close>)

lemma rename_revisions_typed:
  "rename_revisions changes t = Some t' \<Longrightarrow> typed t \<Longrightarrow> \<forall>k \<in> rename_ends changes. utf8_string k \<Longrightarrow> typed t'"
proof (induction changes arbitrary: t)
  case (Cons change changes)
  obtain source target img where change: "change = (source, target, img)" by (cases change)
  obtain b t1 t2 where steps: "refresh_tracked_version source t = Some (b, t1)"
    "(if b \<and> is_managed_content_path target
              then map_option snd (allocate_revision target None t1)
              else map_option snd (refresh_tracked_version target t1)) = Some t2"
    "rename_revisions changes t2 = Some t'"
    using Cons.prems(1) by (auto simp: change bind_eq_Some_conv)
  have ends: "utf8_string source" "utf8_string target"
    using Cons.prems(3) by (simp_all add: change)
  have "typed t1"
    using refresh_typed [OF steps(1)] Cons.prems(2) ends by blast
  then have "typed t2"
    using steps(2) ends allocate_typed refresh_typed by (auto split: if_split_asm)
  then show ?case
    using Cons.IH [OF steps(3)] Cons.prems(3) by (simp add: change)
qed simp

lemma move_rows_ok:
  assumes "rows_ok m" and "\<forall>k \<in> rename_ends changes. utf8_string k"
  shows "rows_ok (move_rows changes m)"
proof -
  have "rows_ok (fold (\<lambda>(_, target, img). om_put target img) cs n)"
    if "rows_ok n" "\<forall>c \<in> set cs. utf8_string (fst (snd c))" for cs and n :: "(string, bytes) omap"
    using that by (induction cs arbitrary: n) (auto simp: rows_ok_put)
  moreover have "\<forall>c \<in> set changes. utf8_string (fst (snd c))"
    using assms(2) by (auto simp: rename_ends_def)
  ultimately show ?thesis
    using rows_ok_dels [OF assms(1)] unfolding move_rows_def by blast
qed

lemma rename_ends_utf8:
  assumes "metadata_rename_rows old_key (trim_end_matches (CHR ''/'') old_key @ ''/'') t = Some rows"
    and "rename_changes C old_key new_key is_pas t rows = Some (Inr changes)"
    and "control_ok (control_of t)" and "typed t" and "utf8_string old_key" and "utf8_string new_key"
    and "k \<in> rename_ends changes"
  shows "utf8_string k"
proof -
  note c = rename_changesD [OF assms(2,3)]
  have fsts: "fst ` set changes = fst ` set rows"
    "(fst \<circ> snd) ` set changes = (rename_target old_key new_key \<circ> fst) ` set rows"
    using c by (metis list.set_map)+
  have rows: "utf8_string (fst e) \<and>
      (fst e = old_key \<or> starts_with (fst e) (trim_end_matches (CHR ''/'') old_key @ ''/''))" if "e \<in> set rows" for e
    using metadata_rename_rowsD [OF assms(1) that] assms(4,5) by (auto simp: typed_def rows_ok_def)
  then show ?thesis
    using assms(7) rename_target_utf8 [OF assms(6,5)] unfolding rename_ends_def fsts by auto
qed

lemma rename_metadata_typed:
  assumes "rename_metadata_in_txn C a b is_pas t = Some (r, t')" and "control_ok (control_of t)" and "typed t"
    and "utf8_string a" and "utf8_string b"
  shows "typed t'"
  using assms(1)
proof (cases rule: rename_metadata_cases)
  case (moved rows changes t1)
  have ends: "\<forall>k \<in> rename_ends changes. utf8_string k"
    using rename_ends_utf8 [OF moved(1,2) assms(2-5)] by blast
  have "typed t1"
    using rename_revisions_typed [OF moved(3) assms(3) ends] .
  then show ?thesis
    using move_rows_ok [OF _ ends] by (simp add: moved(4) typed_def)
qed (use assms(3) in simp)

section \<open>Every transaction keeps the types\<close>

lemma typed_stream_results:
  assumes "typed t" and "utf8_string p"
  shows "on_streams (apply_append p d) t = (r, t') \<Longrightarrow> typed t'"
    "on_streams (apply_seal p base endv cid origin sz) t = (r, t') \<Longrightarrow> typed t'"
    "on_streams (apply_trim p n) t = (r, t') \<Longrightarrow> typed t'"
  using typed_streams(1) [OF assms, of d] typed_streams(2) [OF assms, of base endv cid origin sz]
    typed_streams(3) [OF assms, of n] by (metis snd_conv)+

lemma execute_guarded_typed:
  "execute_guarded m t = Some (r, t') \<Longrightarrow> typed t \<Longrightarrow> mutation_text m \<Longrightarrow> typed t'"
  by (cases m) (auto intro: write_versioned_typed typed_stream_results)

lemma execute_arm_typed:
  assumes "execute_arm C c t = Some (r, t')" and "typed t" and "control_ok (control_of t)" and "command_text c"
  shows "typed t'"
proof (cases c)
  case (AdjustCounter k d)
  then show ?thesis
    using assms by (auto simp: apply_adjust_counter_def Let_def typed_puts split: if_split_asm)
next
  case (PutControlState ns k v b)
  then show ?thesis
    using assms by (auto simp: put_control_state_def typed_puts utf8_intros split: if_split_asm)
next
  case (DeleteControlState ns k)
  then show ?thesis
    using assms by (auto simp: delete_control_state_def typed_def rows_ok_del split: if_split_asm)
next
  case (SetMetadata k v)
  then show ?thesis
    using assms refresh_typed typed_puts(2) by (auto simp: bind_eq_Some_conv)
next
  case (DeleteMetadata k)
  then show ?thesis
    using assms refresh_typed typed_puts(3) by (auto simp: bind_eq_Some_conv)
next
  case (CasSetMetadata k v e)
  then show ?thesis
    using assms refresh_typed typed_puts(2) by (auto simp: bind_eq_Some_conv split: if_split_asm)
next
  case (AppendStreamEntry p d)
  then show ?thesis
    using assms by (auto intro: typed_stream_results)
next
  case (SealStreamSegment p base endv cid origin sz)
  then show ?thesis
    using assms by (auto intro: typed_stream_results)
next
  case (TrimStreamSegment p n tr)
  then show ?thesis
    using assms by (auto intro: typed_stream_results)
next
  case (WriteVersionedMetadata k v e i)
  then show ?thesis using assms write_versioned_typed by auto
next
  case (AdoptProtectedMetadata k e i)
  then show ?thesis using assms adopt_typed by auto
next
  case (RenameMetadata a b is_pas)
  then show ?thesis using assms rename_metadata_typed by auto
next
  case (BindRecordGuard k e g gv i)
  then show ?thesis using assms bind_typed by auto
next
  case (GuardedRecord gv m)
  then show ?thesis using assms execute_guarded_typed by auto
next
  case (RetireRecordGuard k e v i)
  then show ?thesis using assms retire_typed by auto
next
  case (AdmitRecordIoOwner k e)
  then show ?thesis using assms admit_typed by auto
qed (use assms in auto)

lemma execute_typed:
  assumes "execute_metadata_in_txn C c t = Some (r, t')" and "typed t" and "control_ok (control_of t)"
    and "command_text c"
  shows "typed t'"
  using execute_cases [OF assms(1,3)] execute_arm_typed [OF _ assms(2-4)] assms(2) by metis

lemma zone_step_typed:
  assumes "zone_step C sm sm'" and "control_ok (control_of (sm_tables sm))" and "typed (sm_tables sm)"
  shows "typed (sm_tables sm')"
  using assms(1)
proof cases
  case (committed index c r e)
  have "sm_tables sm' = sm_tables sm \<or>
      (\<exists>t1. execute_metadata_in_txn C c (sm_tables sm) = Some (r, t1) \<and>
        sm_tables sm' = put_metadata KEY_LAST_APPLIED (be_bytes 8 index) t1)"
    using committed(1) by (auto simp: apply_command_def bind_eq_Some_conv case_prod_beta split: if_split_asm)
  then show ?thesis
    using execute_typed [OF _ assms(3,2) committed(2)] assms(3) typed_puts(2) utf8_literals by auto
next
  case (local_write c r)
  then obtain t' where run: "execute_local c (sm_tables sm) = Some (Inr (r, t'))" and t': "sm_tables sm' = t'"
    by (auto simp: apply_local_def bind_eq_Some_conv case_eqs split: bool.split_asm)
  have "typed t'"
    using run local_write(2) assms(3)
    by (cases c) (auto simp: apply_set_metadata_def apply_delete_metadata_def apply_cas_set_metadata_def
        put_control_state_def delete_control_state_def bind_eq_Some_conv typed_puts utf8_intros
        split: if_split_asm)
  then show ?thesis by (simp add: t')
next
  case (peer_write c ts r)
  then consider "sm_tables sm' = sm_tables sm"
    | t' where "lww_write C c ts (sm_tables sm) = Inr (r, t')" "sm_tables sm' = t'"
    by (auto simp: apply_ec_with_lww_def case_eqs split: bool.split_asm)
  then show ?thesis
  proof cases
    case 2
    have "typed t'"
      using 2(1) peer_write(2) assms(3)
      by (cases c) (auto simp: apply_set_metadata_def apply_delete_metadata_def typed_puts
          split: if_split_asm option.split_asm)
    then show ?thesis by (simp add: 2(2))
  qed (simp add: assms(3))
qed

lemma reachable_typed:
  assumes "(zone_step C)\<^sup>*\<^sup>* fresh_machine sm"
  shows "typed (sm_tables sm)"
  using assms
proof induction
  case base
  show ?case by (simp add: fresh_machine_def no_tables_def typed_def)
next
  case (step sm1 sm2)
  then show ?case using zone_step_typed reachable_control_ok by blast
qed

section \<open>No storage error\<close>

lemma allocate_total:
  assumes "control_ok (control_of t)" and "i \<noteq> None \<or> control_of t allocator_key \<noteq> None"
    and "alloc_counter (control_of t) + 1 < 2 ^ 64"
  obtains tok t' where "allocate_revision k i t = Some (tok, t')"
proof (cases "control_of t allocator_key")
  case None
  then obtain inc where "i = Some inc" using assms(2) by auto
  then show thesis
    using None that by (simp add: allocate_revision_def Let_def)
next
  case (Some a)
  then show thesis
    using that assms(3) control_okD(1) [OF assms(1) Some]
    by (simp add: allocate_revision_def Let_def alloc_counter_def token_counter_def)
qed

lemma allocate_counter:
  assumes "allocate_revision k i t = Some (tok, t')" and "control_ok (control_of t)"
  shows "alloc_counter (control_of t') = alloc_counter (control_of t) + 1"
  using allocate_revisionD(1,3) [OF assms] by (simp add: alloc_counter_def control_keys)

lemma refresh_total:
  assumes "control_ok (control_of t)" and "alloc_counter (control_of t) + 1 < 2 ^ 64"
  obtains b t' where "refresh_tracked_version k t = Some (b, t')"
    "alloc_counter (control_of t') \<le> alloc_counter (control_of t) + 1"
    "b \<Longrightarrow> control_of t' allocator_key \<noteq> None"
proof (cases "is_managed_content_path k \<and> revision_in_txn k t \<noteq> None")
  case True
  then have "control_of t allocator_key \<noteq> None"
    using control_okD(3) [OF assms(1), of k] by (auto simp: control_defs)
  then obtain tok t' where a: "allocate_revision k None t = Some (tok, t')"
    using allocate_total [OF assms(1) _ assms(2)] by metis
  then have "refresh_tracked_version k t = Some (True, t')"
    using True by (auto simp: refresh_tracked_version_def)
  moreover have "control_of t' allocator_key \<noteq> None"
    using allocate_revisionD(1) [OF a assms(1)] by simp
  ultimately show thesis
    using that [of True t'] allocate_counter [OF a assms(1)] by simp
next
  case False
  then have "refresh_tracked_version k t = Some (False, t)"
    by (auto simp: refresh_tracked_version_def)
  then show thesis using that [of False t] by simp
qed

lemma require_format_total:
  "control_ok (control_of t) \<Longrightarrow> require_record_format_in_txn b t \<noteq> None"
  using control_okD(5) [of "control_of t"]
  by (cases "control_of t requirement_key")
    (auto simp: require_record_format_in_txn_def Let_def decode_requirement_def ok_value_def requirements_def)

lemma write_versioned_total:
  assumes "control_ok (control_of t)" and "alloc_counter (control_of t) + 1 < 2 ^ 64"
  shows "write_versioned_in_txn k v e i t \<noteq> None"
proof -
  obtain tok t' where "allocate_revision k (Some i) t = Some (tok, t')"
    using allocate_total [OF assms(1) _ assms(2)] by blast
  moreover have "length x = TOKEN_LEN" if "revision_in_txn k t = Some x" for x
    using that control_okD(2) [OF assms(1)] by (simp add: control_defs)
  ultimately show ?thesis
    using protected_in_txn_ok [OF assms(1), of k]
    by (auto simp: write_versioned_in_txn_def versioned_image_def ok_value_def split: option.split)
qed

lemma adopt_total:
  assumes "control_ok (control_of t)" and "alloc_counter (control_of t) + 1 < 2 ^ 64"
  shows "adopt_protected_in_txn k e i t \<noteq> None"
proof -
  obtain tok t1 where a: "allocate_revision k (Some i) t = Some (tok, t1)"
    using allocate_total [OF assms(1) _ assms(2)] by blast
  have "control_ok (control_of (put_control (policy_key k) CONDITIONAL_ONLY u))" if "control_ok (control_of u)" for u
    using control_ok_policy [OF that] by (simp add: policies_def)
  then obtain u u1 where "require_record_format_in_txn False (put_control (policy_key k) CONDITIONAL_ONLY t) = Some u"
    "require_record_format_in_txn False (put_control (policy_key k) CONDITIONAL_ONLY t1) = Some u1"
    using assms(1) evolvesD(1) [OF allocate_revision_evolves(1) [OF a assms(1)]] require_format_total
    by (metis not_None_eq)
  then show ?thesis
    using protected_in_txn_ok [OF assms(1), of k] a by (auto simp: adopt_protected_in_txn_def Let_def)
qed

lemma mark_require_total:
  assumes "control_ok (control_of t)"
  shows "require_record_format_in_txn b (mark_record_owner_in_txn g t) \<noteq> None"
proof -
  obtain v where "v \<in> policies" "mark_record_owner_in_txn g t = put_control (policy_key g) v t"
    using mark_record_ownerD by blast
  then show ?thesis
    using control_ok_policy [OF assms] require_format_total by simp
qed

lemma bind_total:
  assumes "control_ok (control_of t)" and "alloc_counter (control_of t) + 1 < 2 ^ 64"
  shows "bind_record_guard_in_txn k e g gv i t \<noteq> None"
proof -
  obtain r1 t1 where a: "adopt_protected_in_txn k e i t = Some (r1, t1)"
    using adopt_total [OF assms] by fast
  then obtain t2 where "require_record_format_in_txn True (mark_record_owner_in_txn g t1) = Some t2"
    using mark_require_total evolvesD(1) [OF adopt_protectedD(1) [OF a assms(1)]] by blast
  then show ?thesis
    using a live_record_guard_ok [OF assms(1), of g gv]
    by (auto simp: bind_record_guard_in_txn_def split: option.split sum.split)
qed

lemma retire_total:
  assumes "control_ok (control_of t)" and "alloc_counter (control_of t) + 1 < 2 ^ 64"
  shows "retire_record_guard_in_txn k e img i t \<noteq> None"
proof (cases "record_control_in_txn BINDING_PREFIX k t = None \<and> live_record_guard_in_txn k e t = Some True")
  case True
  then have live: "protected_in_txn k t = Some True" "metadata_in_txn k t \<noteq> None" "revision_in_txn k t = Some e"
    using live_record_guard_ok [OF assms(1), of k e] protected_in_txn_ok [OF assms(1), of k] by auto
  have len: "length e = TOKEN_LEN"
    using live(3) control_okD(2) [OF assms(1)] by (simp add: control_defs)
  obtain tok t1 where a: "allocate_revision k (Some i) t = Some (tok, t1)"
    using allocate_total [OF assms(1) _ assms(2)] by blast
  have w: "write_versioned_in_txn k img (Some e) i t =
      Some (ConditionalMetadata True \<lparr>vm_value = Some img, vm_version = Some tok\<rparr>, put_metadata k img t1)"
    using live len a by (auto simp: write_versioned_in_txn_def versioned_image_def ok_value_def)
  have "control_ok (control_of (put_metadata k img t1))"
    using evolvesD(1) [OF allocate_revision_evolves(1) [OF a assms(1)]] by simp
  then obtain t2 where "require_record_format_in_txn True (mark_record_owner_in_txn k (put_metadata k img t1)) = Some t2"
    using mark_require_total by blast
  then show ?thesis
    using True w by (auto simp: retire_record_guard_in_txn_def)
next
  case False
  then show ?thesis
    using live_record_guard_ok [OF assms(1), of k e] by (auto simp: retire_record_guard_in_txn_def)
qed

lemma admit_total:
  assumes "control_ok (control_of t)"
  shows "admit_record_io_in_txn k e t \<noteq> None"
proof -
  obtain t1 where "require_record_format_in_txn True t = Some t1"
    using require_format_total [OF assms] by blast
  then show ?thesis
    using live_record_guard_ok [OF assms, of k e]
    by (auto simp: admit_record_io_in_txn_def mark_record_io_owner_in_txn_def split: sum.split)
qed

lemma guard_refusal_total:
  assumes "control_ok (control_of t)"
  shows "record_guard_refusal c t \<noteq> None"
proof -
  have "guarded_record_refusal gv m t \<noteq> None" for gv m
    using control_okD(7) [OF assms] from_utf8_string live_record_guard_ok [OF assms]
    by (fastforce simp: guarded_record_refusal_def control_defs split: option.split)
  then show ?thesis
    by (cases c) (auto simp: record_guard_refusal_def split: option.split)
qed

lemma rename_changes_total:
  "control_ok (control_of t) \<Longrightarrow> rename_changes C a b is_pas t rows \<noteq> None"
proof (induction rows)
  case (Cons row rows)
  then obtain rest where "rename_changes C a b is_pas t rows = Some rest" by blast
  then show ?case
    using protected_in_txn_ok [OF Cons.prems]
    by (cases row) (auto simp: ordinary_metadata_refusal_def Let_def split: option.split sum.split)
qed simp

lemma rename_revisions_total:
  assumes "control_ok (control_of t)" and "alloc_counter (control_of t) + 2 * length changes < 2 ^ 64"
  shows "rename_revisions changes t \<noteq> None"
  using assms
proof (induction changes arbitrary: t)
  case (Cons change changes)
  obtain source target img where change: "change = (source, target, img)" by (cases change)
  have space: "alloc_counter (control_of t) + 1 < 2 ^ 64"
    using Cons.prems(2) by simp
  obtain b t1 where t1: "refresh_tracked_version source t = Some (b, t1)"
    "alloc_counter (control_of t1) \<le> alloc_counter (control_of t) + 1"
    "b \<Longrightarrow> control_of t1 allocator_key \<noteq> None"
    using refresh_total [OF Cons.prems(1) space] by metis
  have ok1: "control_ok (control_of t1)"
    using evolvesD(1) [OF refresh_tracked_evolves(1) [OF t1(1) Cons.prems(1)]] .
  have space1: "alloc_counter (control_of t1) + 1 < 2 ^ 64"
    using Cons.prems(2) t1(2) by simp
  have "\<exists>t2. (if b \<and> is_managed_content_path target
        then map_option snd (allocate_revision target None t1)
        else map_option snd (refresh_tracked_version target t1)) = Some t2 \<and>
      alloc_counter (control_of t2) \<le> alloc_counter (control_of t1) + 1"
  proof (cases "b \<and> is_managed_content_path target")
    case True
    then obtain tok t2 where "allocate_revision target None t1 = Some (tok, t2)"
      using allocate_total [OF ok1 _ space1] t1(3) by metis
    then show ?thesis
      using True allocate_counter [OF _ ok1] by auto
  next
    case False
    obtain c t2 where "refresh_tracked_version target t1 = Some (c, t2)"
      "alloc_counter (control_of t2) \<le> alloc_counter (control_of t1) + 1"
      using refresh_total [OF ok1 space1] by metis
    then show ?thesis using False by auto
  qed
  then obtain t2 where t2: "(if b \<and> is_managed_content_path target
        then map_option snd (allocate_revision target None t1)
        else map_option snd (refresh_tracked_version target t1)) = Some t2"
    "alloc_counter (control_of t2) \<le> alloc_counter (control_of t1) + 1" by blast
  have "rename_revisions changes t2 \<noteq> None"
    using Cons.IH evolvesD(1) [OF rename_change_step(1) [OF t1(1) t2(1) Cons.prems(1)]] t1(2) t2(2) Cons.prems(2)
    by simp
  then show ?case
    using t1(1) t2(1) by (auto simp: change)
qed simp

lemma rename_total:
  assumes "control_ok (control_of t)" and "typed t"
    and "alloc_counter (control_of t) + 2 * (length (tb_metadata t) + 1) < 2 ^ 64"
  shows "rename_metadata_in_txn C a b is_pas t \<noteq> None"
proof -
  let ?pre = "trim_end_matches (CHR ''/'') a @ ''/''"
  let ?below = "takeWhile (\<lambda>e. starts_with (fst e) ?pre) (filter (\<lambda>e. ?pre \<le> fst e) (tb_metadata t))"
  have "list_all (\<lambda>e. utf8_string (fst e)) ?below"
    using assms(2) by (auto simp: list_all_iff typed_def rows_ok_def dest!: set_takeWhileD)
  then obtain rows where rows: "metadata_rename_rows a ?pre t = Some rows"
    by (auto simp: metadata_rename_rows_def Let_def)
  have "length ?below \<le> length (tb_metadata t)"
    by (meson length_filter_le length_takeWhile_le le_trans)
  then have len: "length rows \<le> length (tb_metadata t) + 1"
    using rows by (auto simp: metadata_rename_rows_def Let_def split: if_split_asm option.split_asm)
  obtain planned where planned: "rename_changes C a b is_pas t rows = Some planned"
    using rename_changes_total [OF assms(1)] by blast
  have "rename_revisions changes t \<noteq> None" if "planned = Inr changes" for changes
  proof -
    have "length changes = length rows"
      using rename_changesD [OF planned [unfolded that] assms(1)] by (metis length_map)
    then show ?thesis
      using rename_revisions_total [OF assms(1)] len assms(3) by simp
  qed
  then show ?thesis
    using rows planned
    by (auto simp: rename_metadata_in_txn_def Let_def split: sum.split option.split)
qed

text \<open>The version scan of a compare-and-swap ends on the stored image.\<close>

definition scannable :: "Command \<Rightarrow> Tables \<Rightarrow> bool" where
  "scannable c t \<longleftrightarrow>
     (case c of CasSetMetadata k _ _ \<Rightarrow> current_version (metadata_in_txn k t) \<noteq> None | _ \<Rightarrow> True)"

lemma execute_total:
  assumes "control_ok (control_of t)" and "typed t"
    and space: "alloc_counter (control_of t) + 2 * (length (tb_metadata t) + 1) < 2 ^ 64"
    and "\<not> is_lock_command c" and "scannable c t"
  shows "execute_metadata_in_txn C c t \<noteq> None"
proof -
  have one: "alloc_counter (control_of t) + 1 < 2 ^ 64"
    using space by simp
  have refresh: "\<exists>b t'. refresh_tracked_version k t = Some (b, t')" for k
    using refresh_total [OF assms(1) one] by metis
  have guarded: "execute_guarded m t \<noteq> None" for m
    using write_versioned_total [OF assms(1) one] by (cases m) auto
  have "execute_arm C c t \<noteq> None"
  proof (cases c)
    case (SetMetadata k v)
    then show ?thesis using refresh [of k] by auto
  next
    case (DeleteMetadata k)
    then show ?thesis using refresh [of k] by auto
  next
    case (CasSetMetadata k v e)
    then obtain cur where "current_version (metadata_in_txn k t) = Some cur"
      using assms(5) by (auto simp: scannable_def)
    then show ?thesis using refresh [of k] CasSetMetadata by auto
  qed (use assms(4) guarded write_versioned_total [OF assms(1) one] adopt_total [OF assms(1) one]
      bind_total [OF assms(1) one] retire_total [OF assms(1) one] admit_total [OF assms(1)]
      rename_total [OF assms(1,2) space] in simp_all)
  then show ?thesis
    using guard_refusal_total [OF assms(1), of c] protected_in_txn_ok [OF assms(1)]
    by (auto simp: execute_metadata_in_txn_def ordinary_metadata_refusal_def split: option.split)
qed

section \<open>Counters\<close>

lemma signed_sum:
  fixes a b :: i64
  shows "sint a + sint b < 2 ^ 63 \<Longrightarrow> - (2 ^ 63) \<le> sint a + sint b \<Longrightarrow> sint (a + b) = sint a + sint b"
    and "2 ^ 63 \<le> sint a + sint b \<Longrightarrow> sint (a + b) < 0"
proof -
  have sum: "sint (a + b) = signed_take_bit 63 (sint a + sint b)"
    by (simp add: sint_word_ariths(1))
  show "sint (a + b) = sint a + sint b" if "sint a + sint b < 2 ^ 63" "- (2 ^ 63) \<le> sint a + sint b"
    using that by (simp add: sum signed_take_bit_int_eq_self_iff)
  show "sint (a + b) < 0" if "2 ^ 63 \<le> sint a + sint b"
  proof -
    let ?y = "sint a + sint b + 2 ^ 63"
    have lt: "sint a < 2 ^ 63" "sint b < 2 ^ 63"
      using sint_lt [of a] sint_lt [of b] by simp_all
    have "?y mod 2 ^ 64 = (?y - 2 ^ 64) mod 2 ^ 64"
      by (simp only: minus_mod_self2)
    also have "\<dots> = ?y - 2 ^ 64"
      using that lt by (intro mod_pos_pos_trivial) simp_all
    finally have "take_bit 64 ?y = ?y - 2 ^ 64"
      by (simp add: take_bit_eq_mod)
    then show ?thesis
      using signed_take_bit_eq_take_bit_shift [of 63 "sint a + sint b"] lt by (simp add: sum)
  qed
qed

lemma nonneg_unat:
  fixes w :: i64
  assumes "0 \<le> sint w"
  shows "int (unat w) = sint w" "unat w < 2 ^ 63"
proof -
  show *: "int (unat w) = sint w"
    using assms sint_lt [of w] by (simp add: uint_sint take_bit_int_eq_self flip: uint_nat)
  show "unat w < 2 ^ 63"
    using sint_lt [of w] * by (simp flip: of_nat_less_iff [where 'a = int])
qed

section \<open>Properties\<close>

text \<open>
  C8.  Every state a zone reaches is well typed, and in such a state every committed
  command is applied: none of the storage errors on which the apply path panics
  can occur, as long as the revision space is not used up and a
  compare-and-swap meets an image its version scan ends on.
\<close>

theorem committed_command_applies:
  assumes "(zone_step C)\<^sup>*\<^sup>* fresh_machine sm" and "command_text c" and "scannable c (sm_tables sm)"
    and "alloc_counter (control_of (sm_tables sm)) + 2 * (length (tb_metadata (sm_tables sm)) + 1) < 2 ^ 64"
  shows "\<exists>r e sm'. apply_command C index c sm = Some (r, e, sm') \<and> typed (sm_tables sm') \<and>
    control_ok (control_of (sm_tables sm'))"
proof -
  have ok: "control_ok (control_of (sm_tables sm))" and ty: "typed (sm_tables sm)"
    using reachable_control_ok reachable_typed assms(1) by blast+
  have "apply_command C index c sm \<noteq> None"
    using execute_total [OF ok ty assms(4) _ assms(3), of C]
    by (auto simp: apply_command_def case_prod_beta)
  then obtain r e sm' where run: "apply_command C index c sm = Some (r, e, sm')"
    by (metis not_None_eq prod_cases3)
  then have "(zone_step C)\<^sup>*\<^sup>* fresh_machine sm'"
    using assms(1,2) zone_step.committed by (meson rtranclp.rtrancl_into_rtrancl)
  then show ?thesis
    using run reachable_control_ok reachable_typed by blast
qed

theorem committed_command_applies_witness:
  "\<exists>sm r e sm'. commit_all no_codec 1 owner_run fresh_machine = Some sm \<and>
     apply_command no_codec 6 (RenameMetadata ''/o'' ''/p'' False) sm = Some (r, e, sm') \<and>
     typed (sm_tables sm') \<and> control_ok (control_of (sm_tables sm'))"
proof -
  have "case commit_all no_codec 1 owner_run fresh_machine of
      None \<Rightarrow> False
    | Some sm \<Rightarrow>
        (case map_of (tb_control (sm_tables sm)) allocator_key of
           None \<Rightarrow> False | Some a \<Rightarrow> be_value (drop 16 a) = 2) \<and> length (tb_metadata (sm_tables sm)) = 2"
    by code_simp
  then obtain sm where sm: "commit_all no_codec 1 owner_run fresh_machine = Some sm"
    and small: "alloc_counter (control_of (sm_tables sm)) = 2" "length (tb_metadata (sm_tables sm)) = 2"
    by (auto simp: alloc_counter_def token_counter_def split: option.split_asm)
  have "list_all command_text owner_run" "command_text (RenameMetadata ''/o'' ''/p'' False)"
    by code_simp+
  then show ?thesis
    using committed_command_applies [OF commit_all_run [OF sm], of "RenameMetadata ''/o'' ''/p'' False" 6] sm small
    by (simp add: scannable_def)
qed

text \<open>
  C20.  A counter never becomes negative and stays below 2^63: it is the sum
  clamped at zero, except that a sum of 2^63 or more wraps and resets the
  counter to zero.
\<close>

theorem counter_bounded:
  assumes "apply_adjust_counter key delta t = (Value v, t')"
    and "current = stored_i64 (map_of (tb_metadata t) key)" and "0 \<le> sint current"
  shows "be_value v < 2 ^ 63 \<and> map_of (tb_metadata t') key = Some v \<and>
    int (be_value v) =
      (if sint current + sint delta < 2 ^ 63 then max 0 (sint current + sint delta) else 0)"
proof -
  have lo: "- (2 ^ 63) \<le> sint current + sint delta"
    using assms(3) sint_ge [of delta] by simp
  define w where "w = adjusted_counter current delta"
  have w0: "0 \<le> sint w"
    by (simp add: w_def adjusted_counter_def)
  have v: "v = be_bytes 8 (unat w)" and t': "t' = put_metadata key v t"
    using assms(1,2) by (auto simp: apply_adjust_counter_def Let_def w_def)
  have unat: "be_value v = unat w"
    using unat_u64_lt [of w] by (simp add: v)
  have "sint w = (if sint current + sint delta < 2 ^ 63 then max 0 (sint current + sint delta) else 0)"
    using signed_sum(1) [OF _ lo] signed_sum(2) [of current delta]
    by (auto simp: w_def adjusted_counter_def)
  then show ?thesis
    using nonneg_unat [OF w0] by (simp add: unat t')
qed

theorem counter_bounded_witness:
  "be_value (be_bytes 8 0) < 2 ^ 63 \<and>
   apply_adjust_counter ''/n'' 1 (no_tables\<lparr>tb_metadata := [(''/n'', be_bytes 8 (2 ^ 63 - 1))]\<rparr>) =
     (Value (be_bytes 8 0), no_tables\<lparr>tb_metadata := [(''/n'', be_bytes 8 0)]\<rparr>)"
proof -
  let ?t = "no_tables\<lparr>tb_metadata := [(''/n'', be_bytes 8 (2 ^ 63 - 1))]\<rparr>"
  have run: "apply_adjust_counter ''/n'' 1 ?t =
      (Value (be_bytes 8 0), no_tables\<lparr>tb_metadata := [(''/n'', be_bytes 8 0)]\<rparr>)"
    by code_simp
  moreover have "0 \<le> sint (stored_i64 (map_of (tb_metadata ?t) ''/n''))"
    by code_simp
  ultimately show ?thesis
    using counter_bounded [OF run refl] by blast
qed

end
