(* ===== verification/Index_Marker.thy ===== *)
theory Index_Marker
  imports Machine_Types
begin

text \<open>
  The row that stores the last applied index lies in the metadata tree beside
  the paths.  No command on a path reads or writes it: a transaction has the
  same result and the same effect on every other row whatever the marker holds.
  This is what makes a replica comparable with one that took another way to the
  same position of the log, by replay, restart or snapshot.
\<close>

section \<open>Tables without the marker\<close>

definition unmark :: "Tables \<Rightarrow> Tables" where
  "unmark t = del_metadata KEY_LAST_APPLIED t"

abbreviation unmarked :: "('a \<times> Tables) option \<Rightarrow> ('a \<times> Tables) option" where
  "unmarked \<equiv> map_option (map_prod id unmark)"

lemma unmark_simps [simp]:
  "tb_control (unmark t) = tb_control t" "tb_streams (unmark t) = tb_streams t"
  "unmark (put_control k v t) = put_control k v (unmark t)"
  "unmark (del_metadata k t) = del_metadata k (unmark t)"
  "unmark (unmark t) = unmark t"
  by (simp_all add: unmark_def put_control_def del_metadata_def om_del_def conj_commute)

lemma unmark_lookup [simp]:
  "k \<noteq> KEY_LAST_APPLIED \<Longrightarrow> map_of (tb_metadata (unmark t)) k = map_of (tb_metadata t) k"
  by (simp add: unmark_def)

lemma unmark_put_metadata:
  assumes "om_wf (tb_metadata t)"
  shows "k \<noteq> KEY_LAST_APPLIED \<Longrightarrow> unmark (put_metadata k v t) = put_metadata k v (unmark t)"
    and "unmark (put_metadata KEY_LAST_APPLIED v t) = unmark t"
  using assms
  by (auto simp: unmark_def put_metadata_def del_metadata_def intro!: arg_cong [where f = "\<lambda>m. t\<lparr>tb_metadata := m\<rparr>"] om_ext)

lemma unmark_reads [simp]:
  "k \<noteq> KEY_LAST_APPLIED \<Longrightarrow> metadata_in_txn k (unmark t) = metadata_in_txn k t"
  "revision_in_txn k (unmark t) = revision_in_txn k t"
  "record_control_in_txn pre k (unmark t) = record_control_in_txn pre k t"
  "record_policy_in_txn k (unmark t) = record_policy_in_txn k t"
  "protected_in_txn k (unmark t) = protected_in_txn k t"
  "is_record_owner_in_txn k (unmark t) = is_record_owner_in_txn k t"
  "ordinary_metadata_refusal k (unmark t) = ordinary_metadata_refusal k t"
  by (simp_all add: control_defs protected_in_txn_def is_record_owner_in_txn_def ordinary_metadata_refusal_def)

lemma live_guard_unmark [simp]:
  "k \<noteq> KEY_LAST_APPLIED \<Longrightarrow> live_record_guard_in_txn k e (unmark t) = live_record_guard_in_txn k e t"
  by (simp add: live_record_guard_in_txn_def)

section \<open>Transaction functions\<close>

lemma allocate_unmark: "allocate_revision k i (unmark t) = unmarked (allocate_revision k i t)"
  by (auto simp: allocate_revision_def Let_def split: option.split)

lemma refresh_unmark: "refresh_tracked_version k (unmark t) = unmarked (refresh_tracked_version k t)"
  by (cases "allocate_revision k None t") (auto simp: refresh_tracked_version_def allocate_unmark split: option.split)

lemma require_unmark: "require_record_format_in_txn b (unmark t) = map_option unmark (require_record_format_in_txn b t)"
  by (cases "ok_value (decode_requirement (control_of t requirement_key))")
    (auto simp: require_record_format_in_txn_def Let_def)

lemma mark_owner_unmark: "mark_record_owner_in_txn k (unmark t) = unmark (mark_record_owner_in_txn k t)"
  by (simp add: mark_record_owner_in_txn_def)

lemma write_versioned_unmark:
  assumes "om_wf (tb_metadata t)" and "k \<noteq> KEY_LAST_APPLIED" and "control_ok (control_of t)"
  shows "write_versioned_in_txn k v e i (unmark t) = unmarked (write_versioned_in_txn k v e i t)"
proof (cases "allocate_revision k (Some i) t")
  case (Some a)
  then obtain tok t1 where a: "allocate_revision k (Some i) t = Some (tok, t1)" by (cases a) auto
  have "om_wf (tb_metadata t1)"
    using allocate_revision_evolves(3) [OF a assms(3)] assms(1) by simp
  then show ?thesis
    using assms(2) a protected_in_txn_ok [OF assms(3), of k]
    by (auto simp: write_versioned_in_txn_def allocate_unmark unmark_put_metadata ok_value_def split: sum.split)
qed (use assms(2) protected_in_txn_ok [OF assms(3), of k] in
    \<open>auto simp: write_versioned_in_txn_def allocate_unmark ok_value_def split: sum.split\<close>)

lemma adopt_unmark:
  assumes "k \<noteq> KEY_LAST_APPLIED"
  shows "adopt_protected_in_txn k e i (unmark t) = unmarked (adopt_protected_in_txn k e i t)"
proof -
  have req: "require_record_format_in_txn False (put_control (policy_key k) CONDITIONAL_ONLY (unmark u)) =
      map_option unmark (require_record_format_in_txn False (put_control (policy_key k) CONDITIONAL_ONLY u))" for u
    using require_unmark [of False "put_control (policy_key k) CONDITIONAL_ONLY u"] by simp
  have fin: "(do { t2 \<leftarrow> map_option unmark x; Some (ProtectedMetadata True, t2) }) =
      unmarked (do { t2 \<leftarrow> x; Some (ProtectedMetadata True, t2) })" for x
    by (cases x) auto
  show ?thesis
    using assms
    by (cases "allocate_revision k (Some i) t"; cases "protected_in_txn k t")
      (auto simp: adopt_protected_in_txn_def Let_def allocate_unmark req fin)
qed

lemma bind_unmark:
  assumes "k \<noteq> KEY_LAST_APPLIED" and "g \<noteq> KEY_LAST_APPLIED"
  shows "bind_record_guard_in_txn k e g gv i (unmark t) = unmarked (bind_record_guard_in_txn k e g gv i t)"
proof -
  have req: "require_record_format_in_txn True (mark_record_owner_in_txn g (unmark u)) =
      map_option unmark (require_record_format_in_txn True (mark_record_owner_in_txn g u))" for u
    by (simp add: mark_owner_unmark require_unmark)
  have fin: "(do { t2 \<leftarrow> map_option unmark x; Some (Success, put_record_control_in_txn BINDING_PREFIX k v t2) }) =
      unmarked (do { t2 \<leftarrow> x; Some (Success, put_record_control_in_txn BINDING_PREFIX k v t2) })" for x v
    by (cases x) (auto simp: put_record_control_in_txn_def)
  show ?thesis
    using assms
    by (cases "adopt_protected_in_txn k e i t"; cases "live_record_guard_in_txn g gv t")
      (auto simp: bind_record_guard_in_txn_def adopt_unmark req fin split: sum.split option.split)
qed

lemma retire_unmark:
  assumes "om_wf (tb_metadata t)" and "k \<noteq> KEY_LAST_APPLIED" and "control_ok (control_of t)"
  shows "retire_record_guard_in_txn k e img i (unmark t) = unmarked (retire_record_guard_in_txn k e img i t)"
proof -
  have req: "require_record_format_in_txn True (mark_record_owner_in_txn k (unmark u)) =
      map_option unmark (require_record_format_in_txn True (mark_record_owner_in_txn k u))" for u
    by (simp add: mark_owner_unmark require_unmark)
  let ?fin = "\<lambda>r t2. case r of
            ConditionalMetadata True current \<Rightarrow>
              (case vm_version current of
                 None \<Rightarrow> None
               | Some version \<Rightarrow> Some (r, put_record_control_in_txn RETIRED_PREFIX k version t2))
          | _ \<Rightarrow> None"
  have one: "?fin r (unmark t2) = unmarked (?fin r t2)" for r t2
    by (cases r) (auto simp: put_record_control_in_txn_def split: bool.split option.split)
  have fin: "(map_option unmark x \<bind> ?fin r) = unmarked (x \<bind> ?fin r)" for x r
    by (cases x) (simp_all only: option.map bind.simps one)
  show ?thesis
    unfolding retire_record_guard_in_txn_def write_versioned_unmark [OF assms]
    using assms(2)
    by (cases "write_versioned_in_txn k img (Some e) i t"; cases "live_record_guard_in_txn k e t")
      (auto simp: req fin)
qed

lemma admit_unmark:
  assumes "k \<noteq> KEY_LAST_APPLIED"
  shows "admit_record_io_in_txn k e (unmark t) = unmarked (admit_record_io_in_txn k e t)"
  using assms
  by (cases "require_record_format_in_txn True t"; cases "live_record_guard_in_txn k e t")
    (auto simp: admit_record_io_in_txn_def mark_record_io_owner_in_txn_def require_unmark split: sum.split)

lemma guarded_refusal_unmark:
  assumes "control_ok (control_of t)"
  shows "guarded_record_refusal gv m (unmark t) = guarded_record_refusal gv m t"
proof -
  have owner: "g \<noteq> KEY_LAST_APPLIED"
    if "record_control_in_txn BINDING_PREFIX p t = Some b" and "from_utf8 b = Some g" for p b g
    using that control_okD(7) [OF assms, of p b] from_utf8_string
    by (auto simp: control_defs starts_with_iff KEY_LAST_APPLIED_def)
  show ?thesis
  proof (cases "mutation_key m")
    case (Some p)
    note key = this
    show ?thesis
    proof (cases "record_control_in_txn BINDING_PREFIX p t")
      case (Some b)
      show ?thesis
      proof (cases "from_utf8 b")
        case (Some g)
        then show ?thesis
          using owner [OF \<open>record_control_in_txn BINDING_PREFIX p t = Some b\<close> Some] key
            \<open>record_control_in_txn BINDING_PREFIX p t = Some b\<close>
          by (simp add: guarded_record_refusal_def)
      qed (use key Some in \<open>simp add: guarded_record_refusal_def\<close>)
    qed (use key in \<open>simp add: guarded_record_refusal_def\<close>)
  qed (simp add: guarded_record_refusal_def)
qed

lemma guard_refusal_unmark:
  assumes "control_ok (control_of t)"
  shows "record_guard_refusal c (unmark t) = record_guard_refusal c t"
  using guarded_refusal_unmark [OF assms]
  by (cases c) (simp_all add: record_guard_refusal_def split: option.split)

section \<open>Rename\<close>

lemma rename_target_refusal_unmark:
  "k \<noteq> KEY_LAST_APPLIED \<Longrightarrow> rename_target_refusal C k (unmark t) = rename_target_refusal C k t"
  by (simp add: rename_target_refusal_def)

lemma rename_changes_unmark:
  assumes "\<forall>(s, img) \<in> set rows. rename_target a b s \<noteq> KEY_LAST_APPLIED"
  shows "rename_changes C a b is_pas (unmark t) rows = rename_changes C a b is_pas t rows"
  using assms
proof (induction rows)
  case (Cons row rows)
  obtain s img where row: "row = (s, img)" by (cases row)
  have "rename_target a b s \<noteq> KEY_LAST_APPLIED"
    using Cons.prems row by simp
  then have target: "rename_target_refusal C (rename_target a b s) (unmark t) =
      rename_target_refusal C (rename_target a b s) t"
    by (rule rename_target_refusal_unmark)
  have rest: "rename_changes C a b is_pas (unmark t) rows = rename_changes C a b is_pas t rows"
    using Cons by simp
  show ?case
    unfolding row rename_changes.simps Let_def target rest unmark_reads(7) ..
qed simp

lemma rename_revisions_unmark:
  "rename_revisions changes (unmark t) = map_option unmark (rename_revisions changes t)"
proof (induction changes arbitrary: t)
  case (Cons change changes)
  obtain source target img where change: "change = (source, target, img)" by (cases change)
  show ?case
  proof (cases "refresh_tracked_version source t")
    case (Some a)
    then obtain b t1 where t1: "refresh_tracked_version source t = Some (b, t1)" by (cases a) auto
    let ?next = "\<lambda>u. if b \<and> is_managed_content_path target
              then map_option snd (allocate_revision target None u)
              else map_option snd (refresh_tracked_version target u)"
    have "?next (unmark t1) = map_option unmark (?next t1)"
      by (simp add: allocate_unmark refresh_unmark option.map_comp comp_def)
    then show ?thesis
      using t1 Cons.IH by (cases "?next t1") (simp_all add: change refresh_unmark)
  qed (simp add: change refresh_unmark)
qed simp

lemma takeWhile_sorted_prefix:
  fixes m :: "(string, bytes) omap"
  assumes "om_wf m"
  shows "takeWhile (\<lambda>e. starts_with (fst e) pre) (filter (\<lambda>e. pre \<le> fst e) m) =
    filter (\<lambda>e. starts_with (fst e) pre) m"
proof -
  have mono: "starts_with y pre" if z: "starts_with z pre" and y: "pre \<le> y" "y \<le> z" for y z :: string
  proof -
    obtain r where r: "z = pre @ r" using z by (auto simp: starts_with_iff)
    show ?thesis
      using y unfolding r
    proof (induction pre arbitrary: y)
      case (Cons c pre)
      then show ?case by (cases y) (auto simp: starts_with_iff)
    qed simp
  qed
  have le: "pre \<le> y" if y: "starts_with y pre" for y :: string
  proof -
    obtain r where r: "y = pre @ r" using y by (auto simp: starts_with_iff)
    show ?thesis using list_le_same_prefix [of pre "[]" r] by (simp add: r)
  qed
  show ?thesis
    using assms
  proof (induction m)
    case (Cons e m)
    then have m: "\<forall>x \<in> set m. fst e < fst x" "om_wf m"
      by (simp_all add: om_wf_Cons)
    show ?case
    proof (cases "pre \<le> fst e \<and> \<not> starts_with (fst e) pre")
      case True
      then have "\<not> starts_with (fst x) pre" if "x \<in> set m" for x
        using mono [of "fst x" "fst e"] m(1) that by fastforce
      then show ?thesis
        using True by (simp add: filter_empty_conv)
    qed (use Cons.IH m(2) le in auto)
  qed simp
qed

lemma rename_rows_unmark:
  assumes "om_wf (tb_metadata t)" and "k \<noteq> KEY_LAST_APPLIED" and "starts_with pre ''/''"
  shows "metadata_rename_rows k pre (unmark t) = metadata_rename_rows k pre t"
proof -
  have "\<not> starts_with KEY_LAST_APPLIED pre"
    using assms(3) by (auto simp: starts_with_iff KEY_LAST_APPLIED_def)
  then have "filter (\<lambda>e. starts_with (fst e) pre) (om_del KEY_LAST_APPLIED (tb_metadata t)) =
      filter (\<lambda>e. starts_with (fst e) pre) (tb_metadata t)"
    by (auto simp: om_del_def intro!: filter_cong)
  then show ?thesis
    using assms(1,2) takeWhile_sorted_prefix [OF om_del_wf [OF assms(1)], of pre KEY_LAST_APPLIED]
    by (simp add: metadata_rename_rows_def unmark_def del_metadata_def takeWhile_sorted_prefix)
qed

lemma om_del_put_commute:
  "om_wf m \<Longrightarrow> k \<noteq> k' \<Longrightarrow> om_del k' (om_put k v m) = om_put k v (om_del k' m)"
  by (rule om_ext) auto

lemma move_rows_unmark:
  assumes "om_wf m" and "\<forall>(source, target, img) \<in> set changes. target \<noteq> k"
  shows "om_del k (move_rows changes m) = move_rows changes (om_del k m)"
proof -
  have del: "om_del k (fold om_del ks m) = fold om_del ks (om_del k m)" "om_wf (fold om_del ks m)"
    if "om_wf m" for ks and m :: "(string, bytes) omap"
    using that by (induction ks arbitrary: m) (auto simp: om_del_def conj_commute om_filter_wf)
  have put: "om_del k (fold (\<lambda>(_, target, img). om_put target img) cs m) =
      fold (\<lambda>(_, target, img). om_put target img) cs (om_del k m)"
    if "om_wf m" "\<forall>(source, target, img) \<in> set cs. target \<noteq> k" for cs :: "(string \<times> string \<times> bytes) list" and m
    using that by (induction cs arbitrary: m) (auto simp: om_del_put_commute om_put_wf)
  show ?thesis
    using assms del put by (simp add: move_rows_def)
qed

lemma absolute_key: "starts_with k ''/'' \<Longrightarrow> k \<noteq> KEY_LAST_APPLIED"
  by (auto simp: starts_with_iff KEY_LAST_APPLIED_def)

lemma trim_slash_absolute:
  assumes "starts_with k ''/''"
  shows "starts_with (trim_end_matches (CHR ''/'') k @ CHR ''/'' # r) ''/''"
proof (cases "trim_end_matches (CHR ''/'') k")
  case (Cons c cs)
  have "k = trim_end_matches (CHR ''/'') k @ rev (takeWhile (\<lambda>x. x = CHR ''/'') (rev k))"
    by (simp add: trim_end_matches_def flip: rev_append)
  then show ?thesis
    using assms Cons by (auto simp: starts_with_iff)
qed (simp add: starts_with_iff)

lemma rename_target_absolute:
  assumes "starts_with new_key ''/''"
  shows "starts_with (rename_target old_key new_key source) ''/''"
  using assms trim_slash_absolute [OF assms] by (simp add: rename_target_def)

lemma rename_unmark:
  assumes "om_wf (tb_metadata t)" and "control_ok (control_of t)"
  shows "rename_metadata_in_txn C a b is_pas (unmark t) = unmarked (rename_metadata_in_txn C a b is_pas t)"
proof (cases "starts_with a ''/'' \<and> starts_with b ''/''")
  case True
  then have key: "a \<noteq> KEY_LAST_APPLIED" "b \<noteq> KEY_LAST_APPLIED"
    and target: "rename_target a b s \<noteq> KEY_LAST_APPLIED" for s
    using absolute_key rename_target_absolute by blast+
  let ?pre = "trim_end_matches (CHR ''/'') a @ ''/''"
  let ?fin = "\<lambda>changes u. do { t1 \<leftarrow> rename_revisions changes u;
      Some (Success, t1\<lparr>tb_metadata := move_rows changes (tb_metadata t1)\<rparr>) }"
  have rows: "metadata_rename_rows a ?pre (unmark t) = metadata_rename_rows a ?pre t"
    using rename_rows_unmark [OF assms(1) key(1)] trim_slash_absolute True by simp
  have refusal: "rename_target_refusal C b (unmark t) = rename_target_refusal C b t"
    using key(2) by (rule rename_target_refusal_unmark)
  have plan: "rename_changes C a b is_pas (unmark t) rs = rename_changes C a b is_pas t rs" for rs
    using target by (intro rename_changes_unmark) auto
  have fin: "?fin changes (unmark t) = unmarked (?fin changes t)"
    if "rename_changes C a b is_pas t rs = Some (Inr changes)" for rs changes
  proof (cases "rename_revisions changes t")
    case (Some t1)
    have "\<forall>(source, target, img) \<in> set changes. target \<noteq> KEY_LAST_APPLIED"
    proof -
      have "map (fst \<circ> snd) changes = map (rename_target a b \<circ> fst) rs"
        using rename_changesD [OF that assms(2)] by blast
      then have "(fst \<circ> snd) ` set changes = (rename_target a b \<circ> fst) ` set rs"
        by (metis list.set_map)
      then have "fst (snd c) \<noteq> KEY_LAST_APPLIED" if "c \<in> set changes" for c
        using that target by (metis comp_apply imageE imageI)
      then show ?thesis
        by fastforce
    qed
    moreover have "om_wf (tb_metadata t1)"
      using rename_revisionsD [OF Some assms(2)] assms(1) by simp
    ultimately have "om_del KEY_LAST_APPLIED (move_rows changes (tb_metadata t1)) =
        move_rows changes (om_del KEY_LAST_APPLIED (tb_metadata t1))"
      by (intro move_rows_unmark)
    moreover have "rename_revisions changes (unmark t) = Some (unmark t1)"
      by (simp add: rename_revisions_unmark Some)
    ultimately show ?thesis
      by (simp add: Some) (simp add: unmark_def del_metadata_def)
  qed (simp add: rename_revisions_unmark)
  show ?thesis
    unfolding rename_metadata_in_txn_def Let_def rows refusal plan
    by (auto simp: fin split: sum.split option.split bind_split)
next
  case False
  then have "validate_path_fast a \<noteq> Inr () \<or> validate_path_fast b \<noteq> Inr ()"
    by (auto simp: validate_path_fast_def)
  then show ?thesis
    by (auto simp: rename_metadata_in_txn_def split: sum.split)
qed

section \<open>Commands on paths\<close>

text \<open>
  A snapshot leaves out the metadata keys that begin with two underscores.
  These are the commands that name no such key.
\<close>

definition path_key :: "string \<Rightarrow> bool" where
  "path_key k \<longleftrightarrow> \<not> starts_with k ''__''"

fun path_command :: "Command \<Rightarrow> bool" where
  "path_command (SetMetadata k v) = path_key k"
| "path_command (CasSetMetadata k v expected) = path_key k"
| "path_command (DeleteMetadata k) = path_key k"
| "path_command (AdjustCounter k delta) = path_key k"
| "path_command (WriteVersionedMetadata k v expected incarnation) = path_key k"
| "path_command (AdoptProtectedMetadata k expected_image incarnation) = path_key k"
| "path_command (RetireRecordGuard k expected_version v incarnation) = path_key k"
| "path_command (AdmitRecordIoOwner k expected_version) = path_key k"
| "path_command (BindRecordGuard k expected_image guard_key guard_version incarnation) =
     (path_key k \<and> path_key guard_key)"
| "path_command (GuardedRecord guard_version (ReplaceMetadata k v expected incarnation)) = path_key k"
| "path_command _ = True"

lemma path_key_unmarked [simp]: "path_key k \<Longrightarrow> k \<noteq> KEY_LAST_APPLIED"
  by (auto simp: path_key_def starts_with_iff KEY_LAST_APPLIED_def)

lemma on_streams_unmark: "on_streams f (unmark t) = map_prod id unmark (on_streams f t)"
  by (simp add: on_streams_def unmark_def del_metadata_def split: prod.split)

lemma adjust_unmark:
  assumes "om_wf (tb_metadata t)" and "k \<noteq> KEY_LAST_APPLIED"
  shows "apply_adjust_counter k delta (unmark t) = map_prod id unmark (apply_adjust_counter k delta t)"
  using assms by (simp add: apply_adjust_counter_def Let_def unmark_put_metadata)

lemma control_unmark:
  "put_control_state ns k v b (unmark t) = map_prod id unmark (put_control_state ns k v b t)"
  "delete_control_state ns k (unmark t) = map_prod id unmark (delete_control_state ns k t)"
  by (auto simp: put_control_state_def delete_control_state_def) (simp add: unmark_def del_metadata_def)

lemma refresh_then_unmark:
  assumes "om_wf (tb_metadata t)" and "control_ok (control_of t)"
    and "\<And>u. om_wf (tb_metadata u) \<Longrightarrow> f (unmark u) = unmark (f u)"
  shows "do { (_, t1) \<leftarrow> refresh_tracked_version k (unmark t); Some (r, f t1) } =
    unmarked (do { (_, t1) \<leftarrow> refresh_tracked_version k t; Some (r, f t1) })"
proof (cases "refresh_tracked_version k t")
  case (Some a)
  then obtain b t1 where t1: "refresh_tracked_version k t = Some (b, t1)" by (cases a) auto
  then have "om_wf (tb_metadata t1)"
    using refresh_tracked_evolves [OF t1 assms(2)] assms(1) by simp
  then show ?thesis
    using assms(3) by (simp add: refresh_unmark t1)
qed (simp add: refresh_unmark)

lemma execute_unmark:
  assumes "om_wf (tb_metadata t)" and "control_ok (control_of t)" and "path_command c"
  shows "execute_metadata_in_txn C c (unmark t) = unmarked (execute_metadata_in_txn C c t)"
proof -
  have arm: "execute_arm C c (unmark t) = unmarked (execute_arm C c t)"
  proof (cases c)
    case (SetMetadata k v)
    then show ?thesis
      using assms(3) unmark_put_metadata(1)
      by (simp add: refresh_then_unmark [OF assms(1,2), where f = "put_metadata k v"])
  next
    case (DeleteMetadata k)
    then show ?thesis
      by (simp add: refresh_then_unmark [OF assms(1,2), where f = "del_metadata k"])
  next
    case (CasSetMetadata k v e)
    then show ?thesis
      using assms(3) unmark_put_metadata(1)
      by (cases "current_version (metadata_in_txn k t)")
        (simp_all add: refresh_then_unmark [OF assms(1,2), where f = "put_metadata k v"])
  next
    case (GuardedRecord gv m)
    then show ?thesis
      using assms by (cases m) (simp_all add: write_versioned_unmark on_streams_unmark)
  qed (use assms in \<open>simp_all add: admit_unmark bind_unmark retire_unmark adopt_unmark write_versioned_unmark
      rename_unmark on_streams_unmark adjust_unmark control_unmark\<close>)
  show ?thesis
    unfolding execute_metadata_in_txn_def guard_refusal_unmark [OF assms(2)] unmark_reads(7) arm
    by (auto split: option.split bind_split)
qed

section \<open>Rows outside the paths\<close>

text \<open>No command on paths writes a metadata row that a snapshot leaves out.\<close>

lemma absolute_path_key: "starts_with k ''/'' \<Longrightarrow> path_key k"
  by (auto simp: starts_with_iff path_key_def)

lemma rename_rows_kept:
  assumes "rename_metadata_in_txn C a b is_pas t = Some (r, t')" and "control_ok (control_of t)" and "\<not> path_key k"
  shows "map_of (tb_metadata t') k = map_of (tb_metadata t) k"
  using assms(1)
proof (cases rule: rename_metadata_cases)
  case (moved rows changes t1)
  have "fst ` set changes = fst ` set rows"
    "(fst \<circ> snd) ` set changes = (rename_target a b \<circ> fst) ` set rows"
    using rename_changesD [OF moved(2) assms(2)] by (metis list.set_map)+
  note ends = this
  have "starts_with (fst e) ''/''" if "e \<in> set rows" for e
    using metadata_rename_rowsD [OF moved(1) that] moved(5) trim_slash_absolute [OF moved(5), of "[]"] starts_with_trans
    by auto
  then have "k \<notin> rename_ends changes"
    using assms(3) absolute_path_key rename_target_absolute [OF moved(6)] unfolding rename_ends_def ends by auto
  then show ?thesis
    using rename_revisionsD [OF moved(3) assms(2)] move_rows_out by (simp add: moved(4))
qed simp

lemma write_versioned_rows_kept:
  assumes "write_versioned_in_txn k v e i t = Some (r, t')" and "control_ok (control_of t)" and "p \<noteq> k"
  shows "map_of (tb_metadata t') p = map_of (tb_metadata t) p"
  using write_versioned_step(3) [OF assms(1,2)] assms(3) by (simp add: image_kept_def control_defs)

lemma marks_rows_kept:
  assumes "require_record_format_in_txn b (mark_record_owner_in_txn g t) = Some t'"
  shows "tb_metadata t' = tb_metadata t"
  using assms by (rule mark_and_require) simp

lemma guard_rows_kept:
  assumes "control_ok (control_of t)"
  shows "bind_record_guard_in_txn k e g gv i t = Some (r, t') \<Longrightarrow> tb_metadata t' = tb_metadata t"
    and "retire_record_guard_in_txn k e' img i t = Some (r, t') \<Longrightarrow> p \<noteq> k \<Longrightarrow>
      map_of (tb_metadata t') p = map_of (tb_metadata t) p"
  subgoal
    by (erule bind_cases) (auto simp: marks_rows_kept dest: adopt_protectedD(2) [OF _ assms])
  subgoal
    by (erule retire_cases) (auto simp: marks_rows_kept write_versioned_rows_kept [OF _ assms])
  done

lemma execute_rows_kept:
  assumes "execute_metadata_in_txn C c t = Some (r, t')" and "control_ok (control_of t)" and "path_command c"
    and "\<not> path_key p"
  shows "map_of (tb_metadata t') p = map_of (tb_metadata t) p"
proof -
  have ne: "p \<noteq> k" if "path_key k" for k
    using that assms(4) by auto
  have "map_of (tb_metadata t') p = map_of (tb_metadata t) p" if arm: "execute_arm C c t = Some (r, t')"
  proof (cases c)
    case (SetMetadata k v)
    then show ?thesis
      using arm assms(3,4) by (auto simp: bind_eq_Some_conv refresh_tracked_evolves(2) [OF _ assms(2)])
  next
    case (DeleteMetadata k)
    then show ?thesis
      using arm assms(3,4) by (auto simp: bind_eq_Some_conv refresh_tracked_evolves(2) [OF _ assms(2)])
  next
    case (CasSetMetadata k v e)
    then show ?thesis
      using arm assms(3,4)
      by (auto simp: bind_eq_Some_conv refresh_tracked_evolves(2) [OF _ assms(2)] split: if_split_asm)
  next
    case (AdjustCounter k d)
    then show ?thesis
      using arm assms by (auto simp: apply_adjust_counter_def Let_def split: if_split_asm)
  next
    case (GuardedRecord gv m)
    then show ?thesis
      using arm assms write_versioned_rows_kept [OF _ assms(2) ne]
      by (cases m) (auto dest!: arg_cong [where f = "tb_metadata \<circ> snd"])
  qed (use arm assms rename_rows_kept [OF _ assms(2,4)] guard_rows_kept(1) [OF assms(2)] guard_rows_kept(2) [OF assms(2) _ ne] adopt_protectedD(2) [OF _ assms(2)]
      write_versioned_rows_kept [OF _ assms(2) ne] admit_record_io_step(3) [OF _ assms(2), of _ _ _ _ p] in
      \<open>auto simp: image_kept_def control_defs put_control_state_def delete_control_state_def split: if_split_asm
        dest!: arg_cong [where f = "tb_metadata \<circ> snd"]\<close>)
  then show ?thesis
    using execute_cases [OF assms(1,2)] by metis
qed

end
