(* ===== verification/Zone_Replica.thy ===== *)
theory Zone_Replica
  imports Index_Marker
begin

text \<open>
  The driver of a zone on one node (\<^verbatim>\<open>raft/src/raft/node.rs\<close>) and the way a zone
  is opened (\<^verbatim>\<open>zone_registry.rs\<close>): committed entries are applied in order, the
  log is replaced by a snapshot when it has grown, a node that is behind
  receives the snapshot of a peer, and a restart rebuilds the lock table from
  the stored snapshot and the entries after it.  The raft-rs crate is outside
  the model: a run is given by the committed log of the zone, and the crate
  chooses the batches.  The stored log is a window of indices
  (\<^verbatim>\<open>Raft_Storage\<close> shows the storage to be one).
\<close>

section \<open>Entries\<close>

text \<open>
  An entry of the log by how the driver treats it.  A configuration change may
  be rejected by raft-rs.  Data below the eight bytes of a proposal id, which no
  proposal has, is skipped.
\<close>

datatype LogEntry = EntryNormal Command | EntryShort | EntryEmpty | EntryConfChange bool

fun entry_command :: "LogEntry \<Rightarrow> Command option" where
  "entry_command (EntryNormal c) = Some c"
| "entry_command EntryShort = None"
| "entry_command EntryEmpty = Some Noop"
| "entry_command (EntryConfChange accepted) = Some Noop"

record ZoneReplica =
  zr_machine :: FullStateMachine
  zr_applied :: nat
  zr_first :: nat
  zr_last :: nat
  zr_snapshot :: "(nat \<times> Snapshot) option"
  zr_last_index_at_snapshot :: nat
  zr_membership_changed :: bool

definition apply_entry :: "MetadataCodec \<Rightarrow> nat \<Rightarrow> LogEntry \<Rightarrow> ZoneReplica \<Rightarrow> ZoneReplica option" where
  "apply_entry C index e zr =
     (case entry_command e of
        None \<Rightarrow> Some zr
      | Some c \<Rightarrow>
          do {
            (_, _, sm) \<leftarrow> apply_command C index c (zr_machine zr);
            Some (zr\<lparr>zr_machine := sm,
                     zr_membership_changed := (zr_membership_changed zr \<or> e = EntryConfChange True)\<rparr>)
          })"

fun apply_entries :: "MetadataCodec \<Rightarrow> nat \<Rightarrow> LogEntry list \<Rightarrow> ZoneReplica \<Rightarrow> ZoneReplica option" where
  "apply_entries C index [] zr = Some zr"
| "apply_entries C index (e # es) zr =
     do { zr1 \<leftarrow> apply_entry C index e zr; apply_entries C (index + 1) es zr1 }"

text \<open>A batch of committed entries up to index \<^term>\<open>n\<close>, then \<^verbatim>\<open>advance_apply\<close>.\<close>

definition apply_committed :: "MetadataCodec \<Rightarrow> LogEntry list \<Rightarrow> nat \<Rightarrow> ZoneReplica \<Rightarrow> ZoneReplica option" where
  "apply_committed C log n zr =
     map_option (zr_applied_update (\<lambda>_. n))
       (apply_entries C (zr_applied zr + 1) (drop (zr_applied zr) (take n log)) zr)"

section \<open>Snapshots and restarts\<close>

definition enough_to_compact :: "nat \<Rightarrow> ZoneReplica \<Rightarrow> bool" where
  "enough_to_compact threshold zr =
     (let applied = sm_last_applied (zr_machine zr); first = zr_first zr in
      if zr_membership_changed zr \<and> first > 1 then first \<le> applied
      else first < applied \<and> threshold \<le> applied - first)"

definition maybe_snapshot_and_compact :: "nat \<Rightarrow> ZoneReplica \<Rightarrow> ZoneReplica" where
  "maybe_snapshot_and_compact threshold zr =
     (if threshold = 0 then zr
      else if zr_last zr - zr_last_index_at_snapshot zr < threshold \<and> \<not> zr_membership_changed zr then zr
      else if \<not> enough_to_compact threshold zr then zr
      else
        let applied = sm_last_applied (zr_machine zr) in
        if zr_last zr < applied then zr
        else zr\<lparr>zr_snapshot := Some (applied, snapshot (zr_machine zr)),
                zr_first := applied + 1,
                zr_membership_changed := False,
                zr_last_index_at_snapshot := applied\<rparr>)"

definition install_snapshot :: "nat \<Rightarrow> Snapshot \<Rightarrow> ZoneReplica \<Rightarrow> ZoneReplica" where
  "install_snapshot index ss zr =
     zr\<lparr>zr_machine := restore_snapshot ss, zr_applied := index, zr_first := index + 1, zr_last := index,
        zr_snapshot := Some (index, ss), zr_last_index_at_snapshot := index\<rparr>"

text \<open>
  Opening a zone: the machine over the stored tables with an empty lock table,
  then the stored snapshot, each after its admission; raft-rs starts to apply
  after the compacted part of the log.
\<close>

definition open_zone :: "MembershipPolicy \<Rightarrow> ZoneReplica \<Rightarrow> RaftError + ZoneReplica" where
  "open_zone policy zr =
     (case state_machine_new (sm_tables (zr_machine zr)) of
        Inl e \<Rightarrow> Inl e
      | Inr sm \<Rightarrow>
     (case validate_protected_storage_policy policy (sm_tables sm) of
        Inl e \<Rightarrow> Inl e
      | Inr _ \<Rightarrow>
          let opened = zr\<lparr>zr_machine := sm, zr_applied := zr_first zr - 1,
                          zr_last_index_at_snapshot := zr_first zr - 1, zr_membership_changed := False\<rparr> in
          case zr_snapshot zr of
            None \<Rightarrow> Inr opened
          | Some (index, ss) \<Rightarrow>
              if index > 0
              then case validate_protected_snapshot_policy ss policy of
                     Inl e \<Rightarrow> Inl e
                   | Inr _ \<Rightarrow> Inr (opened\<lparr>zr_machine := restore_snapshot ss\<rparr>)
              else Inr opened))"

section \<open>Runs of a cluster\<close>

definition new_replica :: "nat \<Rightarrow> ZoneReplica" where
  "new_replica applied =
     \<lparr>zr_machine = fresh_machine, zr_applied = applied, zr_first = 1, zr_last = applied, zr_snapshot = None,
      zr_last_index_at_snapshot = 0, zr_membership_changed = False\<rparr>"

text \<open>
  The founder of a zone starts with its own configuration change written and
  marked as applied; every other node starts with nothing.
\<close>

definition started :: "LogEntry list \<Rightarrow> ZoneReplica \<Rightarrow> bool" where
  "started log zr \<longleftrightarrow>
     zr = new_replica 0 \<or> zr = new_replica 1 \<and> (\<exists>es. log = EntryConfChange True # es)"

text \<open>
  The comment of the compaction says that the applied index of the machine is
  the index raft-rs has applied.
\<close>

definition consistent_cut :: "ZoneReplica \<Rightarrow> bool" where
  "consistent_cut zr \<longleftrightarrow> sm_last_applied (zr_machine zr) = zr_applied zr"

inductive replica_step ::
  "MetadataCodec \<Rightarrow> LogEntry list \<Rightarrow> nat \<Rightarrow> bool \<Rightarrow> ZoneReplica \<Rightarrow> ZoneReplica \<Rightarrow> bool"
  for C log threshold strict where
  persisted: "zr_applied zr \<le> n \<Longrightarrow> replica_step C log threshold strict zr (zr\<lparr>zr_last := n\<rparr>)"
| applied: "apply_committed C log n zr = Some zr' \<Longrightarrow> zr_applied zr \<le> n \<Longrightarrow> n \<le> zr_last zr \<Longrightarrow> n \<le> length log \<Longrightarrow>
    replica_step C log threshold strict zr zr'"
| compacted: "strict \<longrightarrow> consistent_cut zr \<Longrightarrow>
    replica_step C log threshold strict zr (maybe_snapshot_and_compact threshold zr)"
| restarted: "open_zone policy zr = Inr zr' \<Longrightarrow> replica_step C log threshold strict zr zr'"

type_synonym cluster = "nat \<Rightarrow> ZoneReplica"

inductive cluster_step ::
  "MetadataCodec \<Rightarrow> LogEntry list \<Rightarrow> nat \<Rightarrow> bool \<Rightarrow> cluster \<Rightarrow> cluster \<Rightarrow> bool"
  for C log threshold strict where
  local: "replica_step C log threshold strict (c i) zr \<Longrightarrow> cluster_step C log threshold strict c (c(i := zr))"
| installed: "zr_snapshot (c j) = Some (index, ss) \<Longrightarrow> zr_applied (c i) < index \<Longrightarrow>
    cluster_step C log threshold strict c (c(i := install_snapshot index ss (c i)))"

text \<open>What the log prescribes: the machine that has applied its first \<^term>\<open>n\<close> commands once each.\<close>

definition machine_at :: "MetadataCodec \<Rightarrow> LogEntry list \<Rightarrow> nat \<Rightarrow> FullStateMachine option" where
  "machine_at C log n = commit_all C 1 (List.map_filter entry_command (take n log)) fresh_machine"

section \<open>Removing a zone\<close>

text \<open>The count of the mounts of a zone is a counter of its machine.  It guards the removal of the zone.\<close>

definition I_LINKS_COUNT_KEY :: string where
  "I_LINKS_COUNT_KEY = ''__i_links_count__''"

definition get_links_count :: "FullStateMachine option \<Rightarrow> i64 option" where
  "get_links_count node = map_option (\<lambda>sm. stored_i64 (get_metadata I_LINKS_COUNT_KEY (sm_tables sm))) node"

definition remove_zone_admission :: "string \<Rightarrow> bool \<Rightarrow> FullStateMachine option \<Rightarrow> RaftError + unit" where
  "remove_zone_admission zid force node =
     (if zid \<in> {ROOT_ZONE_ID, ''__control__''} then Inl InvalidState
      else if \<not> force \<and> (case get_links_count node of Some count \<Rightarrow> 0 < sint count | None \<Rightarrow> False)
      then Inl InvalidState
      else Inr ())"

section \<open>Runs as event lists\<close>

datatype ReplicaEvent = Persist nat | Commit nat | Compact | Restart MembershipPolicy

fun replica_event ::
  "MetadataCodec \<Rightarrow> LogEntry list \<Rightarrow> nat \<Rightarrow> bool \<Rightarrow> ReplicaEvent \<Rightarrow> ZoneReplica \<Rightarrow> ZoneReplica option" where
  "replica_event C log threshold strict (Persist n) zr =
     (if zr_applied zr \<le> n then Some (zr\<lparr>zr_last := n\<rparr>) else None)"
| "replica_event C log threshold strict (Commit n) zr =
     (if zr_applied zr \<le> n \<and> n \<le> zr_last zr \<and> n \<le> length log then apply_committed C log n zr else None)"
| "replica_event C log threshold strict Compact zr =
     (if strict \<and> \<not> consistent_cut zr then None else Some (maybe_snapshot_and_compact threshold zr))"
| "replica_event C log threshold strict (Restart policy) zr =
     (case open_zone policy zr of Inl _ \<Rightarrow> None | Inr zr' \<Rightarrow> Some zr')"

fun replica_run ::
  "MetadataCodec \<Rightarrow> LogEntry list \<Rightarrow> nat \<Rightarrow> bool \<Rightarrow> ReplicaEvent list \<Rightarrow> ZoneReplica \<Rightarrow> ZoneReplica option" where
  "replica_run C log threshold strict [] zr = Some zr"
| "replica_run C log threshold strict (e # es) zr =
     do { zr1 \<leftarrow> replica_event C log threshold strict e zr; replica_run C log threshold strict es zr1 }"

section \<open>The machine the log prescribes\<close>

definition entry_ok :: "LogEntry \<Rightarrow> bool" where
  "entry_ok e \<longleftrightarrow>
     (case entry_command e of None \<Rightarrow> False | Some c \<Rightarrow> command_text c \<and> path_command c)"

lemma take_commands:
  assumes "list_all entry_ok log" and "n < length log" and "entry_command (log ! n) = Some c"
  shows "List.map_filter entry_command (take (Suc n) log) = List.map_filter entry_command (take n log) @ [c]"
    and "length (List.map_filter entry_command (take n log)) = n"
proof -
  show "List.map_filter entry_command (take (Suc n) log) = List.map_filter entry_command (take n log) @ [c]"
    using assms(2,3) by (simp add: take_Suc_conv_app_nth map_filter_def)
  have "filter (\<lambda>e. entry_command e \<noteq> None) (take n log) = take n log"
    using assms(1) by (intro filter_True) (auto simp: list_all_iff entry_ok_def dest!: in_set_takeD split: option.split_asm)
  then show "length (List.map_filter entry_command (take n log)) = n"
    using assms(2) by (simp add: map_filter_def)
qed

lemma machine_at_0 [simp]: "machine_at C log 0 = Some fresh_machine"
  by (simp add: machine_at_def map_filter_def)

lemma machine_at_Suc:
  assumes "list_all entry_ok log" and "n < length log" and "entry_command (log ! n) = Some c"
  shows "machine_at C log (Suc n) =
    do { S \<leftarrow> machine_at C log n; (_, _, S') \<leftarrow> apply_command C (Suc n) c S; Some S' }"
proof (cases "machine_at C log n")
  case (Some S)
  then show ?thesis
    using take_commands [OF assms]
    by (auto simp: machine_at_def commit_all_append split: option.split bind_split)
qed (use take_commands [OF assms] in \<open>simp add: machine_at_def commit_all_append\<close>)

lemma entry_okE:
  assumes "list_all entry_ok log" and "n < length log"
  obtains c where "entry_command (log ! n) = Some c" "command_text c" "path_command c"
  using assms by (auto simp: list_all_length entry_ok_def split: option.split_asm)

lemma machine_at_earlier:
  assumes "list_all entry_ok log" and "machine_at C log n = Some S" and "k \<le> n" and "n \<le> length log"
  obtains S' where "machine_at C log k = Some S'"
proof -
  have "machine_at C log n \<noteq> None \<longrightarrow> machine_at C log k \<noteq> None"
    using assms(3,4)
  proof (induction n)
    case (Suc n)
    then have "n < length log" by simp
    obtain c where c: "entry_command (log ! n) = Some c"
      using entry_okE [OF assms(1) \<open>n < length log\<close>] by metis
    show ?case
      using Suc machine_at_Suc [OF assms(1) \<open>n < length log\<close> c] by (cases "k = Suc n") auto
  qed simp
  then show thesis
    using that assms(2) by blast
qed

text \<open>Metadata rows a snapshot would leave out are absent, the marker apart.\<close>

definition only_paths :: "Tables \<Rightarrow> bool" where
  "only_paths t \<longleftrightarrow> (\<forall>k. \<not> path_key k \<longrightarrow> k \<noteq> KEY_LAST_APPLIED \<longrightarrow> map_of (tb_metadata t) k = None)"

lemma apply_command_cases:
  assumes "apply_command C i c sm = Some (r, ev, sm')"
  obtains (lock) s where "is_lock_command c" "apply_lock_command c (sm_advisory sm) = (r, s)"
      "sm' = sm\<lparr>sm_advisory := s, sm_last_applied := max (sm_last_applied sm) i\<rparr>"
  | (skipped) "\<not> is_lock_command c" "i \<le> sm_last_applied sm" "sm' = sm"
  | (executed) t where "\<not> is_lock_command c" "sm_last_applied sm < i"
      "execute_metadata_in_txn C c (sm_tables sm) = Some (r, t)"
      "sm' = sm\<lparr>sm_tables := put_metadata KEY_LAST_APPLIED (be_bytes 8 i) t, sm_last_applied := i\<rparr>"
  using assms
  by (auto simp: apply_command_def bind_eq_Some_conv max_def split: if_split_asm prod.split_asm)

lemma machine_at_ok:
  assumes "list_all entry_ok log" and "n \<le> length log" and "machine_at C log n = Some S"
  shows "sm_last_applied S = n" "only_paths (sm_tables S)" "(zone_step C)\<^sup>*\<^sup>* fresh_machine S"
proof -
  have "sm_last_applied S = n \<and> only_paths (sm_tables S) \<and> (zone_step C)\<^sup>*\<^sup>* fresh_machine S"
    using assms(2,3)
  proof (induction n arbitrary: S)
    case 0
    then show ?case
      by (auto simp: fresh_machine_def no_tables_def only_paths_def)
  next
    case (Suc n)
    then have n: "n < length log" by simp
    obtain c where c: "entry_command (log ! n) = Some c" "command_text c" "path_command c"
      using entry_okE [OF assms(1) n] by metis
    obtain S0 r ev where S0: "machine_at C log n = Some S0" "apply_command C (Suc n) c S0 = Some (r, ev, S)"
      using Suc.prems(2) machine_at_Suc [OF assms(1) n c(1)] by (auto simp: bind_eq_Some_conv)
    have IH: "sm_last_applied S0 = n" "only_paths (sm_tables S0)" "(zone_step C)\<^sup>*\<^sup>* fresh_machine S0"
      using Suc.IH S0(1) n by simp_all
    have run: "(zone_step C)\<^sup>*\<^sup>* fresh_machine S"
      using IH(3) zone_step.committed [OF S0(2) c(2)] by (rule rtranclp.rtrancl_into_rtrancl)
    from S0(2) show ?case
    proof (cases rule: apply_command_cases)
      case (executed t)
      have "map_of (tb_metadata t) k = map_of (tb_metadata (sm_tables S0)) k" if "\<not> path_key k" for k
        using execute_rows_kept [OF executed(3) reachable_control_ok [OF IH(3)] c(3) that] .
      then show ?thesis
        using IH(2) run by (simp add: executed(4) only_paths_def)
    qed (use IH run in simp_all)
  qed
  then show "sm_last_applied S = n" "only_paths (sm_tables S)" "(zone_step C)\<^sup>*\<^sup>* fresh_machine S"
    by simp_all
qed

section \<open>Equal content\<close>

text \<open>Tables that agree apart from the marker give the same results and agree afterwards.\<close>

lemma execute_same:
  assumes "unmark t = unmark u" and "typed t" and "typed u" and "control_ok (control_of u)" and "path_command c"
    and "execute_metadata_in_txn C c t = Some (r, t')"
  obtains u' where "execute_metadata_in_txn C c u = Some (r, u')" "unmark u' = unmark t'"
proof -
  have ctl: "control_of t = control_of u"
    using assms(1) by (metis unmark_simps(1))
  have "unmarked (execute_metadata_in_txn C c t) = unmarked (execute_metadata_in_txn C c u)"
    using execute_unmark [of t c C] execute_unmark [of u c C] assms(1-5) ctl
    by (simp add: typed_def rows_ok_def)
  then show thesis
    using that assms(6) by (cases "execute_metadata_in_txn C c u") auto
qed

lemma unmark_marker:
  assumes "typed t"
  shows "unmark (put_metadata KEY_LAST_APPLIED v t) = unmark t"
  using assms by (simp add: unmark_put_metadata(2) typed_def rows_ok_def)

lemma fold_put_lookup:
  "distinct (map fst m) \<Longrightarrow> map_of (fold (\<lambda>(k, v). om_put k v) m n) = map_of n ++ map_of m"
proof (induction m arbitrary: n)
  case (Cons e m)
  obtain k v where e: "e = (k, v)" by (cases e)
  have "map_of m k = None"
    using Cons.prems by (simp add: e map_of_eq_None_iff)
  then show ?case
    using Cons by (auto simp: e map_add_def fun_eq_iff split: option.split)
qed simp

lemma refill_id: "om_wf m \<Longrightarrow> refill m = m"
proof (rule om_ext)
  assume wf: "om_wf m"
  have "om_wf (fold (\<lambda>(k, v). om_put k v) cs n)" if "om_wf n" for cs and n :: "(string, bytes) omap"
    using that by (induction cs arbitrary: n) (auto simp: om_put_wf)
  then show "om_wf (refill m)"
    by (simp add: refill_def)
  show "map_of (refill m) = map_of m"
    using om_wf_distinct [OF wf] by (simp add: refill_def fold_put_lookup)
qed

lemma snapshot_restores:
  assumes "typed (sm_tables sm)" and "only_paths (sm_tables sm)"
  shows "unmark (sm_tables (restore_snapshot (snapshot sm))) = unmark (sm_tables sm)"
    "typed (sm_tables (restore_snapshot (snapshot sm)))"
    "sm_advisory (restore_snapshot (snapshot sm)) = sm_advisory sm"
    "sm_last_applied (restore_snapshot (snapshot sm)) = sm_last_applied sm"
    "map_of (tb_metadata (sm_tables (restore_snapshot ss))) KEY_LAST_APPLIED = Some (be_bytes 8 (ss_last_applied ss))"
    "ss_last_applied (snapshot sm) = sm_last_applied sm"
proof -
  let ?md = "tb_metadata (sm_tables sm)"
  let ?keep = "filter (\<lambda>e. utf8_string (fst e) \<and> \<not> starts_with (fst e) ''__'') ?md"
  have wf: "om_wf ?md" "om_wf ?keep" and utf: "\<forall>e \<in> set ?md. utf8_string (fst e)"
    using assms(1) by (simp_all add: typed_def rows_ok_def)
  have whole: "filter (\<lambda>e. utf8_string (fst e)) m = m" "refill m = m" if "rows_ok m" for m
    using that by (auto simp: rows_ok_def refill_id intro!: filter_True)
  have keep: "map_of ?keep k = (if path_key k then map_of ?md k else None)" for k
  proof (cases "path_key k")
    case True
    have "?keep = filter (\<lambda>e. path_key (fst e)) ?md"
      using utf by (auto simp: path_key_def intro: filter_cong)
    then show ?thesis
      using True by (simp add: map_of_filter_key)
  next
    case False
    then show ?thesis
      by (auto simp: path_key_def map_of_eq_None_iff)
  qed
  have kf: "refill ?keep = ?keep"
    using wf(2) by (rule refill_id)
  have "om_del KEY_LAST_APPLIED (om_put KEY_LAST_APPLIED v (refill ?keep)) = om_del KEY_LAST_APPLIED ?md" for v
  proof (rule om_ext)
    show "map_of (om_del KEY_LAST_APPLIED (om_put KEY_LAST_APPLIED v (refill ?keep))) =
        map_of (om_del KEY_LAST_APPLIED ?md)"
      using assms(2) by (auto simp: kf keep only_paths_def fun_eq_iff)
  qed (use wf kf in \<open>simp_all add: om_put_wf\<close>)
  then show "unmark (sm_tables (restore_snapshot (snapshot sm))) = unmark (sm_tables sm)"
    using assms(1) whole by (simp add: unmark_def del_metadata_def restore_snapshot_def snapshot_def typed_def)
  have "rows_ok ?keep"
    using wf(2) by (auto simp: rows_ok_def)
  then show "typed (sm_tables (restore_snapshot (snapshot sm)))"
    using assms(1) whole by (simp add: typed_def restore_snapshot_def snapshot_def kf rows_ok_put utf8_literals)
qed (simp_all add: restore_snapshot_def snapshot_def)

section \<open>The invariant of a replica\<close>

definition stored_index :: "Tables \<Rightarrow> nat" where
  "stored_index t = (case map_of (tb_metadata t) KEY_LAST_APPLIED of None \<Rightarrow> 0 | Some bs \<Rightarrow> be_value bs)"

definition marker_ok :: "Tables \<Rightarrow> bool" where
  "marker_ok t \<longleftrightarrow> (\<forall>bs. map_of (tb_metadata t) KEY_LAST_APPLIED = Some bs \<longrightarrow> length bs = 8)"

definition tables_at :: "MetadataCodec \<Rightarrow> LogEntry list \<Rightarrow> nat \<Rightarrow> Tables \<Rightarrow> bool" where
  "tables_at C log n t \<longleftrightarrow> (\<exists>S. machine_at C log n = Some S \<and> unmark (sm_tables S) = unmark t)"

definition locks_at :: "MetadataCodec \<Rightarrow> LogEntry list \<Rightarrow> nat \<Rightarrow> LockState \<Rightarrow> bool" where
  "locks_at C log n a \<longleftrightarrow> (\<exists>S. machine_at C log n = Some S \<and> sm_advisory S = a)"

text \<open>
  The tables are at every index from the stored one to the last one applied, in
  this life of the node or before; the locks are at the index raft-rs has
  applied.
\<close>

definition machine_ok :: "MetadataCodec \<Rightarrow> LogEntry list \<Rightarrow> nat \<Rightarrow> FullStateMachine \<Rightarrow> bool" where
  "machine_ok C log applied sm \<longleftrightarrow>
     typed (sm_tables sm) \<and> marker_ok (sm_tables sm) \<and>
     stored_index (sm_tables sm) \<le> sm_last_applied sm \<and> sm_last_applied sm \<le> length log \<and> applied \<le> length log \<and>
     (\<forall>n. stored_index (sm_tables sm) \<le> n \<longrightarrow> n \<le> max applied (sm_last_applied sm) \<longrightarrow>
        tables_at C log n (sm_tables sm)) \<and>
     locks_at C log applied (sm_advisory sm)"

definition replica_ok :: "MetadataCodec \<Rightarrow> LogEntry list \<Rightarrow> ZoneReplica \<Rightarrow> bool" where
  "replica_ok C log zr \<longleftrightarrow>
     machine_ok C log (zr_applied zr) (zr_machine zr) \<and>
     (zr_snapshot zr = None \<longrightarrow> zr_first zr = 1) \<and>
     (\<forall>index ss. zr_snapshot zr = Some (index, ss) \<longrightarrow>
        0 < index \<and> zr_first zr = index + 1 \<and> machine_ok C log index (restore_snapshot ss))"

lemma stored_marker:
  "n < 2 ^ 64 \<Longrightarrow> stored_index (put_metadata KEY_LAST_APPLIED (be_bytes 8 n) t) = n"
  "marker_ok (put_metadata KEY_LAST_APPLIED (be_bytes 8 n) t)"
  by (simp_all add: stored_index_def marker_ok_def)

lemma apply_command_ok:
  assumes log: "list_all entry_ok log" "length log < 2 ^ 64" "k < length log" "entry_command (log ! k) = Some c"
    and ok: "machine_ok C log k sm" and run: "apply_command C (Suc k) c sm = Some (r, ev, sm')"
  shows "machine_ok C log (Suc k) sm'"
proof -
  let ?L = "sm_last_applied sm" and ?t = "sm_tables sm"
  have c: "command_text c" "path_command c"
    using entry_okE [OF log(1,3)] log(4) by auto
  obtain S where S: "machine_at C log k = Some S" "sm_advisory S = sm_advisory sm"
    using ok by (auto simp: machine_ok_def locks_at_def)
  note next_at = machine_at_Suc [OF log(1,3,4), where C = C, unfolded S(1)]
  have here: "stored_index ?t \<le> k" "tables_at C log k ?t" if "?L \<le> k"
    using ok that by (auto simp: machine_ok_def)
  from run show ?thesis
  proof (cases rule: apply_command_cases)
    case (lock s)
    obtain r1 s1 where l: "apply_lock_command c (sm_advisory S) = (r1, s1)" by fastforce
    have S1: "machine_at C log (Suc k) = Some (S\<lparr>sm_advisory := s1, sm_last_applied := max (sm_last_applied S) (Suc k)\<rparr>)"
      using next_at lock(1) l by (simp add: apply_command_def max_def)
    have "s1 = s"
      using l lock(2) by (simp add: S(2))
    then have locks: "locks_at C log (Suc k) s"
      using S1 by (simp add: locks_at_def)
    have "tables_at C log n ?t" if "stored_index ?t \<le> n" "n \<le> max (Suc k) (max ?L (Suc k))" for n
    proof (cases "n \<le> max k ?L")
      case True
      then show ?thesis using ok that(1) by (simp add: machine_ok_def)
    next
      case False
      then have "n = Suc k" "?L \<le> k" using that(2) by auto
      then show ?thesis
        using here(2) S S1 by (simp add: tables_at_def)
    qed
    then show ?thesis
      using ok locks log(3) by (simp add: machine_ok_def lock(3) le_max_iff_disj)
  next
    case skipped
    then obtain S1 where S1: "machine_at C log (Suc k) = Some S1"
    proof -
      obtain SL where "machine_at C log ?L = Some SL" "?L \<le> length log"
        using ok by (auto simp: machine_ok_def tables_at_def)
      then show thesis
        using machine_at_earlier [OF log(1) _ skipped(2)] that by blast
    qed
    then obtain r1 e1 where "apply_command C (Suc k) c S = Some (r1, e1, S1)"
      using next_at by (cases "apply_command C (Suc k) c S") auto
    then have "sm_advisory S1 = sm_advisory S"
      by (cases rule: apply_command_cases) (use skipped(1) in simp_all)
    then have "locks_at C log (Suc k) (sm_advisory sm)"
      using S1 S(2) by (simp add: locks_at_def)
    moreover have "max k ?L = ?L" "max (Suc k) ?L = ?L"
      using skipped(2) by auto
    ultimately show ?thesis
      using ok log(3) by (simp add: machine_ok_def skipped(3))
  next
    case (executed t1)
    then have "?L \<le> k" by simp
    note at = here [OF this]
    have spec: "sm_last_applied S = k" "control_ok (control_of (sm_tables S))" "typed (sm_tables S)"
      using machine_at_ok [OF log(1) _ S(1)] log(3) reachable_control_ok reachable_typed by auto
    have same: "unmark ?t = unmark (sm_tables S)"
      using at(2) S(1) by (simp add: tables_at_def)
    have ctl: "control_ok (control_of ?t)"
      using spec(2) same by (metis unmark_simps(1))
    have ty: "typed ?t"
      using ok by (simp add: machine_ok_def)
    obtain u where u: "execute_metadata_in_txn C c (sm_tables S) = Some (r, u)" "unmark u = unmark t1"
      using execute_same [OF same ty spec(3,2) c(2) executed(3)] by metis
    have typed1: "typed t1" "typed u"
      using execute_typed executed(3) u(1) ty ctl c(1) spec by blast+
    have typed2: "typed (put_metadata KEY_LAST_APPLIED v t1)" for v
      using typed1 by (simp add: typed_puts utf8_literals)
    have "machine_at C log (Suc k) =
        Some (S\<lparr>sm_tables := put_metadata KEY_LAST_APPLIED (be_bytes 8 (Suc k)) u, sm_last_applied := Suc k\<rparr>)"
      using next_at executed(1) u(1) spec(1) by (simp add: apply_command_def)
    then have "tables_at C log (Suc k) (put_metadata KEY_LAST_APPLIED (be_bytes 8 (Suc k)) t1)"
      "locks_at C log (Suc k) (sm_advisory sm)"
      using u(2) typed1 S(2) by (simp_all add: tables_at_def locks_at_def unmark_marker)
    moreover have "Suc k < 2 ^ 64"
      using log(2,3) by simp
    ultimately show ?thesis
      using log(3) typed2 by (auto simp: machine_ok_def executed(4) stored_marker)
  qed
qed

section \<open>Every step keeps the invariant\<close>

lemma apply_entries_keep:
  "apply_entries C i es zr = Some zr' \<Longrightarrow>
     zr_snapshot zr' = zr_snapshot zr \<and> zr_first zr' = zr_first zr \<and> zr_applied zr' = zr_applied zr"
proof (induction es arbitrary: i zr)
  case (Cons e es)
  then obtain zr1 where "apply_entry C i e zr = Some zr1" "apply_entries C (i + 1) es zr1 = Some zr'"
    by (auto simp: bind_eq_Some_conv)
  then show ?case
    using Cons.IH [of "i + 1" zr1] by (auto simp: apply_entry_def bind_eq_Some_conv split: option.split_asm)
qed simp

lemma apply_entries_ok:
  assumes log: "list_all entry_ok log" "length log < 2 ^ 64"
  shows "machine_ok C log k (zr_machine zr) \<Longrightarrow> k \<le> n \<Longrightarrow> n \<le> length log \<Longrightarrow>
    apply_entries C (Suc k) (drop k (take n log)) zr = Some zr' \<Longrightarrow> machine_ok C log n (zr_machine zr')"
proof (induction "n - k" arbitrary: k zr)
  case 0
  then show ?case by simp
next
  case (Suc d)
  then have k: "k < n" "k < length log" by simp_all
  obtain c where c: "entry_command (log ! k) = Some c"
    using entry_okE [OF log(1) k(2)] by metis
  have "drop k (take n log) = log ! k # drop (Suc k) (take n log)"
    using k by (simp flip: Cons_nth_drop_Suc)
  then obtain zr1 where zr1: "apply_entry C (Suc k) (log ! k) zr = Some zr1"
    "apply_entries C (Suc (Suc k)) (drop (Suc k) (take n log)) zr1 = Some zr'"
    using Suc.prems(4) by (auto simp: bind_eq_Some_conv)
  then obtain r ev where "apply_command C (Suc k) c (zr_machine zr) = Some (r, ev, zr_machine zr1)"
    using c by (auto simp: apply_entry_def bind_eq_Some_conv)
  then have "machine_ok C log (Suc k) (zr_machine zr1)"
    using apply_command_ok [OF log k(2) c Suc.prems(1)] by blast
  then show ?case
    using Suc.hyps(1) [of "Suc k" zr1] Suc.hyps(2) Suc.prems(3) k zr1(2) by simp
qed

lemma machine_ok_restart:
  assumes "machine_ok C log k sm" and "state_machine_new (sm_tables sm) = Inr sm'"
  shows "machine_ok C log 0 sm'"
proof -
  have sm': "sm_tables sm' = sm_tables sm" "sm_advisory sm' = lock_state_new"
    "sm_last_applied sm' = stored_index (sm_tables sm)"
    using assms(2)
    by (auto simp: state_machine_new_def with_advisory_def stored_index_def split: option.split_asm if_split_asm)
  have "locks_at C log 0 lock_state_new"
    by (simp add: locks_at_def fresh_machine_def)
  then show ?thesis
    using assms(1) by (auto simp: machine_ok_def sm')
qed

lemma machine_ok_snapshot:
  assumes "list_all entry_ok log" "length log < 2 ^ 64" and "machine_ok C log k sm" and "sm_last_applied sm = k"
  shows "machine_ok C log k (restore_snapshot (snapshot sm))"
proof -
  let ?sm = "restore_snapshot (snapshot sm)"
  have at: "tables_at C log k (sm_tables sm)" and ty: "typed (sm_tables sm)" and k: "k \<le> length log"
    using assms(3,4) by (auto simp: machine_ok_def)
  obtain S where S: "machine_at C log k = Some S" "unmark (sm_tables S) = unmark (sm_tables sm)"
    using at by (auto simp: tables_at_def)
  have "only_paths (sm_tables S)"
    using machine_at_ok(2) [OF assms(1) k S(1)] .
  then have "only_paths (sm_tables sm)"
    using S(2) unmark_lookup by (metis only_paths_def)
  note r = snapshot_restores [OF ty this]
  have "stored_index (sm_tables ?sm) = k" "marker_ok (sm_tables ?sm)"
    using k assms(2,4) r(6) by (simp_all add: stored_index_def marker_ok_def r(5))
  moreover have "tables_at C log k (sm_tables ?sm)"
    using at r(1) by (simp add: tables_at_def)
  ultimately show ?thesis
    using assms(3,4) r by (auto simp: machine_ok_def)
qed

lemma replica_step_ok:
  assumes log: "list_all entry_ok log" "length log < 2 ^ 64"
    and step: "replica_step C log threshold True zr zr'" and ok: "replica_ok C log zr"
  shows "replica_ok C log zr'"
  using step
proof cases
  case (persisted n)
  then show ?thesis using ok by (simp add: replica_ok_def)
next
  case (applied n)
  then obtain zr1 where zr1: "zr' = zr1\<lparr>zr_applied := n\<rparr>"
    "apply_entries C (Suc (zr_applied zr)) (drop (zr_applied zr) (take n log)) zr = Some zr1"
    by (auto simp: apply_committed_def)
  have "machine_ok C log (zr_applied zr) (zr_machine zr)"
    using ok by (simp add: replica_ok_def)
  then have "machine_ok C log n (zr_machine zr1)"
    using apply_entries_ok [OF log _ applied(2,4) zr1(2)] by blast
  then show ?thesis
    using apply_entries_keep [OF zr1(2)] ok by (simp add: replica_ok_def zr1(1))
next
  case compacted
  let ?L = "sm_last_applied (zr_machine zr)"
  have "zr' = zr \<or> zr_first zr \<le> ?L \<and> zr_snapshot zr' = Some (?L, snapshot (zr_machine zr)) \<and> zr_first zr' = ?L + 1 \<and>
      zr_machine zr' = zr_machine zr \<and> zr_applied zr' = zr_applied zr"
    by (auto simp: compacted(1) maybe_snapshot_and_compact_def enough_to_compact_def Let_def)
  moreover have "1 \<le> zr_first zr"
    using ok by (cases "zr_snapshot zr") (auto simp: replica_ok_def)
  moreover have "?L = zr_applied zr"
    using compacted(2) by (simp add: consistent_cut_def)
  ultimately show ?thesis
    using ok machine_ok_snapshot [OF log, of C ?L "zr_machine zr"] by (auto simp: replica_ok_def)
next
  case (restarted policy)
  then obtain sm where sm: "state_machine_new (sm_tables (zr_machine zr)) = Inr sm"
    by (auto simp: open_zone_def split: sum.split_asm)
  have "machine_ok C log 0 sm"
    using machine_ok_restart [OF _ sm] ok by (auto simp: replica_ok_def)
  then show ?thesis
    using restarted ok sm
    by (auto simp: open_zone_def Let_def replica_ok_def case_eqs split: if_split_asm)
qed

lemma started_ok:
  assumes "started log zr"
  shows "replica_ok C log zr"
proof -
  have zero: "machine_ok C log 0 fresh_machine"
    by (auto simp: machine_ok_def tables_at_def locks_at_def fresh_machine_def no_tables_def typed_def
        marker_ok_def stored_index_def)
  have one: "machine_ok C (EntryConfChange True # es) 1 fresh_machine" for es
  proof -
    have "machine_at C (EntryConfChange True # es) 1 =
        Some (fresh_machine\<lparr>sm_tables := put_metadata KEY_LAST_APPLIED (be_bytes 8 1) no_tables, sm_last_applied := 1\<rparr>)"
      by (simp add: machine_at_def map_filter_def apply_command_def execute_metadata_in_txn_def
          record_guard_refusal_def guarded_record_key_def fresh_machine_def)
    moreover have "typed no_tables"
      by (simp add: no_tables_def typed_def)
    ultimately have "tables_at C (EntryConfChange True # es) n no_tables" if "n \<le> 1" for n
      using that unmark_marker [of no_tables] by (cases n) (auto simp: tables_at_def fresh_machine_def)
    then show ?thesis
      using \<open>machine_at C _ 1 = _\<close> \<open>typed no_tables\<close>
      by (auto simp: machine_ok_def locks_at_def fresh_machine_def marker_ok_def stored_index_def no_tables_def)
  qed
  show ?thesis
    using assms zero one by (auto simp: started_def replica_ok_def new_replica_def)
qed

lemma cluster_run_ok:
  assumes log: "list_all entry_ok log" "length log < 2 ^ 64"
    and "(cluster_step C log threshold True)\<^sup>*\<^sup>* c0 c" and "\<forall>i. started log (c0 i)"
  shows "replica_ok C log (c i)"
  using assms(3)
proof (induction arbitrary: i)
  case base
  show ?case using assms(4) started_ok by blast
next
  case (step c1 c2)
  from step(2) show ?case
  proof cases
    case (local j zr)
    then show ?thesis
      using step(3) replica_step_ok [OF log local(2)] by simp
  next
    case (installed k index ss j)
    then show ?thesis
      using step(3) [of k] step(3) [of i] by (auto simp: replica_ok_def install_snapshot_def)
  qed
qed

lemma replica_event_step:
  "replica_event C log threshold strict e zr = Some zr' \<Longrightarrow> replica_step C log threshold strict zr zr'"
  by (cases e) (auto intro: replica_step.intros split: if_split_asm sum.split_asm)

lemma replica_run_steps:
  "replica_run C log threshold strict es zr = Some zr' \<Longrightarrow> (replica_step C log threshold strict)\<^sup>*\<^sup>* zr zr'"
proof (induction es arbitrary: zr)
  case (Cons e es)
  then obtain zr1 where "replica_event C log threshold strict e zr = Some zr1"
    "replica_run C log threshold strict es zr1 = Some zr'"
    by (auto simp: bind_eq_Some_conv)
  then show ?case
    using Cons.IH replica_event_step by (meson converse_rtranclp_into_rtranclp)
qed simp

lemma local_run:
  assumes "(replica_step C log threshold strict)\<^sup>*\<^sup>* zr zr'" and "c i = zr"
  shows "(cluster_step C log threshold strict)\<^sup>*\<^sup>* c (c(i := zr'))"
  using assms(1)
proof induction
  case base
  have "c(i := zr) = c" using assms(2) by (simp add: fun_upd_idem)
  then show ?case by simp
next
  case (step zr1 zr2)
  have "cluster_step C log threshold strict (c(i := zr1)) ((c(i := zr1))(i := zr2))"
    using step(2) by (intro cluster_step.local) simp
  then show ?case
    unfolding fun_upd_upd using step(3) by (rule rtranclp.rtrancl_into_rtrancl [rotated])
qed

declare replica_run.simps [simp del]

lemma cases_hold:
  "(case x of None \<Rightarrow> False | Some a \<Rightarrow> P a) \<longleftrightarrow> (\<exists>a. x = Some a \<and> P a)"
  "(case y of Inl _ \<Rightarrow> False | Inr b \<Rightarrow> Q b) \<longleftrightarrow> (\<exists>b. y = Inr b \<and> Q b)"
  by (auto split: option.split sum.split)

section \<open>Properties\<close>


definition example_log :: "LogEntry list" where
  "example_log =
     [EntryConfChange True, EntryNormal (AcquireLock ''/a'' ''l1'' 1 60 ''n'' 5), EntryNormal (SetMetadata ''/a'' [1]),
      EntryEmpty]"

definition example_events :: "ReplicaEvent list" where
  "example_events =
     [Persist 4, Commit 3, Restart Managed, Commit 4, Compact, Restart Managed]"


text \<open>
  C35.  A snapshot taken while the machine is ahead of what raft-rs has applied loses
  locks: a node that crashes after applying a lock and a later write restarts
  with an empty lock table and the index of the write.  A compaction before the
  log is applied again stores that table, and drops the entry of the lock.  The
  node then has caught up with the log and does not hold the lock.
\<close>

theorem replayed_compaction_loses_lock:
  "\<exists>zr S. replica_run no_codec example_log 1 False
       [Persist 3, Commit 3, Restart Managed, Compact, Restart Managed] (new_replica 1) = Some zr \<and>
     zr_applied zr = 3 \<and> sm_last_applied (zr_machine zr) = 3 \<and> machine_at no_codec example_log 3 = Some S \<and>
     get_lock (sm_advisory S) ''/a'' \<noteq> None \<and> get_lock (sm_advisory (zr_machine zr)) ''/a'' = None"
proof -
  have "case (replica_run no_codec example_log 1 False
       [Persist 3, Commit 3, Restart Managed, Compact, Restart Managed] (new_replica 1), machine_at no_codec example_log 3) of
      (Some zr, Some S) \<Rightarrow> zr_applied zr = 3 \<and> sm_last_applied (zr_machine zr) = 3 \<and>
        get_lock (sm_advisory S) ''/a'' \<noteq> None \<and> get_lock (sm_advisory (zr_machine zr)) ''/a'' = None
    | _ \<Rightarrow> False"
    by code_simp
  then show ?thesis
    by (auto split: option.split_asm)
qed

text \<open>
  C36.  The number of mounts of a zone does not survive a snapshot: its counter has a
  reserved key, which snapshots leave out.  After a compaction and a restart
  the count reads zero, and the zone can be removed while it is mounted.
\<close>

theorem snapshot_loses_link_count:
  "\<exists>zr S. replica_run no_codec [EntryEmpty, EntryNormal (AdjustCounter I_LINKS_COUNT_KEY 1)] 1 True
       [Persist 2, Commit 2, Compact, Restart Managed] (new_replica 0) = Some zr \<and>
     machine_at no_codec [EntryEmpty, EntryNormal (AdjustCounter I_LINKS_COUNT_KEY 1)] 2 = Some S \<and>
     remove_zone_admission ''z'' False (Some S) = Inl InvalidState \<and>
     zr_applied zr = 2 \<and> remove_zone_admission ''z'' False (Some (zr_machine zr)) = Inr ()"
proof -
  let ?log = "[EntryEmpty, EntryNormal (AdjustCounter I_LINKS_COUNT_KEY 1)]"
  have "case (replica_run no_codec ?log 1 True [Persist 2, Commit 2, Compact, Restart Managed] (new_replica 0),
       machine_at no_codec ?log 2) of
      (Some zr, Some S) \<Rightarrow> remove_zone_admission ''z'' False (Some S) = Inl InvalidState \<and>
        zr_applied zr = 2 \<and> remove_zone_admission ''z'' False (Some (zr_machine zr)) = Inr ()
    | _ \<Rightarrow> False"
    by code_simp
  then show ?thesis
    by (auto split: option.split_asm)
qed

text \<open>
  C37.  A restart takes back eventually consistent writes: opening a zone restores the
  whole stored snapshot over the tables, and a write made locally since the
  snapshot is in no log entry that would be applied again.
\<close>

theorem restart_rewinds_local_write:
  "\<exists>zr sm zr'. replica_run no_codec [EntryEmpty, EntryNormal (SetMetadata ''/a'' [1])] 1 True
       [Persist 2, Commit 2, Compact] (new_replica 0) = Some zr \<and>
     apply_local (SetMetadata ''/b'' [2]) (zr_machine zr) = Some (Inr (Success, sm)) \<and>
     get_metadata ''/b'' (sm_tables sm) = Some [2] \<and>
     open_zone Managed (zr\<lparr>zr_machine := sm\<rparr>) = Inr zr' \<and> get_metadata ''/a'' (sm_tables (zr_machine zr')) = Some [1] \<and>
     zr_applied zr' = 2 \<and> get_metadata ''/b'' (sm_tables (zr_machine zr')) = None"
proof -
  have "case replica_run no_codec [EntryEmpty, EntryNormal (SetMetadata ''/a'' [1])] 1 True
       [Persist 2, Commit 2, Compact] (new_replica 0) of
      None \<Rightarrow> False
    | Some zr \<Rightarrow>
        (case apply_local (SetMetadata ''/b'' [2]) (zr_machine zr) of
           Some (Inr (r, sm)) \<Rightarrow> r = Success \<and> get_metadata ''/b'' (sm_tables sm) = Some [2] \<and>
             (case open_zone Managed (zr\<lparr>zr_machine := sm\<rparr>) of
                Inr zr' \<Rightarrow> get_metadata ''/a'' (sm_tables (zr_machine zr')) = Some [1] \<and> zr_applied zr' = 2 \<and>
                  get_metadata ''/b'' (sm_tables (zr_machine zr')) = None
              | Inl _ \<Rightarrow> False)
         | _ \<Rightarrow> False)"
    by code_simp
  then show ?thesis
    by (auto simp: cases_hold)
qed

end
