(* ===== verification/Ec_Write.thy ===== *)
theory Ec_Write
  imports Machine_Types Replication_Log
begin

text \<open>
  The eventually consistent write path of a zone: the local write that goes to
  the replication log first and to the state machine second
  (\<^verbatim>\<open>propose_ec_local\<close>), and the write received from a peer, which the last writer
  wins (\<^verbatim>\<open>apply_ec_from_peer\<close>), both of \<^verbatim>\<open>raft/src/raft/node.rs\<close>.  The serialisation
  of a command is a parameter.
\<close>

section \<open>Writes\<close>

record EcNode =
  ec_machine :: FullStateMachine
  ec_log :: "ReplicationLog option"

text \<open>\<^term>\<open>None\<close> is a version scan that does not end.\<close>

definition propose_ec_local ::
  "(Command \<Rightarrow> bytes) \<Rightarrow> nat \<Rightarrow> Command \<Rightarrow> EcNode \<Rightarrow> ((RaftError + nat) \<times> EcNode) option" where
  "propose_ec_local serialize now c node =
     (case requires_strong_consistency c (sm_tables (ec_machine node)) of
        Inl e \<Rightarrow> Some (Inl e, node)
      | Inr True \<Rightarrow> Some (Inl InvalidState, node)
      | Inr False \<Rightarrow>
          (case ec_log node of
             None \<Rightarrow> Some (Inl InvalidState, node)
           | Some l \<Rightarrow>
               (case replication_append (serialize c) now l of
                  (seq, l1) \<Rightarrow>
                    do {
                      r \<leftarrow> apply_local c (ec_machine node);
                      Some (case r of
                              Inl e \<Rightarrow> (Inl e, node\<lparr>ec_log := Some (remove_entry seq l1)\<rparr>)
                            | Inr (_, sm) \<Rightarrow> (Inr seq, node\<lparr>ec_machine := sm, ec_log := Some l1\<rparr>))
                    })))"

definition apply_ec_from_peer ::
  "MetadataCodec \<Rightarrow> Command \<Rightarrow> u64 \<Rightarrow> FullStateMachine \<Rightarrow> RaftError + CommandResult \<times> FullStateMachine" where
  "apply_ec_from_peer C c entry_timestamp sm =
     (case requires_strong_consistency c (sm_tables sm) of
        Inl e \<Rightarrow> Inl e
      | Inr True \<Rightarrow> Inr (Success, sm)
      | Inr False \<Rightarrow> apply_ec_with_lww C c entry_timestamp sm)"

text \<open>The writes of several messages, in the order of their arrival.\<close>

fun apply_ec_writes ::
  "MetadataCodec \<Rightarrow> (Command \<times> u64) list \<Rightarrow> FullStateMachine \<Rightarrow> RaftError + FullStateMachine" where
  "apply_ec_writes C [] sm = Inr sm"
| "apply_ec_writes C ((c, ts) # ws) sm =
     (case apply_ec_from_peer C c ts sm of
        Inl e \<Rightarrow> Inl e
      | Inr (_, sm') \<Rightarrow> apply_ec_writes C ws sm')"

section \<open>The newest image wins\<close>

fun is_set :: "Command \<Rightarrow> bool" where
  "is_set (SetMetadata k v) = True"
| "is_set _ = False"

lemma set_from_peer:
  assumes "control_ok (control_of (sm_tables sm))"
  shows "apply_ec_from_peer C (SetMetadata k v) ts sm =
    (if is_managed_content_path k \<or> control_of (sm_tables sm) (policy_key k) \<noteq> None then Inr (Success, sm)
     else case map_of (tb_metadata (sm_tables sm)) k of
            Some w \<Rightarrow>
              if decode_modified_at C v < decode_modified_at C w then Inr (Success, sm)
              else Inr (Success, sm\<lparr>sm_tables := put_metadata k v (sm_tables sm)\<rparr>)
          | None \<Rightarrow> Inr (Success, sm\<lparr>sm_tables := put_metadata k v (sm_tables sm)\<rparr>))"
  using decode_policy_ok [OF control_okD(4) [OF assms, of k]]
  by (cases "control_of (sm_tables sm) (policy_key k)")
    (auto simp: apply_ec_from_peer_def apply_ec_with_lww_def requires_strong_consistency_def requires_conditional_sc_def
      ordinary_write_is_protected_def is_protected_metadata_def decode_policy_def apply_set_metadata_def
      split: option.split)

text \<open>The images that compete for a key: the stored one and those the writes carry.\<close>

definition images_of :: "(Command \<times> u64) list \<Rightarrow> string \<Rightarrow> bytes set" where
  "images_of ws k = {v. \<exists>ts. (SetMetadata k v, ts) \<in> set ws}"

definition candidates :: "(string \<rightharpoonup> bytes) \<Rightarrow> (Command \<times> u64) list \<Rightarrow> string \<Rightarrow> bytes set" where
  "candidates m ws k = {v. m k = Some v} \<union> images_of ws k"

definition newest :: "(bytes \<Rightarrow> string) \<Rightarrow> bytes set \<Rightarrow> bytes option \<Rightarrow> bool" where
  "newest time S r \<longleftrightarrow> (case r of None \<Rightarrow> S = {} | Some v \<Rightarrow> v \<in> S \<and> (\<forall>w \<in> S. time w \<le> time v))"

lemma newest_older: "newest time S r \<Longrightarrow> w \<in> S \<Longrightarrow> time v \<le> time w \<Longrightarrow> newest time (insert v S) r"
  by (force simp: newest_def split: option.split_asm)

lemma newest_unique:
  "newest time S r \<Longrightarrow> newest time S r' \<Longrightarrow> inj_on time S \<Longrightarrow> r = r'"
  by (cases r; cases r') (auto simp: newest_def inj_on_def, meson order_antisym)

lemma candidates_Cons:
  "candidates m ((SetMetadata k v, ts) # ws) k' =
     (if k' = k then insert v (candidates m ws k') else candidates m ws k')"
  by (auto simp: candidates_def images_of_def)

lemma candidates_put:
  "candidates (m(k \<mapsto> v)) ws k' =
     (if k' = k then insert v (images_of ws k') else candidates m ws k')"
  by (auto simp: candidates_def)

definition writable :: "Tables \<Rightarrow> string \<Rightarrow> bool" where
  "writable t k \<longleftrightarrow> \<not> is_managed_content_path k \<and> control_of t (policy_key k) = None"

lemma set_from_peer_cases:
  assumes "control_ok (control_of (sm_tables sm))"
  obtains (skip) "apply_ec_from_peer C (SetMetadata k v) ts sm = Inr (Success, sm)"
      "writable (sm_tables sm) k \<longrightarrow>
        (\<exists>u. map_of (tb_metadata (sm_tables sm)) k = Some u \<and> decode_modified_at C v \<le> decode_modified_at C u)"
  | (put) "apply_ec_from_peer C (SetMetadata k v) ts sm = Inr (Success, sm\<lparr>sm_tables := put_metadata k v (sm_tables sm)\<rparr>)"
      "writable (sm_tables sm) k"
      "\<forall>u. map_of (tb_metadata (sm_tables sm)) k = Some u \<longrightarrow> decode_modified_at C u \<le> decode_modified_at C v"
proof (cases "writable (sm_tables sm) k")
  case False
  then show thesis
    using skip by (auto simp: set_from_peer [OF assms] writable_def)
next
  case True
  note rule = set_from_peer [OF assms, of C k v ts]
  show thesis
  proof (cases "map_of (tb_metadata (sm_tables sm)) k")
    case None
    then show thesis using put rule True by (simp add: writable_def)
  next
    case (Some u)
    show thesis
    proof (cases "decode_modified_at C v < decode_modified_at C u")
      case older: True
      then show thesis using skip rule True Some by (simp add: writable_def less_imp_le)
    next
      case newer: False
      then show thesis using put rule True Some by (simp add: writable_def)
    qed
  qed
qed

lemma sets_from_peers:
  assumes "control_ok (control_of (sm_tables sm))" and "om_wf (tb_metadata (sm_tables sm))" and "\<forall>w \<in> set ws. is_set (fst w)"
  shows "\<exists>m. apply_ec_writes C ws sm = Inr (sm\<lparr>sm_tables := (sm_tables sm)\<lparr>tb_metadata := m\<rparr>\<rparr>) \<and> om_wf m \<and>
    (\<forall>k. if writable (sm_tables sm) k
         then newest (decode_modified_at C) (candidates (map_of (tb_metadata (sm_tables sm))) ws k) (map_of m k)
         else map_of m k = map_of (tb_metadata (sm_tables sm)) k)"
  using assms
proof (induction ws arbitrary: sm)
  case Nil
  then show ?case
    by (intro exI [of _ "tb_metadata (sm_tables sm)"])
      (auto simp: candidates_def images_of_def newest_def split: option.split)
next
  case (Cons w ws)
  obtain k v ts where w: "w = (SetMetadata k v, ts)"
    using Cons.prems(3) by (cases w; cases "fst w") auto
  let ?t = "sm_tables sm" and ?time = "decode_modified_at C"
  let ?md = "tb_metadata ?t"
  show ?case
  proof (cases rule: set_from_peer_cases [OF Cons.prems(1), where C = C and k = k and v = v and ts = ts,
        case_names skip put])
    case skip
    obtain m where m: "apply_ec_writes C ws sm = Inr (sm\<lparr>sm_tables := ?t\<lparr>tb_metadata := m\<rparr>\<rparr>)" "om_wf m"
      "\<forall>k'. if writable ?t k' then newest ?time (candidates (map_of ?md) ws k') (map_of m k')
        else map_of m k' = map_of ?md k'"
      using Cons.IH [OF Cons.prems(1,2)] Cons.prems(3) by auto
    have "newest ?time (candidates (map_of ?md) (w # ws) k') (map_of m k')" if here: "writable ?t k'" for k'
    proof (cases "k' = k")
      case True
      then obtain u where u: "map_of ?md k = Some u" "?time v \<le> ?time u"
        using skip(2) here by blast
      then have "newest ?time (insert v (candidates (map_of ?md) ws k)) (map_of m k)"
        using spec [OF m(3), of k] here True by (intro newest_older [where w = u]) (auto simp: candidates_def)
      then show ?thesis
        by (simp add: True w candidates_Cons)
    qed (use spec [OF m(3), of k'] here in \<open>simp add: w candidates_Cons\<close>)
    then show ?thesis
      using m skip(1) by (intro exI [of _ m]) (simp add: w)
  next
    case put
    let ?sm = "sm\<lparr>sm_tables := put_metadata k v ?t\<rparr>"
    have wf: "om_wf (tb_metadata (sm_tables ?sm))"
      using Cons.prems(2) by (simp add: put_metadata_def om_put_wf)
    obtain m where m: "apply_ec_writes C ws ?sm = Inr (?sm\<lparr>sm_tables := (sm_tables ?sm)\<lparr>tb_metadata := m\<rparr>\<rparr>)" "om_wf m"
      "\<forall>k'. if writable (sm_tables ?sm) k'
        then newest ?time (candidates (map_of (tb_metadata (sm_tables ?sm))) ws k') (map_of m k')
        else map_of m k' = map_of (tb_metadata (sm_tables ?sm)) k'"
      using Cons.IH [OF _ wf] Cons.prems(1,3) by auto
    have wr: "writable (sm_tables ?sm) k' = writable ?t k'" for k'
      by (simp add: writable_def)
    have "newest ?time (candidates (map_of ?md) (w # ws) k') (map_of m k')" if here: "writable ?t k'" for k'
    proof (cases "k' = k")
      case True
      have n: "newest ?time (insert v (images_of ws k)) (map_of m k)"
        using spec [OF m(3), of k] here True wr by (simp add: candidates_put)
      show ?thesis
      proof (cases "map_of ?md k")
        case (Some u)
        then have "newest ?time (insert u (insert v (images_of ws k))) (map_of m k)"
          using newest_older [OF n, of v u] put(3) by simp
        then show ?thesis
          using Some by (simp add: True w candidates_Cons) (simp add: candidates_def insert_commute)
      qed (use n in \<open>simp add: True w candidates_Cons, simp add: candidates_def\<close>)
    qed (use spec [OF m(3), of k'] here wr in \<open>simp add: w candidates_Cons candidates_put\<close>)
    moreover have "map_of m k' = map_of ?md k'" if "\<not> writable ?t k'" for k'
      using spec [OF m(3), of k'] that put(2) wr by auto
    ultimately show ?thesis
      using m put(1) by (intro exI [of _ m]) (auto simp: w put_metadata_def)
  qed
qed

section \<open>Properties\<close>


text \<open>Images whose whole text is their time, and times that are decimal numbers of seconds.\<close>

definition time_codec :: MetadataCodec where
  "time_codec =
     \<lparr>mc_decode = (\<lambda>bs. Some
        \<lparr>fm_path = [], fm_size = 0, fm_content_id = [], fm_mime_type = [], fm_created_at = [],
         fm_modified_at = map (\<lambda>b. char_of (unat b)) bs, fm_version = 0, fm_zone_id = [], fm_owner_id = [],
         fm_entry_type = 0, fm_target_zone_id = [], fm_ttl_seconds = [], fm_last_writer_address = [],
         fm_link_target = [], fm_gen = 0, fm_target_subtree = []\<rparr>),
      mc_encode = (\<lambda>_. []), mc_parse_time = (\<lambda>s. Some (word_of_nat (dec_value s)))\<rparr>"


text \<open>
  C38.  Deletions leave no trace, so they do not converge: a node that receives an
  older image after the deletion of its key holds the image, and a node that
  receives it before does not.
\<close>

theorem ec_delete_diverges:
  "\<exists>s1 s2. apply_ec_writes time_codec [(SetMetadata ''/a'' [53], 0), (DeleteMetadata ''/a'', 9)] fresh_machine = Inr s1 \<and>
     apply_ec_writes time_codec [(DeleteMetadata ''/a'', 9), (SetMetadata ''/a'' [53], 0)] fresh_machine = Inr s2 \<and>
     get_metadata ''/a'' (sm_tables s1) = None \<and> get_metadata ''/a'' (sm_tables s2) = Some [53]"
proof -
  have "case apply_ec_writes time_codec [(SetMetadata ''/a'' [53], 0), (DeleteMetadata ''/a'', 9)] fresh_machine of
      Inl _ \<Rightarrow> False
    | Inr s1 \<Rightarrow>
        (case apply_ec_writes time_codec [(DeleteMetadata ''/a'', 9), (SetMetadata ''/a'' [53], 0)] fresh_machine of
           Inl _ \<Rightarrow> False
         | Inr s2 \<Rightarrow> get_metadata ''/a'' (sm_tables s1) = None \<and> get_metadata ''/a'' (sm_tables s2) = Some [53])"
    by code_simp
  then show ?thesis
    by (auto split: sum.split_asm)
qed

text \<open>
  A local write reaches the log before the machine, and leaves nothing behind
  when it fails: on success the token is the next number of the log, the log
  holds the serialised command under it and the machine has applied the
  command; on failure the machine and the entries of the log are as before.
\<close>

theorem ec_write_wal_first:
  assumes "propose_ec_local serialize now c node = Some (r, node')"
    and "ec_log node = Some l" and "om_wf (rl_log l)" and "map_of (rl_log l) (rl_next_seq l) = None"
  shows "\<exists>l'. ec_log node' = Some l' \<and>
    (case r of
       Inr seq \<Rightarrow> seq = rl_next_seq l \<and> rl_next_seq l' = seq + 1 \<and>
         map_of (rl_log l') = (map_of (rl_log l))(seq \<mapsto>
           \<lparr>re_command = serialize c, re_timestamp = now, re_node_id = rl_node_id l\<rparr>) \<and>
         (\<exists>res. apply_local c (ec_machine node) = Some (Inr (res, ec_machine node')))
     | Inl e \<Rightarrow> ec_machine node' = ec_machine node \<and> rl_log l' = rl_log l)"
proof -
  have append: "replication_append (serialize c) now l =
      (rl_next_seq l, commit_entry (rl_next_seq l) (serialize c) now (l\<lparr>rl_next_seq := rl_next_seq l + 1\<rparr>))"
    by (simp add: replication_append_def allocate_seq_def)
  have undo: "om_del (rl_next_seq l) (om_put (rl_next_seq l) e (rl_log l)) = rl_log l" for e
    using assms(3,4) by (intro om_ext) (auto simp: om_put_wf)
  show ?thesis
    using assms(1,2) append
    by (auto simp: propose_ec_local_def bind_eq_Some_conv case_eqs commit_entry_def remove_entry_def Let_def undo
        split: bool.split_asm)
qed

theorem ec_write_wal_first_witness:
  "\<exists>node' l'. propose_ec_local (\<lambda>_. [1]) 3 (SetMetadata ''/a'' [53])
       \<lparr>ec_machine = fresh_machine, ec_log = Some (rr_log (replication_init 7))\<rparr> = Some (Inr 1, node') \<and>
     ec_log node' = Some l' \<and> map_of (rl_log l') 1 = Some \<lparr>re_command = [1], re_timestamp = 3, re_node_id = 7\<rparr>"
proof -
  let ?node = "\<lparr>ec_machine = fresh_machine, ec_log = Some (rr_log (replication_init 7))\<rparr>"
  have "case propose_ec_local (\<lambda>_. [1]) 3 (SetMetadata ''/a'' [53]) ?node of
      Some (Inr seq, _) \<Rightarrow> seq = 1
    | _ \<Rightarrow> False"
    by code_simp
  then obtain node' where run: "propose_ec_local (\<lambda>_. [1]) 3 (SetMetadata ''/a'' [53]) ?node = Some (Inr 1, node')"
    by (auto split: option.split_asm sum.split_asm)
  then show ?thesis
    using ec_write_wal_first [OF run, of "rr_log (replication_init 7)"]
    by (auto simp: replication_init_def replication_log_new_def)
qed

end
