(* ===== verification/Ec_Replication.thy ===== *)
theory Ec_Replication
  imports Ec_Write
begin

text \<open>
  The background replication of eventually consistent writes: the sender of
  \<^verbatim>\<open>raft/src/transport/transport_loop.rs\<close>, which drains the replication log to every
  peer, advances the watermark with the acknowledgements of a majority and
  compacts the log, and the two receiving calls of \<^verbatim>\<open>transport/server.rs\<close>.  Time is
  a number of milliseconds given to each tick; the network is the steps that
  deliver, drop or lose the answer of a message.
\<close>

section \<open>The sender\<close>

definition EC_BACKOFF_BASE :: nat where
  "EC_BACKOFF_BASE = 100"

definition EC_BACKOFF_CAP :: nat where
  "EC_BACKOFF_CAP = 10000"

definition EC_MAX_ENTRIES_PER_BATCH :: nat where
  "EC_MAX_ENTRIES_PER_BATCH = 500"

record PeerReplicationState =
  ps_acked_seq :: nat
  ps_backoff :: nat
  ps_next_attempt :: nat
  ps_needs_snapshot :: bool
  ps_in_flight :: bool

type_synonym peer_states = "nat \<rightharpoonup> PeerReplicationState"
type_synonym ec_entries = "(nat \<times> ReplicationEntry) list"

definition peer_replication_state_new :: "nat \<Rightarrow> PeerReplicationState" where
  "peer_replication_state_new now =
     \<lparr>ps_acked_seq = 0, ps_backoff = EC_BACKOFF_BASE, ps_next_attempt = now, ps_needs_snapshot = False,
      ps_in_flight = False\<rparr>"

definition reset_backoff :: "nat \<Rightarrow> PeerReplicationState \<Rightarrow> PeerReplicationState" where
  "reset_backoff now st = st\<lparr>ps_backoff := EC_BACKOFF_BASE, ps_next_attempt := now\<rparr>"

definition increase_backoff :: "nat \<Rightarrow> PeerReplicationState \<Rightarrow> PeerReplicationState" where
  "increase_backoff now st =
     (let backoff = min (ps_backoff st * 2) EC_BACKOFF_CAP in
      st\<lparr>ps_backoff := backoff, ps_next_attempt := now + backoff\<rparr>)"

datatype EcCompletion = Acked nat nat | Failed nat

text \<open>One completion of a send, at the top of a tick.\<close>

fun handle_completion :: "nat \<Rightarrow> EcCompletion \<Rightarrow> peer_states \<Rightarrow> peer_states" where
  "handle_completion now (Acked peer applied_up_to) peers =
     (case peers peer of
        None \<Rightarrow> peers
      | Some st \<Rightarrow>
          peers(peer \<mapsto> reset_backoff now
            (st\<lparr>ps_in_flight := False, ps_acked_seq := max (ps_acked_seq st) applied_up_to\<rparr>)))"
| "handle_completion now (Failed peer) peers =
     (case peers peer of
        None \<Rightarrow> peers
      | Some st \<Rightarrow> peers(peer \<mapsto> increase_backoff now (st\<lparr>ps_in_flight := False\<rparr>)))"

definition compute_ec_watermark :: "peer_states \<Rightarrow> nat list \<Rightarrow> nat \<Rightarrow> nat option" where
  "compute_ec_watermark peers voters self =
     (let needed_peer_acks = length voters div 2 in
      if needed_peer_acks = 0 then None
      else
        let acks = rev (sort (List.map_filter (\<lambda>v. map_option ps_acked_seq (peers v)) (filter (\<lambda>v. v \<noteq> self) voters))) in
        if needed_peer_acks - 1 < length acks \<and> 0 < acks ! (needed_peer_acks - 1)
        then Some (acks ! (needed_peer_acks - 1)) else None)"

definition ec_compact_floor :: "nat list \<Rightarrow> nat \<Rightarrow> nat \<Rightarrow> nat" where
  "ec_compact_floor peer_acked_seqs max_seq_now retention =
     max (if peer_acked_seqs = [] then 0 else Min (set peer_acked_seqs)) (max_seq_now - retention)"

datatype EcTask = SendBatch ec_entries | SendSnapshot nat

text \<open>The body of the loop over the peers.\<close>

definition schedule_peer ::
  "nat \<Rightarrow> nat \<Rightarrow> nat \<Rightarrow> ec_entries \<Rightarrow> PeerReplicationState \<Rightarrow> EcTask option \<times> PeerReplicationState" where
  "schedule_peer now earliest covering_seq entries st =
     (if ps_in_flight st then (None, st)
      else if now < ps_next_attempt st then (None, st)
      else if ps_needs_snapshot st \<and> ps_acked_seq st < earliest
      then (Some (SendSnapshot covering_seq), st\<lparr>ps_in_flight := True\<rparr>)
      else
        let st1 = st\<lparr>ps_needs_snapshot := False\<rparr> in
        if ps_acked_seq st + 1 < earliest then (None, st1\<lparr>ps_needs_snapshot := True\<rparr>)
        else
          let filtered = take EC_MAX_ENTRIES_PER_BATCH (filter (\<lambda>(seq, _). ps_acked_seq st < seq) entries) in
          if filtered = [] then (None, st1) else (Some (SendBatch filtered), st1\<lparr>ps_in_flight := True\<rparr>))"

fun schedule_peers ::
  "nat \<Rightarrow> nat \<Rightarrow> nat \<Rightarrow> ec_entries \<Rightarrow> nat list \<Rightarrow> peer_states \<Rightarrow> (nat \<times> EcTask) list \<times> peer_states" where
  "schedule_peers now earliest covering_seq entries [] peers = ([], peers)"
| "schedule_peers now earliest covering_seq entries (p # ps) peers =
     (let st = (case peers p of Some st \<Rightarrow> st | None \<Rightarrow> peer_replication_state_new now) in
      case schedule_peer now earliest covering_seq entries st of
        (task, st') \<Rightarrow>
          (case schedule_peers now earliest covering_seq entries ps (peers(p \<mapsto> st')) of
             (tasks, peers') \<Rightarrow> (case task of None \<Rightarrow> tasks | Some x \<Rightarrow> (p, x) # tasks, peers')))"

definition acked_of :: "peer_states \<Rightarrow> nat \<Rightarrow> nat" where
  "acked_of peers p = (case peers p of Some st \<Rightarrow> ps_acked_seq st | None \<Rightarrow> 0)"

definition spawn_ec_replications ::
  "nat \<Rightarrow> nat \<Rightarrow> nat list \<Rightarrow> nat list \<Rightarrow> nat \<Rightarrow> ReplicationLog \<Rightarrow> peer_states
     \<Rightarrow> (nat \<times> EcTask) list \<times> ReplicationLog \<times> peer_states" where
  "spawn_ec_replications now self voters peer_ids retention l peers =
     (let l0 = (if length voters \<le> 1 \<and> 1 < max_seq l then advance_watermark (max_seq l - 1) l else l) in
      if length voters \<le> 1 \<and> peer_ids = [] then ([], l0, peers)
      else
        let entries = drain_unreplicated l0; earliest = earliest_seq l0 in
        if entries = [] \<and> \<not> list_ex (\<lambda>p. acked_of peers p + 1 < earliest) peer_ids then ([], l0, peers)
        else
          (case schedule_peers now earliest (max_seq l0 - 1) entries peer_ids peers of
             (tasks, peers') \<Rightarrow>
               let l1 = (if 2 \<le> length voters
                         then (case compute_ec_watermark peers' voters self of
                                 Some wm \<Rightarrow> advance_watermark wm l0
                               | None \<Rightarrow> l0)
                         else l0);
                   compact_up_to = ec_compact_floor
                     (List.map_filter (\<lambda>p. map_option ps_acked_seq (peers' p)) peer_ids) (max_seq l1) retention
               in (tasks, (if 0 < compact_up_to then snd (replication_compact compact_up_to l1) else l1), peers')))"

section \<open>The receiver\<close>

text \<open>An entry that cannot be decoded is skipped; the first one that cannot be applied ends the call.\<close>

fun replicate_entries ::
  "MetadataCodec \<Rightarrow> (bytes \<Rightarrow> Command option) \<Rightarrow> ec_entries \<Rightarrow> nat \<Rightarrow> FullStateMachine
     \<Rightarrow> bool \<times> nat \<times> FullStateMachine" where
  "replicate_entries C deserialize [] max_applied sm = (True, max_applied, sm)"
| "replicate_entries C deserialize ((seq, e) # es) max_applied sm =
     (case deserialize (re_command e) of
        None \<Rightarrow> replicate_entries C deserialize es (max max_applied seq) sm
      | Some c \<Rightarrow>
          (case apply_ec_from_peer C c (word_of_nat (re_timestamp e)) sm of
             Inl _ \<Rightarrow> (False, max_applied, sm)
           | Inr (_, sm') \<Rightarrow> replicate_entries C deserialize es (max max_applied seq) sm'))"

fun snapshot_ec_state ::
  "MetadataCodec \<Rightarrow> (bytes \<Rightarrow> Command option) \<Rightarrow> bytes list \<Rightarrow> FullStateMachine \<Rightarrow> bool \<times> FullStateMachine" where
  "snapshot_ec_state C deserialize [] sm = (True, sm)"
| "snapshot_ec_state C deserialize (b # bs) sm =
     (case deserialize b of
        None \<Rightarrow> snapshot_ec_state C deserialize bs sm
      | Some c \<Rightarrow>
          (case apply_ec_from_peer C c 0 sm of
             Inl _ \<Rightarrow> (False, sm)
           | Inr (_, sm') \<Rightarrow> snapshot_ec_state C deserialize bs sm'))"

section \<open>Runs\<close>

text \<open>
  A send is under way as a task, as a message with the state it carries, or as
  an answer not yet drained.  The run also records which tokens were handed to
  writers and which numbers each peer has processed, as entries or as part of
  the state of a snapshot.
\<close>

datatype Flight = Sending EcTask | StateMessage nat "bytes list" | Answered EcCompletion

record EcRun =
  er_node :: EcNode
  er_peers :: peer_states
  er_flight :: "nat \<rightharpoonup> Flight"
  er_machines :: "nat \<Rightarrow> FullStateMachine"
  er_issued :: "nat set"
  er_seen :: "nat \<Rightarrow> nat set"

record EcSetting =
  et_codec :: MetadataCodec
  et_serialize :: "Command \<Rightarrow> bytes"
  et_deserialize :: "bytes \<Rightarrow> Command option"
  et_self :: nat
  et_voters :: "nat list"
  et_retention :: nat

inductive ec_step :: "EcSetting \<Rightarrow> EcRun \<Rightarrow> EcRun \<Rightarrow> bool" for E where
  wrote: "propose_ec_local (et_serialize E) now c (er_node r) = Some (Inr seq, node') \<Longrightarrow>
    ec_step E r (r\<lparr>er_node := node', er_issued := insert seq (er_issued r)\<rparr>)"
| refused: "propose_ec_local (et_serialize E) now c (er_node r) = Some (Inl e, node') \<Longrightarrow>
    ec_step E r (r\<lparr>er_node := node'\<rparr>)"
| ticked: "ec_log (er_node r) = Some l \<Longrightarrow> distinct peer_ids \<Longrightarrow>
    spawn_ec_replications now (et_self E) (et_voters E) peer_ids (et_retention E) l (er_peers r) = (tasks, l', peers') \<Longrightarrow>
    ec_step E r (r\<lparr>er_node := (er_node r)\<lparr>ec_log := Some l'\<rparr>, er_peers := peers',
      er_flight := er_flight r ++ map_of (map (map_prod id Sending) tasks)\<rparr>)"
| delivered: "er_flight r p = Some (Sending (SendBatch es)) \<Longrightarrow>
    replicate_entries (et_codec E) (et_deserialize E) es 0 (er_machines r p) = (ok, up_to, sm') \<Longrightarrow>
    ec_step E r (r\<lparr>er_machines := (er_machines r)(p := sm'),
      er_seen := (if ok then (er_seen r)(p := er_seen r p \<union> fst ` set es) else er_seen r),
      er_flight := (er_flight r)(p \<mapsto> Answered (if ok then Acked p up_to else Failed p))\<rparr>)"
| materialized: "er_flight r p = Some (Sending (SendSnapshot covering_seq)) \<Longrightarrow>
    ec_state_snapshot (ec_machine (er_node r)) = Inr cs \<Longrightarrow>
    ec_step E r (r\<lparr>er_flight := (er_flight r)(p \<mapsto> StateMessage covering_seq (map (et_serialize E) cs))\<rparr>)"
| transferred: "er_flight r p = Some (StateMessage covering_seq bs) \<Longrightarrow>
    snapshot_ec_state (et_codec E) (et_deserialize E) bs (er_machines r p) = (ok, sm') \<Longrightarrow>
    ec_step E r (r\<lparr>er_machines := (er_machines r)(p := sm'),
      er_seen := (if ok then (er_seen r)(p := er_seen r p \<union> {..covering_seq}) else er_seen r),
      er_flight := (er_flight r)(p \<mapsto> Answered (if ok then Acked p covering_seq else Failed p))\<rparr>)"
| lost: "er_flight r p \<noteq> None \<Longrightarrow> ec_step E r (r\<lparr>er_flight := (er_flight r)(p \<mapsto> Answered (Failed p))\<rparr>)"
| drained: "er_flight r p = Some (Answered completion) \<Longrightarrow>
    ec_step E r (r\<lparr>er_peers := handle_completion now completion (er_peers r), er_flight := (er_flight r)(p := None)\<rparr>)"
| rebooted: "ec_log (er_node r) = Some l \<Longrightarrow>
    ec_step E r (r\<lparr>er_node := (er_node r)\<lparr>ec_log := Some (replication_log_new (rl_log l) (rl_meta l) (rl_node_id l))\<rparr>,
      er_peers := Map.empty, er_flight := Map.empty\<rparr>)"

definition ec_start :: "nat \<Rightarrow> FullStateMachine \<Rightarrow> (nat \<Rightarrow> FullStateMachine) \<Rightarrow> EcRun" where
  "ec_start node_id sm machines =
     \<lparr>er_node = \<lparr>ec_machine = sm, ec_log = Some (rr_log (replication_init node_id))\<rparr>, er_peers = Map.empty,
      er_flight = Map.empty, er_machines = machines, er_issued = {}, er_seen = (\<lambda>_. {})\<rparr>"


section \<open>The quorum index\<close>

lemma descending_index:
  assumes "sorted (rev xs)" and "0 < k"
  shows "k \<le> length (filter (\<lambda>a. w \<le> a) xs) \<longleftrightarrow> k - 1 < length xs \<and> w \<le> xs ! (k - 1)"
  using assms
proof (induction xs arbitrary: k)
  case Nil
  then show ?case by simp
next
  case (Cons a xs)
  have tail: "\<forall>b \<in> set xs. b \<le> a" "sorted (rev xs)"
    using Cons.prems(1) by (auto simp: sorted_append)
  show ?case
  proof (cases "w \<le> a")
    case True
    then show ?thesis
      using Cons.IH [OF tail(2), of "k - 1"] Cons.prems(2) by (cases k) (auto simp: nth_Cons split: nat.split)
  next
    case False
    have "(a # xs) ! (k - 1) \<le> a" if "k - 1 < length (a # xs)"
      using nth_mem [OF that] tail(1) by auto
    moreover have "filter (\<lambda>b. w \<le> b) xs = []"
      using False tail(1) by (force simp: filter_empty_conv)
    ultimately show ?thesis
      using False Cons.prems(2) by auto
  qed
qed

definition ackers :: "peer_states \<Rightarrow> nat list \<Rightarrow> nat \<Rightarrow> nat \<Rightarrow> nat set" where
  "ackers peers voters self w =
     {v \<in> set voters. v \<noteq> self \<and> (\<exists>st. peers v = Some st \<and> w \<le> ps_acked_seq st)}"

lemma filter_map_filter:
  "length (filter P (List.map_filter f xs)) = length (filter (\<lambda>x. \<exists>y. f x = Some y \<and> P y) xs)"
  by (induction xs) (auto simp: map_filter_simps split: option.split)

lemma ackers_card:
  assumes "distinct voters"
  shows "card (ackers peers voters self w) =
    length (filter (\<lambda>a. w \<le> a)
      (rev (sort (List.map_filter (\<lambda>v. map_option ps_acked_seq (peers v)) (filter (\<lambda>v. v \<noteq> self) voters)))))"
proof -
  let ?xs = "List.map_filter (\<lambda>v. map_option ps_acked_seq (peers v)) (filter (\<lambda>v. v \<noteq> self) voters)"
  have "length (filter (\<lambda>a. w \<le> a) (rev (sort ?xs))) = length (filter (\<lambda>a. w \<le> a) ?xs)"
    by (simp add: rev_filter [symmetric] filter_sort)
  also have "\<dots> = length (filter (\<lambda>v. v \<noteq> self \<and> (\<exists>st. peers v = Some st \<and> w \<le> ps_acked_seq st)) voters)"
    by (simp add: filter_map_filter conj_commute) (rule arg_cong [where f = length], rule filter_cong, auto)
  also have "\<dots> = card (ackers peers voters self w)"
    using assms by (simp add: distinct_card [symmetric] ackers_def)
  finally show ?thesis by simp
qed

lemma compute_ec_watermark_iff:
  assumes "distinct voters" and "2 \<le> length voters"
  shows "length voters div 2 \<le> card (ackers peers voters self w) \<and> 0 < w \<longleftrightarrow>
    (\<exists>wm. compute_ec_watermark peers voters self = Some wm \<and> 0 < w \<and> w \<le> wm)"
proof -
  let ?acks = "rev (sort (List.map_filter (\<lambda>v. map_option ps_acked_seq (peers v)) (filter (\<lambda>v. v \<noteq> self) voters)))"
  have "length voters div 2 \<le> card (ackers peers voters self w) \<longleftrightarrow>
      length voters div 2 - 1 < length ?acks \<and> w \<le> ?acks ! (length voters div 2 - 1)"
    using descending_index [of ?acks "length voters div 2" w] assms(2) by (simp add: ackers_card [OF assms(1)])
  then show ?thesis
    using assms(2) by (auto simp: compute_ec_watermark_def Let_def)
qed

section \<open>What the log, the acknowledgements and the messages say\<close>

text \<open>A write is held by a majority: the writer and the voters that processed it.\<close>

definition on_majority :: "EcSetting \<Rightarrow> (nat \<Rightarrow> nat set) \<Rightarrow> nat \<Rightarrow> bool" where
  "on_majority E S t \<longleftrightarrow> length (et_voters E) < 2 * card {v \<in> set (et_voters E). v = et_self E \<or> t \<in> S v}"

lemma on_majority_mono:
  assumes "on_majority E S t" and "\<And>v. S v \<subseteq> S' v"
  shows "on_majority E S' t"
proof -
  have "card {v \<in> set (et_voters E). v = et_self E \<or> t \<in> S v} \<le> card {v \<in> set (et_voters E). v = et_self E \<or> t \<in> S' v}"
    using assms(2) by (intro card_mono) auto
  then show ?thesis
    using assms(1) by (simp add: on_majority_def)
qed

definition log_ok :: "EcSetting \<Rightarrow> nat set \<Rightarrow> (nat \<Rightarrow> nat set) \<Rightarrow> ReplicationLog \<Rightarrow> bool" where
  "log_ok E I S l \<longleftrightarrow>
     om_wf (rl_log l) \<and> (\<forall>seq e. (seq, e) \<in> set (rl_log l) \<longrightarrow> seq < rl_next_seq l) \<and>
     rl_next_seq l = unwrap_or 1 (rm_next_seq (rl_meta l)) \<and>
     rl_watermark l = unwrap_or 0 (rm_watermark (rl_meta l)) \<and>
     rl_earliest l = unwrap_or 1 (rm_earliest (rl_meta l)) \<and>
     1 \<le> rl_earliest l \<and> rl_earliest l \<le> rl_next_seq l \<and> rl_watermark l < rl_next_seq l \<and>
     (\<forall>t \<in> I. 1 \<le> t \<and> t < rl_next_seq l \<and> (rl_earliest l \<le> t \<longrightarrow> map_of (rl_log l) t \<noteq> None) \<and>
        (t \<le> rl_watermark l \<longrightarrow> on_majority E S t))"

definition covered :: "nat set \<Rightarrow> (nat \<Rightarrow> nat set) \<Rightarrow> nat \<Rightarrow> nat \<Rightarrow> bool" where
  "covered I S p n \<longleftrightarrow> (\<forall>t \<in> I. t \<le> n \<longrightarrow> t \<in> S p)"

definition peers_ok :: "nat \<Rightarrow> nat set \<Rightarrow> (nat \<Rightarrow> nat set) \<Rightarrow> peer_states \<Rightarrow> bool" where
  "peers_ok nx I S peers \<longleftrightarrow>
     (\<forall>p st. peers p = Some st \<longrightarrow> ps_acked_seq st < nx \<and> covered I S p (ps_acked_seq st))"

fun flight_ok :: "nat \<Rightarrow> nat set \<Rightarrow> (nat \<Rightarrow> nat set) \<Rightarrow> nat \<Rightarrow> Flight \<Rightarrow> bool" where
  "flight_ok nx I S p (Sending (SendBatch es)) \<longleftrightarrow>
     (\<forall>n \<in> fst ` set es. n < nx \<and> (\<forall>t \<in> I. t \<le> n \<longrightarrow> t \<in> S p \<union> fst ` set es))"
| "flight_ok nx I S p (Sending (SendSnapshot n)) \<longleftrightarrow> n < nx"
| "flight_ok nx I S p (StateMessage n bs) \<longleftrightarrow> n < nx"
| "flight_ok nx I S p (Answered (Acked q n)) \<longleftrightarrow> q = p \<and> n < nx \<and> covered I S p n"
| "flight_ok nx I S p (Answered (Failed q)) \<longleftrightarrow> True"

definition flights_ok :: "nat \<Rightarrow> nat set \<Rightarrow> (nat \<Rightarrow> nat set) \<Rightarrow> (nat \<rightharpoonup> Flight) \<Rightarrow> bool" where
  "flights_ok nx I S fl \<longleftrightarrow> (\<forall>p f. fl p = Some f \<longrightarrow> flight_ok nx I S p f)"

definition ec_inv :: "EcSetting \<Rightarrow> EcRun \<Rightarrow> bool" where
  "ec_inv E r \<longleftrightarrow>
     (\<exists>l. ec_log (er_node r) = Some l \<and> log_ok E (er_issued r) (er_seen r) l \<and>
        peers_ok (rl_next_seq l) (er_issued r) (er_seen r) (er_peers r) \<and>
        flights_ok (rl_next_seq l) (er_issued r) (er_seen r) (er_flight r))"

text \<open>More seen, and one more number issued.\<close>

lemma covered_seen: "covered I S p n \<Longrightarrow> S p \<subseteq> S' p \<Longrightarrow> covered I S' p n"
  by (auto simp: covered_def)

lemma log_ok_seen: "log_ok E I S l \<Longrightarrow> (\<And>v. S v \<subseteq> S' v) \<Longrightarrow> log_ok E I S' l"
  using on_majority_mono by (auto simp: log_ok_def)

lemma peers_ok_seen: "peers_ok nx I S peers \<Longrightarrow> (\<And>v. S v \<subseteq> S' v) \<Longrightarrow> peers_ok nx I S' peers"
  unfolding peers_ok_def covered_def by blast

lemma flight_ok_seen: "flight_ok nx I S p f \<Longrightarrow> S p \<subseteq> S' p \<Longrightarrow> flight_ok nx I S' p f"
  by (induction nx I S p f rule: flight_ok.induct) (auto simp: covered_def)

lemma flights_ok_seen: "flights_ok nx I S fl \<Longrightarrow> (\<And>v. S v \<subseteq> S' v) \<Longrightarrow> flights_ok nx I S' fl"
  unfolding flights_ok_def by (blast intro: flight_ok_seen)

lemma peers_ok_issued:
  "peers_ok nx I S peers \<Longrightarrow> J \<subseteq> insert nx I \<Longrightarrow> peers_ok (Suc nx) J S peers"
  by (fastforce simp: peers_ok_def covered_def)

lemma flight_ok_issued: "flight_ok nx I S p f \<Longrightarrow> J \<subseteq> insert nx I \<Longrightarrow> flight_ok (Suc nx) J S p f"
proof (induction nx I S p f rule: flight_ok.induct)
  case (1 nx I S p es)
  then show ?case
    by (auto simp: less_Suc_eq) (metis (no_types, opaque_lifting) fst_conv image_eqI in_mono insert_iff leD)
qed (fastforce simp: covered_def)+

lemma flights_okD: "flights_ok nx I S fl \<Longrightarrow> fl p = Some f \<Longrightarrow> flight_ok nx I S p f"
  by (simp add: flights_ok_def)

lemma flights_ok_put:
  "flights_ok nx I S fl \<Longrightarrow> flight_ok nx I S p f \<Longrightarrow> flights_ok nx I S (fl(p \<mapsto> f))"
  by (simp add: flights_ok_def)

lemma flights_ok_issued: "flights_ok nx I S fl \<Longrightarrow> J \<subseteq> insert nx I \<Longrightarrow> flights_ok (Suc nx) J S fl"
  unfolding flights_ok_def by (blast intro: flight_ok_issued)

text \<open>The operations of the log.\<close>

lemma log_ok_append:
  assumes "log_ok E I S l" and "replication_append b now l = (seq, l')"
  shows "seq = rl_next_seq l \<and> rl_next_seq l' = Suc seq \<and> log_ok E I S l' \<and> log_ok E (insert seq I) S l'"
  using assms
  by (auto simp: log_ok_def replication_append_def allocate_seq_def commit_entry_def Let_def om_set_put max_def)
    (fastforce intro: less_SucI)+

lemma log_ok_remove: "log_ok E I S l \<Longrightarrow> seq \<notin> I \<Longrightarrow> log_ok E I S (remove_entry seq l)"
  by (auto simp: log_ok_def remove_entry_def om_set_del)

lemma log_ok_advance:
  "log_ok E I S l \<Longrightarrow> w < rl_next_seq l \<Longrightarrow> (\<And>t. t \<in> I \<Longrightarrow> t \<le> w \<Longrightarrow> on_majority E S t) \<Longrightarrow>
     log_ok E I S (advance_watermark w l)"
  by (auto simp: log_ok_def advance_watermark_def)

lemma advance_next [simp]: "rl_next_seq (advance_watermark w l) = rl_next_seq l"
  by (simp add: advance_watermark_def)

lemma log_ok_compact:
  "log_ok E I S l \<Longrightarrow> up < rl_next_seq l \<Longrightarrow> log_ok E I S (snd (replication_compact up l))"
  by (auto simp: log_ok_def replication_compact_def Let_def om_dels_set om_dels_wf om_dels_lookup simp del: upt_Suc)

lemma compact_next [simp]: "rl_next_seq (snd (replication_compact up l)) = rl_next_seq l"
  by (simp add: replication_compact_def Let_def)

lemma log_ok_new:
  "log_ok E I S l \<Longrightarrow> log_ok E I S (replication_log_new (rl_log l) (rl_meta l) n) \<and>
     rl_next_seq (replication_log_new (rl_log l) (rl_meta l) n) = rl_next_seq l"
  by (auto simp: log_ok_def replication_log_new_def)

lemma propose_log:
  assumes "propose_ec_local serialize now c node = Some (res, node')" and "ec_log node = Some l"
  obtains (kept) e where "res = Inl e" "ec_log node' = Some l"
  | (undone) e seq l1 where "res = Inl e" "replication_append (serialize c) now l = (seq, l1)"
      "ec_log node' = Some (remove_entry seq l1)"
  | (appended) seq l1 where "res = Inr seq" "replication_append (serialize c) now l = (seq, l1)" "ec_log node' = Some l1"
  using assms
  by (cases "replication_append (serialize c) now l")
    (auto simp: propose_ec_local_def bind_eq_Some_conv case_eqs split: bool.split_asm)

section \<open>The steps keep it\<close>

lemma schedule_peer_ok:
  assumes "schedule_peer now earliest cov entries st = (task, st')"
  shows "ps_acked_seq st' = ps_acked_seq st \<and>
    (\<forall>n. task = Some (SendSnapshot n) \<longrightarrow> n = cov) \<and>
    (\<forall>es. task = Some (SendBatch es) \<longrightarrow> earliest \<le> ps_acked_seq st + 1 \<and>
       es = take EC_MAX_ENTRIES_PER_BATCH (filter (\<lambda>(seq, _). ps_acked_seq st < seq) entries))"
  using assms by (auto simp: schedule_peer_def Let_def split: if_split_asm)

lemma schedule_peers_ok:
  assumes "schedule_peers now earliest cov entries ps peers = (tasks, peers')"
  shows "(\<forall>p st. peers' p = Some st \<longrightarrow> ps_acked_seq st = acked_of peers p) \<and>
    (\<forall>p n. (p, SendSnapshot n) \<in> set tasks \<longrightarrow> n = cov) \<and>
    (\<forall>p es. (p, SendBatch es) \<in> set tasks \<longrightarrow> earliest \<le> acked_of peers p + 1 \<and>
       es = take EC_MAX_ENTRIES_PER_BATCH (filter (\<lambda>(seq, _). acked_of peers p < seq) entries))"
  using assms
proof (induction ps arbitrary: peers tasks peers')
  case Nil
  then show ?case by (auto simp: acked_of_def)
next
  case (Cons p ps)
  let ?st = "case peers p of Some st \<Rightarrow> st | None \<Rightarrow> peer_replication_state_new now"
  obtain task st' where one: "schedule_peer now earliest cov entries ?st = (task, st')"
    by fastforce
  obtain tasks1 where rest: "schedule_peers now earliest cov entries ps (peers(p \<mapsto> st')) = (tasks1, peers')"
    and tasks: "tasks = (case task of None \<Rightarrow> tasks1 | Some x \<Rightarrow> (p, x) # tasks1)"
    using Cons.prems one by (auto simp: Let_def split: prod.split_asm)
  have "ps_acked_seq ?st = acked_of peers p"
    by (simp add: acked_of_def peer_replication_state_new_def split: option.split)
  note step = schedule_peer_ok [OF one, unfolded this]
  have same: "acked_of (peers(p \<mapsto> st')) q = acked_of peers q" for q
    using step by (simp add: acked_of_def)
  show ?case
    using Cons.IH [OF rest, unfolded same] step by (auto simp: tasks split: option.split_asm)
qed

text \<open>A batch holds every number issued up to its last that the peer has not acknowledged.\<close>

lemma batch_ok:
  assumes log: "log_ok E I S l" and cov: "covered I S p a" and "rl_earliest l \<le> a + 1"
    and es: "es = take m (filter (\<lambda>(seq, _). a < seq) (drain_unreplicated l))"
  shows "flight_ok (rl_next_seq l) I S p (Sending (SendBatch es))"
proof -
  let ?fs = "filter (\<lambda>(seq, _). a < seq) (drain_unreplicated l)"
  have wf: "om_wf ?fs"
    using log by (simp add: drain_unreplicated_def log_ok_def)
  have "t \<in> S p \<union> fst ` set es" if n: "n \<in> fst ` set es" and t: "t \<in> I" "t \<le> n" for n t
  proof (cases "t \<le> a")
    case True
    then show ?thesis using cov t by (simp add: covered_def)
  next
    case False
    then have "map_of (rl_log l) t \<noteq> None" and bound: "t < rl_next_seq l" "rl_earliest l \<le> t"
      using log t assms(3) by (auto simp: log_ok_def)
    moreover have "t \<le> rl_next_seq l - 1" "\<not> rl_next_seq l \<le> rl_earliest l"
      using bound by simp_all
    ultimately obtain e where "(t, e) \<in> set (drain_unreplicated l)"
      by (auto simp: drain_unreplicated_def dest!: map_of_SomeD)
    then have t_in: "(t, e) \<in> set ?fs"
      using False by simp
    have "?fs = es @ drop m ?fs"
      by (simp add: es)
    then have "(t, e) \<in> set es \<or> (t, e) \<in> set (drop m ?fs)"
      using t_in by (metis Un_iff set_append)
    moreover have "n < t" if "(t, e) \<in> set (drop m ?fs)"
    proof -
      have "sorted_wrt (<) (map fst es @ map fst (drop m ?fs))"
        using wf \<open>?fs = es @ drop m ?fs\<close> by (metis map_append om_wf_def)
      then show ?thesis
        using n that by (force simp: sorted_wrt_append)
    qed
    ultimately show ?thesis
      using t(2) by (force intro: image_eqI [of _ _ "(t, e)"])
  qed
  moreover have "n < rl_next_seq l" if "n \<in> fst ` set es" for n
  proof -
    have "n \<in> fst ` set (drain_unreplicated l)"
      using that in_set_takeD by (fastforce simp: es)
    then show ?thesis
      using log by (auto simp: drain_unreplicated_def log_ok_def split: if_split_asm)
  qed
  ultimately show ?thesis
    by simp
qed

definition setting_ok :: "EcSetting \<Rightarrow> bool" where
  "setting_ok E \<longleftrightarrow> distinct (et_voters E) \<and> et_self E \<in> set (et_voters E) \<and> 0 < et_retention E"

lemma quorum_is_majority:
  assumes "setting_ok E" and "Q \<subseteq> {v \<in> set (et_voters E). v \<noteq> et_self E \<and> t \<in> S v}"
    and "length (et_voters E) div 2 \<le> card Q"
  shows "on_majority E S t"
proof -
  have fin: "finite Q" and self: "et_self E \<notin> Q"
    using finite_subset [OF assms(2)] assms(2) by auto
  have "card (insert (et_self E) Q) \<le> card {v \<in> set (et_voters E). v = et_self E \<or> t \<in> S v}"
    using assms(1,2) by (intro card_mono) (auto simp: setting_ok_def)
  then show ?thesis
    using assms(3) fin self by (simp add: on_majority_def)
qed

lemma watermark_ok:
  assumes "setting_ok E" and "2 \<le> length (et_voters E)" and peers: "peers_ok nx I S peers"
    and wm: "compute_ec_watermark peers (et_voters E) (et_self E) = Some wm"
  shows "wm < nx \<and> (\<forall>t \<in> I. t \<le> wm \<longrightarrow> on_majority E S t)"
proof -
  let ?Q = "ackers peers (et_voters E) (et_self E) wm"
  have "0 < wm"
    using wm by (auto simp: compute_ec_watermark_def Let_def split: if_split_asm)
  then have q: "length (et_voters E) div 2 \<le> card ?Q"
    using compute_ec_watermark_iff [of "et_voters E" peers "et_self E" wm] wm assms(1,2) by (auto simp: setting_ok_def)
  then have "?Q \<noteq> {}"
    using assms(2) by auto
  then have "wm < nx"
    using peers by (fastforce simp: ackers_def peers_ok_def)
  moreover have "on_majority E S t" if "t \<in> I" "t \<le> wm" for t
  proof (rule quorum_is_majority [OF assms(1) _ q])
    show "?Q \<subseteq> {v \<in> set (et_voters E). v \<noteq> et_self E \<and> t \<in> S v}"
      using peers that by (fastforce simp: ackers_def peers_ok_def covered_def)
  qed
  ultimately show ?thesis by blast
qed

lemma log_ok_next: "log_ok E I S l \<Longrightarrow> 1 \<le> rl_next_seq l"
  by (simp add: log_ok_def)

lemma acked_of_ok:
  assumes "peers_ok nx I S peers" and "\<forall>t \<in> I. 1 \<le> t" and "1 \<le> nx"
  shows "acked_of peers p < nx \<and> covered I S p (acked_of peers p)"
  using assms by (cases "peers p") (force simp: acked_of_def peers_ok_def covered_def)+

lemma schedule_ok:
  assumes log: "log_ok E I S l" and peers: "peers_ok (rl_next_seq l) I S peers"
    and run: "schedule_peers now (earliest_seq l) (max_seq l - 1) (drain_unreplicated l) ps peers = (tasks, peers')"
  shows "peers_ok (rl_next_seq l) I S peers' \<and> (\<forall>p x. (p, x) \<in> set tasks \<longrightarrow> flight_ok (rl_next_seq l) I S p (Sending x))"
proof -
  note sched = schedule_peers_ok [OF run]
  have acked: "acked_of peers p < rl_next_seq l" "covered I S p (acked_of peers p)" for p
    using acked_of_ok [OF peers, of p] log log_ok_next [OF log] by (auto simp: log_ok_def)
  have "peers_ok (rl_next_seq l) I S peers'"
    using sched acked by (auto simp: peers_ok_def)
  moreover have "flight_ok (rl_next_seq l) I S p (Sending x)" if here: "(p, x) \<in> set tasks" for p x
  proof (cases x)
    case (SendBatch es)
    then have "rl_earliest l \<le> acked_of peers p + 1"
      "es = take EC_MAX_ENTRIES_PER_BATCH (filter (\<lambda>(seq, _). acked_of peers p < seq) (drain_unreplicated l))"
      using sched here by (auto simp: earliest_seq_def)
    then show ?thesis
      using batch_ok [OF log acked(2)] SendBatch by blast
  next
    case (SendSnapshot n)
    then have "n = rl_next_seq l - 1"
      using sched here by (auto simp: max_seq_def)
    then show ?thesis
      using SendSnapshot log_ok_next [OF log] by simp
  qed
  ultimately show ?thesis by blast
qed

lemma floor_ok:
  assumes "peers_ok nx I S peers" and "0 < retention" and "1 \<le> nx"
  shows "ec_compact_floor (List.map_filter (\<lambda>p. map_option ps_acked_seq (peers p)) ps) nx retention < nx"
proof -
  let ?xs = "List.map_filter (\<lambda>p. map_option ps_acked_seq (peers p)) ps"
  have "Min (set ?xs) < nx" if "?xs \<noteq> []"
  proof -
    have "Min (set ?xs) \<in> set ?xs"
      using that by simp
    then show ?thesis
      using assms(1) by (auto simp: List.map_filter_def peers_ok_def)
  qed
  then show ?thesis
    using assms(2,3) by (auto simp: ec_compact_floor_def)
qed

lemma spawn_ok:
  assumes E: "setting_ok E" and log: "log_ok E I S l" and peers: "peers_ok (rl_next_seq l) I S peers"
    and run: "spawn_ec_replications now (et_self E) (et_voters E) ps (et_retention E) l peers = (tasks, l', peers')"
  shows "rl_next_seq l' = rl_next_seq l \<and> log_ok E I S l' \<and> peers_ok (rl_next_seq l) I S peers' \<and>
    (\<forall>p x. (p, x) \<in> set tasks \<longrightarrow> flight_ok (rl_next_seq l) I S p (Sending x))"
proof -
  define l0 where
    "l0 = (if length (et_voters E) \<le> 1 \<and> 1 < max_seq l then advance_watermark (max_seq l - 1) l else l)"
  note run0 = run [unfolded spawn_ec_replications_def Let_def, folded l0_def]
  have alone: "on_majority E S t" if "length (et_voters E) \<le> 1" for t
    using quorum_is_majority [OF E, of "{}" t S] that by simp
  have nx0: "rl_next_seq l0 = rl_next_seq l"
    by (simp add: l0_def)
  have log0: "log_ok E I S l0"
    using log alone by (auto simp: l0_def max_seq_def intro: log_ok_advance)
  show ?thesis
  proof (cases "(length (et_voters E) \<le> 1 \<and> ps = []) \<or>
      (drain_unreplicated l0 = [] \<and> \<not> list_ex (\<lambda>p. acked_of peers p + 1 < earliest_seq l0) ps)")
    case True
    then have "tasks = []" "l' = l0" "peers' = peers"
      using run0 by (auto split: if_split_asm)
    then show ?thesis
      using log0 nx0 peers by simp
  next
    case False
    define l1 where "l1 = (if 2 \<le> length (et_voters E)
        then (case compute_ec_watermark peers' (et_voters E) (et_self E) of Some wm \<Rightarrow> advance_watermark wm l0 | None \<Rightarrow> l0)
        else l0)"
    define floor where "floor = ec_compact_floor
        (List.map_filter (\<lambda>p. map_option ps_acked_seq (peers' p)) ps) (max_seq l1) (et_retention E)"
    have sched: "schedule_peers now (earliest_seq l0) (max_seq l0 - 1) (drain_unreplicated l0) ps peers = (tasks, peers')"
      and l': "l' = (if 0 < floor then snd (replication_compact floor l1) else l1)"
      using run0 False by (auto simp: l1_def floor_def split: prod.split_asm)
    note after = schedule_ok [OF log0 _ sched, unfolded nx0, OF peers]
    have nx1: "rl_next_seq l1 = rl_next_seq l"
      by (simp add: l1_def nx0 split: option.split)
    have log1: "log_ok E I S l1"
    proof (cases "2 \<le> length (et_voters E) \<and> compute_ec_watermark peers' (et_voters E) (et_self E) \<noteq> None")
      case True
      then obtain wm where wm: "compute_ec_watermark peers' (et_voters E) (et_self E) = Some wm"
        by blast
      then show ?thesis
        using watermark_ok [OF E _ conjunct1 [OF after] wm] log_ok_advance [OF log0] True
        by (auto simp: l1_def nx0)
    qed (use log0 in \<open>auto simp: l1_def\<close>)
    have "floor < rl_next_seq l"
      using floor_ok [OF conjunct1 [OF after]] E log_ok_next [OF log] by (simp add: floor_def max_seq_def nx1 setting_ok_def)
    then show ?thesis
      using log1 nx1 after log_ok_compact [OF log1] by (simp add: l')
  qed
qed

lemma replicate_entries_up_to:
  "replicate_entries C de es m sm = (ok, up_to, sm') \<Longrightarrow> up_to = m \<or> up_to \<in> fst ` set es"
proof (induction es arbitrary: m sm)
  case (Cons x es)
  obtain seq e where x: "x = (seq, e)" by fastforce
  have "(ok, up_to, sm') = (False, m, sm) \<or> (\<exists>sm1. replicate_entries C de es (max m seq) sm1 = (ok, up_to, sm'))"
    using Cons.prems by (auto simp: x split: option.split_asm sum.split_asm)
  then have "up_to = m \<or> up_to = max m seq \<or> up_to \<in> fst ` set es"
    using Cons.IH by blast
  then show ?case
    by (auto simp: x max_def split: if_split_asm)
qed simp

lemma completion_ok:
  assumes "peers_ok nx I S peers" and "flight_ok nx I S p (Answered completion)"
  shows "peers_ok nx I S (handle_completion now completion peers)"
  using assms
  by (cases completion)
    (auto simp: peers_ok_def reset_backoff_def increase_backoff_def Let_def max_def split: option.split)

lemma ec_step_inv:
  assumes step: "ec_step E r r'" and E: "setting_ok E" and inv: "ec_inv E r"
  shows "ec_inv E r'"
proof -
  obtain l where l: "ec_log (er_node r) = Some l" and log: "log_ok E (er_issued r) (er_seen r) l"
    and peers: "peers_ok (rl_next_seq l) (er_issued r) (er_seen r) (er_peers r)"
    and flights: "flights_ok (rl_next_seq l) (er_issued r) (er_seen r) (er_flight r)"
    using inv by (auto simp: ec_inv_def)
  have pos: "\<forall>t \<in> er_issued r. 1 \<le> t"
    using log by (simp add: log_ok_def)
  note grown = log_ok_append [OF log] peers_ok_issued [OF peers] flights_ok_issued [OF flights]
  note inv_def = ec_inv_def l
  show ?thesis
    using step
  proof cases
    case (wrote now c seq node')
    show ?thesis
      using wrote(2) l
    proof (cases rule: propose_log [case_names kept undone appended])
      case (appended seq' l1)
      then show ?thesis
        using grown(1) [OF appended(2)] grown(2,3) [of "insert (rl_next_seq l) (er_issued r)"]
        by (auto simp: ec_inv_def wrote(1))
    qed simp_all
  next
    case (refused now c e node')
    show ?thesis
      using refused(2) l
    proof (cases rule: propose_log [case_names kept undone appended])
      case (kept e)
      then show ?thesis
        using log peers flights by (simp add: ec_inv_def refused(1))
    next
      case (undone e seq l1)
      then have new: "seq = rl_next_seq l" "rl_next_seq l1 = Suc seq" "log_ok E (er_issued r) (er_seen r) l1"
        using grown(1) by blast+
      then have "seq \<notin> er_issued r"
        using log by (auto simp: log_ok_def)
      then show ?thesis
        using undone new log_ok_remove [OF new(3)] grown(2,3) [of "er_issued r"]
        by (auto simp: ec_inv_def refused(1) remove_entry_def)
    qed simp
  next
    case (ticked l1 peer_ids now tasks l' peers')
    then have l1: "l1 = l"
      using l by simp
    note after = spawn_ok [OF E log peers ticked(4) [unfolded l1]]
    have "flights_ok (rl_next_seq l) (er_issued r) (er_seen r)
        (er_flight r ++ map_of (map (map_prod id Sending) tasks))"
      using flights after by (auto simp: flights_ok_def map_add_Some_iff dest!: map_of_SomeD)
    then show ?thesis
      using after by (auto simp: ec_inv_def ticked(1))
  next
    case (delivered p es ok up_to sm')
    let ?S = "if ok then (er_seen r)(p := er_seen r p \<union> fst ` set es) else er_seen r"
    have more: "er_seen r v \<subseteq> ?S v" for v
      by simp
    have "flight_ok (rl_next_seq l) (er_issued r) (er_seen r) p (Sending (SendBatch es))"
      by (rule flights_okD [OF flights delivered(2)])
    then have "flight_ok (rl_next_seq l) (er_issued r) ?S p (Answered (if ok then Acked p up_to else Failed p))"
      using replicate_entries_up_to [OF delivered(3)] pos log_ok_next [OF log] by (auto simp: covered_def)
    then show ?thesis
      using log_ok_seen [OF log more] peers_ok_seen [OF peers more] flights_ok_seen [OF flights more]
      by (simp add: inv_def delivered(1) flights_ok_put)
  next
    case (materialized p covering_seq cs)
    then show ?thesis
      using log peers flights flights_okD [OF flights materialized(2)] by (simp add: inv_def flights_ok_put)
  next
    case (transferred p covering_seq bs ok sm')
    let ?S = "if ok then (er_seen r)(p := er_seen r p \<union> {..covering_seq}) else er_seen r"
    have more: "er_seen r v \<subseteq> ?S v" for v
      by simp
    have "flight_ok (rl_next_seq l) (er_issued r) (er_seen r) p (StateMessage covering_seq bs)"
      by (rule flights_okD [OF flights transferred(2)])
    then have "flight_ok (rl_next_seq l) (er_issued r) ?S p (Answered (if ok then Acked p covering_seq else Failed p))"
      by (auto simp: covered_def)
    then show ?thesis
      using log_ok_seen [OF log more] peers_ok_seen [OF peers more] flights_ok_seen [OF flights more]
      by (simp add: inv_def transferred(1) flights_ok_put)
  next
    case (lost p)
    then show ?thesis
      using log peers flights by (simp add: inv_def flights_ok_put)
  next
    case (drained p completion now)
    then have "flight_ok (rl_next_seq l) (er_issued r) (er_seen r) p (Answered completion)"
      using flights_okD [OF flights] by blast
    then show ?thesis
      using log completion_ok [OF peers] flights by (simp add: inv_def drained(1) flights_ok_def)
  next
    case (rebooted l1)
    then show ?thesis
      using log_ok_new [OF log] l by (simp add: inv_def peers_ok_def flights_ok_def)
  qed
qed

lemma ec_start_inv: "ec_inv E (ec_start node_id sm machines)"
  by (simp add: ec_inv_def ec_start_def log_ok_def peers_ok_def flights_ok_def replication_init_def
      replication_log_new_def)

lemma ec_reach_inv:
  "(ec_step E)\<^sup>*\<^sup>* (ec_start node_id sm machines) r \<Longrightarrow> setting_ok E \<Longrightarrow> ec_inv E r"
  by (induction rule: rtranclp_induct) (auto intro: ec_start_inv ec_step_inv)

text \<open>Two voters, one of them the writer, with a serialisation of one command only.\<close>

definition two_voters :: EcSetting where
  "two_voters =
     \<lparr>et_codec = time_codec, et_serialize = (\<lambda>_. [1]), et_deserialize = (\<lambda>_. Some (SetMetadata ''/a'' [53])),
      et_self = 1, et_voters = [1, 2], et_retention = 10000\<rparr>"

text \<open>One write, sent, processed and acknowledged, and the tick after it.\<close>

definition after_write :: EcRun where
  "after_write =
     (let r = ec_start 1 fresh_machine (\<lambda>_. fresh_machine) in
      case propose_ec_local (et_serialize two_voters) 5 (SetMetadata ''/a'' [53]) (er_node r) of
        Some (Inr seq, node') \<Rightarrow> r\<lparr>er_node := node', er_issued := insert seq (er_issued r)\<rparr>
      | _ \<Rightarrow> r)"

definition after_tick :: "nat \<Rightarrow> EcRun \<Rightarrow> EcRun" where
  "after_tick now r =
     (case ec_log (er_node r) of
        None \<Rightarrow> r
      | Some l \<Rightarrow>
          (case spawn_ec_replications now (et_self two_voters) (et_voters two_voters) [2] (et_retention two_voters) l (er_peers r) of
             (tasks, l', peers') \<Rightarrow>
               r\<lparr>er_node := (er_node r)\<lparr>ec_log := Some l'\<rparr>, er_peers := peers',
                 er_flight := er_flight r ++ map_of (map (map_prod id Sending) tasks)\<rparr>))"

definition after_delivery :: "EcRun \<Rightarrow> EcRun" where
  "after_delivery r =
     (case er_flight r 2 of
        Some (Sending (SendBatch es)) \<Rightarrow>
          (case replicate_entries (et_codec two_voters) (et_deserialize two_voters) es 0 (er_machines r 2) of
             (ok, up_to, sm') \<Rightarrow>
               r\<lparr>er_machines := (er_machines r)(2 := sm'),
                 er_seen := (if ok then (er_seen r)(2 := er_seen r 2 \<union> fst ` set es) else er_seen r),
                 er_flight := (er_flight r)(2 \<mapsto> Answered (if ok then Acked 2 up_to else Failed 2))\<rparr>)
      | _ \<Rightarrow> r)"

definition after_drain :: "nat \<Rightarrow> EcRun \<Rightarrow> EcRun" where
  "after_drain now r =
     (case er_flight r 2 of
        Some (Answered completion) \<Rightarrow>
          r\<lparr>er_peers := handle_completion now completion (er_peers r), er_flight := (er_flight r)(2 := None)\<rparr>
      | _ \<Rightarrow> r)"

lemma after_write_reached: "(ec_step two_voters)\<^sup>*\<^sup>* (ec_start 1 fresh_machine (\<lambda>_. fresh_machine)) after_write"
  by (auto simp: after_write_def Let_def split: option.split sum.split
      intro!: r_into_rtranclp ec_step.wrote [where now = 5 and c = "SetMetadata ''/a'' [53]"])

lemma after_tick_reached: "(ec_step two_voters)\<^sup>*\<^sup>* r (after_tick now r)"
  by (auto simp: after_tick_def split: option.split prod.split
      intro!: r_into_rtranclp ec_step.ticked [where peer_ids = "[2]" and now = now])

lemma after_delivery_reached: "(ec_step two_voters)\<^sup>*\<^sup>* r (after_delivery r)"
proof (cases "\<exists>es. er_flight r 2 = Some (Sending (SendBatch es))")
  case True
  then obtain es ok up_to sm' where es: "er_flight r 2 = Some (Sending (SendBatch es))"
    and run: "replicate_entries (et_codec two_voters) (et_deserialize two_voters) es 0 (er_machines r 2) = (ok, up_to, sm')"
    by (metis prod_cases3)
  show ?thesis
    using ec_step.delivered [OF es run] by (simp add: after_delivery_def es run r_into_rtranclp del: if_split)
qed (auto simp: after_delivery_def split: option.split Flight.split EcTask.split)

lemma after_drain_reached: "(ec_step two_voters)\<^sup>*\<^sup>* r (after_drain now r)"
  by (auto simp: after_drain_def split: option.split Flight.split
      intro!: r_into_rtranclp ec_step.drained)

definition acknowledged_write :: EcRun where
  "acknowledged_write = after_tick 7 (after_drain 7 (after_delivery (after_tick 6 after_write)))"

lemma acknowledged_write_reached:
  "(ec_step two_voters)\<^sup>*\<^sup>* (ec_start 1 fresh_machine (\<lambda>_. fresh_machine)) acknowledged_write"
  unfolding acknowledged_write_def
  by (rule rtranclp_trans [OF rtranclp_trans [OF rtranclp_trans [OF rtranclp_trans
          [OF after_write_reached after_tick_reached] after_delivery_reached] after_drain_reached] after_tick_reached])

section \<open>Properties\<close>



text \<open>
  The watermark the sender computes is the largest number that enough voters
  other than itself have acknowledged to form a majority with it.
\<close>

theorem watermark_is_quorum:
  assumes "distinct voters" and "2 \<le> length voters"
  shows "compute_ec_watermark peers voters self = Some w \<longleftrightarrow>
    0 < w \<and> length voters div 2 \<le> card (ackers peers voters self w) \<and>
    (\<forall>w'. w < w' \<longrightarrow> card (ackers peers voters self w') < length voters div 2)"
proof -
  note iff = compute_ec_watermark_iff [OF assms, of peers self]
  have pos: "compute_ec_watermark peers voters self = Some wm \<Longrightarrow> 0 < wm" for wm
    by (auto simp: compute_ec_watermark_def Let_def split: if_split_asm)
  show ?thesis
  proof (cases "compute_ec_watermark peers voters self")
    case None
    then show ?thesis using iff [of w] by auto
  next
    case (Some wm)
    have at: "length voters div 2 \<le> card (ackers peers voters self v) \<longleftrightarrow> v \<le> wm" if "0 < v" for v
      using iff [of v] that Some by simp
    show ?thesis
    proof
      assume "compute_ec_watermark peers voters self = Some w"
      then have "w = wm" using Some by simp
      moreover have "card (ackers peers voters self w') < length voters div 2" if "wm < w'" for w'
        using at [of w'] that by linarith
      ultimately show "0 < w \<and> length voters div 2 \<le> card (ackers peers voters self w) \<and>
          (\<forall>w'. w < w' \<longrightarrow> card (ackers peers voters self w') < length voters div 2)"
        using at [of wm] pos [OF Some] by simp
    next
      assume q: "0 < w \<and> length voters div 2 \<le> card (ackers peers voters self w) \<and>
          (\<forall>w'. w < w' \<longrightarrow> card (ackers peers voters self w') < length voters div 2)"
      then have "\<not> w < wm"
        using at [of wm] pos [OF Some] by auto
      then show "compute_ec_watermark peers voters self = Some w"
        using at [of w] q Some by simp
    qed
  qed
qed

definition three_acks :: peer_states where
  "three_acks = [2 \<mapsto> (peer_replication_state_new 0)\<lparr>ps_acked_seq := 7\<rparr>,
                 3 \<mapsto> (peer_replication_state_new 0)\<lparr>ps_acked_seq := 4\<rparr>,
                 9 \<mapsto> (peer_replication_state_new 0)\<lparr>ps_acked_seq := 99\<rparr>]"

theorem watermark_is_quorum_witness:
  "compute_ec_watermark three_acks [1, 2, 3] 1 = Some 7 \<and> 1 \<le> card (ackers three_acks [1, 2, 3] 1 7) \<and>
   card (ackers three_acks [1, 2, 3] 1 8) < 1"
proof -
  have run: "compute_ec_watermark three_acks [1, 2, 3] 1 = Some 7"
    by code_simp
  then show ?thesis
    using watermark_is_quorum [of "[1, 2, 3]" three_acks 1 7] by simp
qed


end
