(* ===== verification/Io_Lock.thy ===== *)
theory Io_Lock
  imports Lock_State
begin

text \<open>
  The lock manager of the kernel (\<^verbatim>\<open>kernel/src/core/lock/mod.rs\<close> and \<^verbatim>\<open>locks.rs\<close>):
  path normalisation, the reader-writer locks over the path hierarchy that
  serialise input and output on a node, the blocking acquire with its condition
  variable, and the calls on the local advisory table.  Handles and reader counts
  are natural numbers; the mutex makes each block below one step, and time is the
  choice of when a wait expires.
\<close>

section \<open>Paths\<close>

definition has_double_slash :: "string \<Rightarrow> bool" where
  "has_double_slash path = list_ex (\<lambda>(a, b). a = CHR ''/'' \<and> b = CHR ''/'') (zip path (tl path))"

fun collapse_slashes :: "bool \<Rightarrow> string \<Rightarrow> string" where
  "collapse_slashes prev_slash [] = []"
| "collapse_slashes prev_slash (ch # chars) =
     (if ch = CHR ''/''
      then (if prev_slash then collapse_slashes True chars else CHR ''/'' # collapse_slashes True chars)
      else ch # collapse_slashes False chars)"

definition trim_slash :: "string \<Rightarrow> string" where
  "trim_slash path = (if 1 < length path \<and> ends_with path ''/'' then butlast path else path)"

definition normalize_path :: "string \<Rightarrow> string" where
  "normalize_path path =
     (if path = [] then ''/''
      else if \<not> has_double_slash path then trim_slash path
      else trim_slash (collapse_slashes False path))"

text \<open>The lazy iterator over the strict ancestors.\<close>

record Ancestors =
  an_path :: string
  an_end :: nat
  an_done :: bool

definition ancestors_next :: "Ancestors \<Rightarrow> string option \<times> Ancestors" where
  "ancestors_next a =
     (if an_done a \<or> an_end a = 0 then (None, a)
      else case rfind (CHR ''/'') (take (an_end a) (an_path a)) of
             Some pos \<Rightarrow>
               if pos = 0 then (Some ''/'', a\<lparr>an_done := True\<rparr>)
               else (Some (take pos (an_path a)), a\<lparr>an_end := pos\<rparr>)
           | None \<Rightarrow> (None, a\<lparr>an_done := True\<rparr>))"

definition ancestors_iter :: "string \<Rightarrow> Ancestors" where
  "ancestors_iter path =
     \<lparr>an_path = path, an_end = (if path = ''/'' \<or> path = [] then 0 else length path), an_done = False\<rparr>"

function ancestors_collect :: "Ancestors \<Rightarrow> string list" where
  "ancestors_collect a =
     (case ancestors_next a of
        (None, _) \<Rightarrow> []
      | (Some p, a') \<Rightarrow> p # ancestors_collect a')"
  by pat_completeness auto
termination
  by (relation "measure (\<lambda>a. if an_done a then 0 else Suc (an_end a))")
    (auto simp: ancestors_next_def dest!: rfind_lt split: if_split_asm option.split_asm)

declare ancestors_collect.simps [simp del]

section \<open>The lock table\<close>

datatype LockMode = ModeRead | ModeWrite

record HandleInfo =
  hi_path :: string
  hi_mode :: LockMode

record IOEntry =
  io_readers :: nat
  io_writer :: "nat option"

record IOLockState =
  io_locks :: "(string, IOEntry) omap"
  io_handles :: "(nat, HandleInfo) omap"

definition io_entry_default :: IOEntry where
  "io_entry_default = \<lparr>io_readers = 0, io_writer = None\<rparr>"

definition is_idle :: "IOEntry \<Rightarrow> bool" where
  "is_idle e \<longleftrightarrow> io_readers e = 0 \<and> io_writer e = None"

fun entry_blocks :: "LockMode \<Rightarrow> IOEntry \<Rightarrow> bool" where
  "entry_blocks ModeRead e \<longleftrightarrow> io_writer e \<noteq> None"
| "entry_blocks ModeWrite e \<longleftrightarrow> io_writer e \<noteq> None \<or> 0 < io_readers e"

definition ancestor_io_conflict :: "(string, IOEntry) omap \<Rightarrow> string \<Rightarrow> LockMode \<Rightarrow> bool" where
  "ancestor_io_conflict ls path mode =
     list_ex (\<lambda>anc. case map_of ls anc of None \<Rightarrow> False | Some e \<Rightarrow> entry_blocks mode e)
       (ancestors_collect (ancestors_iter path))"

definition descendant_io_conflict :: "(string, IOEntry) omap \<Rightarrow> string \<Rightarrow> LockMode \<Rightarrow> bool" where
  "descendant_io_conflict ls path mode =
     (let pre = (if ends_with path ''/'' then path else path @ ''/'');
          upper = butlast pre @ ''0''
      in list_ex (\<lambda>(_, e). entry_blocks mode e) (om_range pre upper ls))"

definition hold_entry :: "nat \<Rightarrow> LockMode \<Rightarrow> IOEntry \<Rightarrow> IOEntry" where
  "hold_entry handle mode e =
     (case mode of
        ModeRead \<Rightarrow> e\<lparr>io_readers := io_readers e + 1\<rparr>
      | ModeWrite \<Rightarrow> e\<lparr>io_writer := Some handle\<rparr>)"

definition try_acquire_io_locked ::
  "string \<Rightarrow> LockMode \<Rightarrow> IOLockState \<Rightarrow> nat \<Rightarrow> nat option \<times> IOLockState \<times> nat" where
  "try_acquire_io_locked path mode s next_handle =
     (if ancestor_io_conflict (io_locks s) path mode then (None, s, next_handle)
      else if descendant_io_conflict (io_locks s) path mode then (None, s, next_handle)
      else
        let e = (case map_of (io_locks s) path of Some e \<Rightarrow> e | None \<Rightarrow> io_entry_default) in
        if entry_blocks mode e then (None, s\<lparr>io_locks := om_put path e (io_locks s)\<rparr>, next_handle)
        else
          let handle = next_handle + 1 in
             (Some handle,
              s\<lparr>io_locks := om_put path (hold_entry handle mode e) (io_locks s),
                io_handles := om_put handle \<lparr>hi_path = path, hi_mode = mode\<rparr> (io_handles s)\<rparr>,
              handle))"

definition release_entry :: "nat \<Rightarrow> LockMode \<Rightarrow> IOEntry \<Rightarrow> IOEntry" where
  "release_entry handle mode e =
     (case mode of
        ModeRead \<Rightarrow> e\<lparr>io_readers := io_readers e - 1\<rparr>
      | ModeWrite \<Rightarrow> if io_writer e = Some handle then e\<lparr>io_writer := None\<rparr> else e)"

definition release_io :: "nat \<Rightarrow> IOLockState \<Rightarrow> bool \<times> IOLockState" where
  "release_io handle s =
     (case map_of (io_handles s) handle of
        None \<Rightarrow> (False, s)
      | Some info \<Rightarrow>
          let s1 = s\<lparr>io_handles := om_del handle (io_handles s)\<rparr> in
          case map_of (io_locks s) (hi_path info) of
            None \<Rightarrow> (True, s1)
          | Some e \<Rightarrow>
              let e' = release_entry handle (hi_mode info) e in
              (True, s1\<lparr>io_locks := (if is_idle e' then om_del (hi_path info) (io_locks s)
                                     else om_put (hi_path info) e' (io_locks s))\<rparr>))"

section \<open>The manager\<close>

record LockManager =
  lm_io :: IOLockState
  lm_next_handle :: nat
  lm_advisory :: LockState
  lm_acquire_count :: nat
  lm_release_count :: nat
  lm_contention_count :: nat
  lm_timeout_count :: nat

definition lock_manager_new :: LockManager where
  "lock_manager_new =
     \<lparr>lm_io = \<lparr>io_locks = [], io_handles = []\<rparr>, lm_next_handle = 0, lm_advisory = lock_state_new,
      lm_acquire_count = 0, lm_release_count = 0, lm_contention_count = 0, lm_timeout_count = 0\<rparr>"

text \<open>
  A blocking acquire is three blocks: the attempt before any wait, the entry of
  the wait, and the attempt after it.  A result is a handle, or 0 for a time-out;
  no result means that the loop goes on.
\<close>

definition try_acquire :: "string \<Rightarrow> LockMode \<Rightarrow> LockManager \<Rightarrow> nat option \<times> LockManager" where
  "try_acquire norm_path mode lm =
     (case try_acquire_io_locked norm_path mode (lm_io lm) (lm_next_handle lm) of
        (None, s, n) \<Rightarrow> (None, lm\<lparr>lm_io := s, lm_next_handle := n\<rparr>)
      | (Some handle, s, n) \<Rightarrow>
          (Some handle, lm\<lparr>lm_io := s, lm_next_handle := n, lm_acquire_count := lm_acquire_count lm + 1\<rparr>))"

definition acquire_fast :: "string \<Rightarrow> LockMode \<Rightarrow> nat \<Rightarrow> LockManager \<Rightarrow> nat option \<times> LockManager" where
  "acquire_fast path mode timeout_ms lm =
     (case try_acquire (normalize_path path) mode lm of
        (Some handle, lm') \<Rightarrow> (Some handle, lm')
      | (None, lm') \<Rightarrow>
          if timeout_ms = 0
          then (Some 0, lm'\<lparr>lm_contention_count := lm_contention_count lm' + 1,
                            lm_timeout_count := lm_timeout_count lm' + 1\<rparr>)
          else (None, lm'))"

definition begin_wait :: "bool \<Rightarrow> LockManager \<Rightarrow> nat option \<times> LockManager" where
  "begin_wait past_deadline lm =
     (let lm1 = lm\<lparr>lm_contention_count := lm_contention_count lm + 1\<rparr> in
      if past_deadline then (Some 0, lm1\<lparr>lm_timeout_count := lm_timeout_count lm1 + 1\<rparr>) else (None, lm1))"

definition after_wait :: "string \<Rightarrow> LockMode \<Rightarrow> bool \<Rightarrow> LockManager \<Rightarrow> nat option \<times> LockManager" where
  "after_wait norm_path mode timed_out lm =
     (case try_acquire norm_path mode lm of
        (Some handle, lm') \<Rightarrow> (Some handle, lm')
      | (None, lm') \<Rightarrow>
          if timed_out then (Some 0, lm'\<lparr>lm_timeout_count := lm_timeout_count lm' + 1\<rparr>) else (None, lm'))"

definition do_release :: "nat \<Rightarrow> LockManager \<Rightarrow> bool \<times> LockManager" where
  "do_release handle lm =
     (case release_io handle (lm_io lm) of
        (released, s) \<Rightarrow>
          (released, lm\<lparr>lm_io := s,
             lm_release_count := (if released then lm_release_count lm + 1 else lm_release_count lm)\<rparr>))"

definition is_locked :: "string \<Rightarrow> LockManager \<Rightarrow> bool" where
  "is_locked path lm =
     (case map_of (io_locks (lm_io lm)) (normalize_path path) of None \<Rightarrow> False | Some e \<Rightarrow> \<not> is_idle e)"

definition io_holders :: "string \<Rightarrow> LockManager \<Rightarrow> (nat \<times> nat) option" where
  "io_holders path lm =
     (case map_of (io_locks (lm_io lm)) (normalize_path path) of
        None \<Rightarrow> None
      | Some e \<Rightarrow>
          if is_idle e then None
          else Some (io_readers e, case io_writer e of Some h \<Rightarrow> h | None \<Rightarrow> 0))"

definition io_active_locks :: "LockManager \<Rightarrow> nat" where
  "io_active_locks lm = length (filter (\<lambda>(_, e). \<not> is_idle e) (io_locks (lm_io lm)))"

definition io_active_handles :: "LockManager \<Rightarrow> nat" where
  "io_active_handles lm = length (io_handles (lm_io lm))"

text \<open>The advisory calls, on the local backend; a time to live is clamped to 32 bits.\<close>

definition clamp_ttl :: "u64 \<Rightarrow> u32" where
  "clamp_ttl ttl_secs = ucast (min ttl_secs 0xFFFFFFFF)"

definition acquire_lock ::
  "u64 \<Rightarrow> string \<Rightarrow> string \<Rightarrow> u32 \<Rightarrow> u64 \<Rightarrow> string \<Rightarrow> LockManager \<Rightarrow> bool \<times> LockManager" where
  "acquire_lock now path lid maxh ttl_secs info lm =
     (case apply_acquire path lid maxh (clamp_ttl ttl_secs) info now (lm_advisory lm) of
        (result, s) \<Rightarrow> (lr_acquired result, lm\<lparr>lm_advisory := s\<rparr>))"

definition release_lock :: "string \<Rightarrow> string \<Rightarrow> LockManager \<Rightarrow> bool \<times> LockManager" where
  "release_lock path lid lm =
     (case apply_release path lid (lm_advisory lm) of (found, s) \<Rightarrow> (found, lm\<lparr>lm_advisory := s\<rparr>))"

definition force_release_lock :: "string \<Rightarrow> LockManager \<Rightarrow> bool \<times> LockManager" where
  "force_release_lock path lm =
     (case apply_force_release path (lm_advisory lm) of (found, s) \<Rightarrow> (found, lm\<lparr>lm_advisory := s\<rparr>))"

definition extend_lock :: "u64 \<Rightarrow> string \<Rightarrow> string \<Rightarrow> u64 \<Rightarrow> LockManager \<Rightarrow> bool \<times> LockManager" where
  "extend_lock now path lid ttl_secs lm =
     (case apply_extend path lid (clamp_ttl ttl_secs) now (lm_advisory lm) of
        (extended, s) \<Rightarrow> (extended, lm\<lparr>lm_advisory := s\<rparr>))"

definition get_lock_info :: "string \<Rightarrow> LockManager \<Rightarrow> LockInfo option" where
  "get_lock_info path lm = get_lock (lm_advisory lm) path"

section \<open>Threads\<close>

datatype Phase =
    Running
  | Looping string LockMode
  | Waiting string LockMode
  | Woken string LockMode bool

record IoSystem =
  is_manager :: LockManager
  is_threads :: "nat \<Rightarrow> Phase"

definition notify_all :: "(nat \<Rightarrow> Phase) \<Rightarrow> nat \<Rightarrow> Phase" where
  "notify_all threads t = (case threads t of Waiting p m \<Rightarrow> Woken p m False | phase \<Rightarrow> phase)"

inductive io_step :: "IoSystem \<Rightarrow> IoSystem \<Rightarrow> bool" where
  called: "is_threads y t = Running \<Longrightarrow> acquire_fast path mode timeout_ms (is_manager y) = (r, lm) \<Longrightarrow>
    io_step y (y\<lparr>is_manager := lm,
      is_threads := (is_threads y)(t := (if r = None then Looping (normalize_path path) mode else Running))\<rparr>)"
| waits: "is_threads y t = Looping p m \<Longrightarrow> begin_wait past_deadline (is_manager y) = (r, lm) \<Longrightarrow>
    io_step y (y\<lparr>is_manager := lm, is_threads := (is_threads y)(t := (if r = None then Waiting p m else Running))\<rparr>)"
| expires: "is_threads y t = Waiting p m \<Longrightarrow>
    io_step y (y\<lparr>is_threads := (is_threads y)(t := Woken p m True)\<rparr>)"
| retries: "is_threads y t = Woken p m timed_out \<Longrightarrow> after_wait p m timed_out (is_manager y) = (r, lm) \<Longrightarrow>
    io_step y (y\<lparr>is_manager := lm, is_threads := (is_threads y)(t := (if r = None then Looping p m else Running))\<rparr>)"
| releases: "do_release handle (is_manager y) = (released, lm) \<Longrightarrow>
    io_step y (y\<lparr>is_manager := lm,
      is_threads := (if released then notify_all (is_threads y) else is_threads y)\<rparr>)"

definition io_system_new :: IoSystem where
  "io_system_new = \<lparr>is_manager = lock_manager_new, is_threads = (\<lambda>_. Running)\<rparr>"

section \<open>Normal paths\<close>

lemma has_double_slash_simps [simp]:
  "\<not> has_double_slash []" "\<not> has_double_slash [a]"
  "has_double_slash (a # b # path) \<longleftrightarrow> (a = CHR ''/'' \<and> b = CHR ''/'') \<or> has_double_slash (b # path)"
  by (simp_all add: has_double_slash_def)

lemma has_double_slash_Cons: "has_double_slash path \<Longrightarrow> has_double_slash (c # path)"
  by (cases path) auto

lemma has_double_slash_iff: "has_double_slash path \<longleftrightarrow> (\<exists>a b. path = a @ ''//'' @ b)"
proof
  show "\<exists>a b. path = a @ ''//'' @ b" if "has_double_slash path"
    using that
  proof (induction path rule: induct_list012)
    case (3 x y zs)
    show ?case
    proof (cases "x = CHR ''/'' \<and> y = CHR ''/''")
      case True
      then have "x # y # zs = [] @ ''//'' @ zs" by simp
      then show ?thesis by blast
    next
      case False
      then obtain a b where "y # zs = a @ ''//'' @ b"
        using 3 by auto
      then have "x # y # zs = (x # a) @ ''//'' @ b" by simp
      then show ?thesis by blast
    qed
  qed simp_all
  have "has_double_slash (a @ ''//'' @ b)" for a b
    by (induction a) (simp_all add: has_double_slash_Cons)
  then show "has_double_slash path" if "\<exists>a b. path = a @ ''//'' @ b"
    using that by blast
qed

lemma collapse_slashes_id:
  "\<not> has_double_slash path \<Longrightarrow> (prev \<longrightarrow> path = [] \<or> hd path \<noteq> CHR ''/'') \<Longrightarrow> collapse_slashes prev path = path"
proof (induction path arbitrary: prev)
  case (Cons c cs)
  then show ?case by (cases cs) auto
qed simp

lemma collapse_slashes_normal:
  "\<not> has_double_slash (collapse_slashes prev path) \<and>
   (prev \<longrightarrow> collapse_slashes prev path = [] \<or> hd (collapse_slashes prev path) \<noteq> CHR ''/'')"
proof (induction path arbitrary: prev)
  case (Cons c cs)
  have "\<not> has_double_slash (x # xs)" if "\<not> has_double_slash xs" "x = CHR ''/'' \<longrightarrow> xs = [] \<or> hd xs \<noteq> CHR ''/''"
    for x and xs :: string
    using that by (cases xs) auto
  then show ?case
    using Cons.IH [of True] Cons.IH [of False] by auto
qed simp

definition normal :: "string \<Rightarrow> bool" where
  "normal p \<longleftrightarrow> p \<noteq> [] \<and> \<not> has_double_slash p \<and> (ends_with p ''/'' \<longrightarrow> p = ''/'')"

lemma trim_slash_normal:
  assumes "p \<noteq> []" and "\<not> has_double_slash p"
  shows "normal (trim_slash p)"
proof (cases "1 < length p \<and> ends_with p ''/''")
  case True
  then obtain q where q: "p = q @ ''/''"
    by (auto simp: ends_with_iff)
  have no: "q @ ''/'' \<noteq> a @ ''//'' @ b" for a b
    using assms(2) by (auto simp: q has_double_slash_iff)
  have "\<not> ends_with q ''/''"
    using no [of _ "[]"] by (auto simp: ends_with_iff)
  moreover have "\<not> has_double_slash q"
    using no [of _ "_ @ ''/''"] by (auto simp: has_double_slash_iff)
  ultimately show ?thesis
    using True by (auto simp: trim_slash_def normal_def q)
next
  case False
  then show ?thesis
    using assms by (cases p) (auto simp: trim_slash_def normal_def ends_with_iff)
qed

lemma normal_normalize: "normal (normalize_path p)"
proof -
  have "collapse_slashes False p \<noteq> []" if "p \<noteq> []"
    using that by (cases p) auto
  moreover have "normal ''/''"
    by (simp add: normal_def)
  ultimately show ?thesis
    using trim_slash_normal collapse_slashes_normal [of False p] by (simp add: normalize_path_def)
qed

lemma normalize_normal: "normal p \<Longrightarrow> normalize_path p = p"
  by (auto simp: normal_def normalize_path_def trim_slash_def)

section \<open>The hierarchy of paths\<close>

lemma ancestors_collect_loop:
  "ancestors_collect \<lparr>an_path = p, an_end = n, an_done = False\<rparr> = ancestors_loop p n"
proof (induction p n rule: ancestors_loop.induct)
  case (1 p n)
  have stop: "ancestors_collect (a\<lparr>an_done := True\<rparr>) = []" for a
    by (subst ancestors_collect.simps) (simp add: ancestors_next_def)
  show ?case
    using 1 stop [of "\<lparr>an_path = p, an_end = n, an_done = False\<rparr>"]
    by (subst ancestors_collect.simps, subst ancestors_loop.simps)
      (auto simp: ancestors_next_def split: option.split)
qed

lemma ancestors_collect_eq: "ancestors_collect (ancestors_iter p) = ancestors p"
proof (cases "p = ''/'' \<or> p = []")
  case True
  then show ?thesis
    by (subst ancestors_collect.simps) (auto simp: ancestors_iter_def ancestors_next_def ancestors_def)
next
  case False
  then show ?thesis
    by (simp add: ancestors_iter_def ancestors_def ancestors_collect_loop)
qed

definition overlaps :: "string \<Rightarrow> string \<Rightarrow> bool" where
  "overlaps p q \<longleftrightarrow> p = q \<or> p \<in> set (ancestors q) \<or> q \<in> set (ancestors p)"

lemma overlaps_sym: "overlaps p q \<longleftrightarrow> overlaps q p"
  by (auto simp: overlaps_def)

lemma below_normal:
  assumes "normal p"
  shows "starts_with q (fst (descendant_range p)) \<longleftrightarrow> p \<in> set (ancestors q) \<or> (p = ''/'' \<and> q = ''/'')"
proof (cases "p = ''/''")
  case True
  then show ?thesis
    by (auto simp: descendant_range_fst starts_with_iff ends_with_iff ancestors_iff)
next
  case False
  then have "\<not> ends_with p ''/''" "p \<noteq> []"
    using assms by (auto simp: normal_def)
  then show ?thesis
    using False by (auto simp: descendant_range_fst starts_with_iff ancestors_iff)
qed

section \<open>The table is the handles\<close>

definition clash :: "LockMode \<Rightarrow> LockMode \<Rightarrow> bool" where
  "clash m n \<longleftrightarrow> m = ModeWrite \<or> n = ModeWrite"

abbreviation handle_at :: "IOLockState \<Rightarrow> nat \<Rightarrow> HandleInfo option" where
  "handle_at s \<equiv> map_of (io_handles s)"

definition holding :: "IOLockState \<Rightarrow> string \<Rightarrow> LockMode \<Rightarrow> nat set" where
  "holding s p m = {h. handle_at s h = Some \<lparr>hi_path = p, hi_mode = m\<rparr>}"

definition entry_at :: "IOLockState \<Rightarrow> string \<Rightarrow> IOEntry" where
  "entry_at s p = (case map_of (io_locks s) p of Some e \<Rightarrow> e | None \<Rightarrow> io_entry_default)"

definition io_inv :: "IOLockState \<Rightarrow> nat \<Rightarrow> bool" where
  "io_inv s n \<longleftrightarrow>
     om_wf (io_locks s) \<and> om_wf (io_handles s) \<and>
     (\<forall>h i. handle_at s h = Some i \<longrightarrow> 1 \<le> h \<and> h \<le> n) \<and>
     (\<forall>p. io_readers (entry_at s p) = card (holding s p ModeRead) \<and>
        (\<forall>h. io_writer (entry_at s p) = Some h \<longleftrightarrow> h \<in> holding s p ModeWrite)) \<and>
     (\<forall>p e. map_of (io_locks s) p = Some e \<longrightarrow> \<not> is_idle e) \<and>
     (\<forall>h k i j. handle_at s h = Some i \<longrightarrow> handle_at s k = Some j \<longrightarrow> h \<noteq> k \<longrightarrow>
        overlaps (hi_path i) (hi_path j) \<longrightarrow> \<not> clash (hi_mode i) (hi_mode j))"

lemma io_invI:
  assumes "om_wf (io_locks s)" "om_wf (io_handles s)"
    and "\<And>h i. handle_at s h = Some i \<Longrightarrow> 1 \<le> h \<and> h \<le> n"
    and "\<And>p. io_readers (entry_at s p) = card (holding s p ModeRead)"
    and "\<And>p h. (io_writer (entry_at s p) = Some h) = (h \<in> holding s p ModeWrite)"
    and "\<And>p e. map_of (io_locks s) p = Some e \<Longrightarrow> \<not> is_idle e"
    and "\<And>h k i j. handle_at s h = Some i \<Longrightarrow> handle_at s k = Some j \<Longrightarrow> h \<noteq> k \<Longrightarrow>
      overlaps (hi_path i) (hi_path j) \<Longrightarrow> \<not> clash (hi_mode i) (hi_mode j)"
  shows "io_inv s n"
  using assms unfolding io_inv_def by blast

lemma io_invD:
  assumes "io_inv s n"
  shows "om_wf (io_locks s)" "om_wf (io_handles s)"
    and "handle_at s h = Some i \<Longrightarrow> 1 \<le> h" "handle_at s h = Some i \<Longrightarrow> h \<le> n"
    and "io_readers (entry_at s p) = card (holding s p ModeRead)"
    and "(io_writer (entry_at s p) = Some h) = (h \<in> holding s p ModeWrite)"
    and "map_of (io_locks s) p = Some e \<Longrightarrow> \<not> is_idle e"
    and "handle_at s h = Some i \<Longrightarrow> handle_at s k = Some j \<Longrightarrow> h \<noteq> k \<Longrightarrow>
      overlaps (hi_path i) (hi_path j) \<Longrightarrow> \<not> clash (hi_mode i) (hi_mode j)"
  using assms unfolding io_inv_def by blast+

lemma finite_holding [simp]: "finite (holding s p m)"
  by (rule finite_subset [OF _ finite_dom_map_of [of "io_handles s"]]) (auto simp: holding_def)

lemma holding_iff: "(\<exists>h. h \<in> holding s p m) \<longleftrightarrow> (\<exists>h i. handle_at s h = Some i \<and> hi_path i = p \<and> hi_mode i = m)"
proof -
  have "i = \<lparr>hi_path = p, hi_mode = m\<rparr> \<longleftrightarrow> hi_path i = p \<and> hi_mode i = m" for i :: HandleInfo
    by (cases i) simp
  then show ?thesis
    by (simp add: holding_def) metis
qed

lemma entry_blocks_iff:
  assumes "io_inv s n"
  shows "entry_blocks mode (entry_at s p) \<longleftrightarrow>
    (\<exists>h i. handle_at s h = Some i \<and> hi_path i = p \<and> clash mode (hi_mode i))"
proof -
  have w: "io_writer (entry_at s p) \<noteq> None \<longleftrightarrow> (\<exists>h. h \<in> holding s p ModeWrite)"
    using assms by (auto simp: io_inv_def)
  have r: "0 < io_readers (entry_at s p) \<longleftrightarrow> (\<exists>h. h \<in> holding s p ModeRead)"
    using assms by (auto simp: io_inv_def card_gt_0_iff)
  have "entry_blocks mode e \<longleftrightarrow> io_writer e \<noteq> None \<or> (mode = ModeWrite \<and> 0 < io_readers e)" for e
    by (cases mode) simp_all
  moreover have "clash mode m \<longleftrightarrow> m = ModeWrite \<or> (mode = ModeWrite \<and> m = ModeRead)" for m
    by (cases m) (simp_all add: clash_def)
  ultimately show ?thesis
    by (simp only: w r holding_iff) blast
qed

lemma entry_at_None: "map_of (io_locks s) p = None \<Longrightarrow> \<not> entry_blocks mode (entry_at s p)"
  by (cases mode) (simp_all add: entry_at_def io_entry_default_def)

lemma ancestor_io_conflict_iff:
  "ancestor_io_conflict (io_locks s) p mode \<longleftrightarrow> (\<exists>q \<in> set (ancestors p). entry_blocks mode (entry_at s q))"
  using entry_at_None
  by (auto simp: ancestor_io_conflict_def ancestors_collect_eq list_ex_iff entry_at_def split: option.split_asm option.split)

lemma descendant_io_conflict_iff:
  assumes "om_wf (io_locks s)"
  shows "descendant_io_conflict (io_locks s) p mode \<longleftrightarrow>
    (\<exists>q. starts_with q (fst (descendant_range p)) \<and> entry_blocks mode (entry_at s q))"
proof -
  have "descendant_io_conflict (io_locks s) p mode \<longleftrightarrow>
      (\<exists>q e. (q, e) \<in> set (io_locks s) \<and> starts_with q (fst (descendant_range p)) \<and> entry_blocks mode e)"
    unfolding descendant_range_iff [symmetric]
    by (fastforce simp: descendant_io_conflict_def Let_def list_ex_iff om_range_def descendant_range_def)
  also have "\<dots> \<longleftrightarrow> (\<exists>q. starts_with q (fst (descendant_range p)) \<and> entry_blocks mode (entry_at s q))"
    using entry_at_None
    by (auto simp: om_lookup_iff [OF assms, symmetric] entry_at_def split: option.split_asm, metis option.exhaust option.simps(4,5))
  finally show ?thesis .
qed

text \<open>What an attempt finds in its way.\<close>

lemma try_acquire_io_locked_cases:
  assumes "io_inv s n"
  obtains (blocked) h i where "try_acquire_io_locked p mode s n = (None, s, n)" "handle_at s h = Some i"
      "hi_path i = p \<or> hi_path i \<in> set (ancestors p) \<or> starts_with (hi_path i) (fst (descendant_range p))"
      "clash mode (hi_mode i)"
  | (granted) "try_acquire_io_locked p mode s n =
      (Some (n + 1),
       s\<lparr>io_locks := om_put p (hold_entry (n + 1) mode (entry_at s p)) (io_locks s),
         io_handles := om_put (n + 1) \<lparr>hi_path = p, hi_mode = mode\<rparr> (io_handles s)\<rparr>, n + 1)"
      "\<forall>h i. handle_at s h = Some i \<longrightarrow> overlaps p (hi_path i) \<longrightarrow> \<not> clash mode (hi_mode i)"
proof -
  have wf: "om_wf (io_locks s)"
    using assms by (simp add: io_inv_def)
  note blocks = entry_blocks_iff [OF assms]
  show thesis
  proof (cases "ancestor_io_conflict (io_locks s) p mode \<or> descendant_io_conflict (io_locks s) p mode")
    case True
    then have "try_acquire_io_locked p mode s n = (None, s, n)"
      by (auto simp: try_acquire_io_locked_def)
    moreover obtain h i where "handle_at s h = Some i" "clash mode (hi_mode i)"
      "hi_path i \<in> set (ancestors p) \<or> starts_with (hi_path i) (fst (descendant_range p))"
      using True unfolding ancestor_io_conflict_iff descendant_io_conflict_iff [OF wf] blocks by blast
    ultimately show thesis
      using blocked by blast
  next
    case clear: False
    show thesis
    proof (cases "entry_blocks mode (entry_at s p)")
      case True
      then obtain e where e: "map_of (io_locks s) p = Some e"
        using entry_at_None by (cases "map_of (io_locks s) p") auto
      have "om_put p e (io_locks s) = io_locks s"
        using e wf by (intro om_ext) auto
      then have "try_acquire_io_locked p mode s n = (None, s, n)"
        using clear True e by (simp add: try_acquire_io_locked_def entry_at_def)
      then show thesis
        using blocked True unfolding blocks by blast
    next
      case False
      have "\<not> clash mode (hi_mode i)" if "handle_at s h = Some i" "overlaps p (hi_path i)" for h i
      proof -
        have "hi_path i = p \<or> hi_path i \<in> set (ancestors p) \<or> starts_with (hi_path i) (fst (descendant_range p))"
          using that(2) ancestor_in_descendant_range by (auto simp: overlaps_def)
        then show ?thesis
          using that(1) clear False
          unfolding ancestor_io_conflict_iff descendant_io_conflict_iff [OF wf] blocks by blast
      qed
      moreover have "try_acquire_io_locked p mode s n =
          (Some (n + 1),
           s\<lparr>io_locks := om_put p (hold_entry (n + 1) mode (entry_at s p)) (io_locks s),
             io_handles := om_put (n + 1) \<lparr>hi_path = p, hi_mode = mode\<rparr> (io_handles s)\<rparr>, n + 1)"
        using clear False
        by (simp add: try_acquire_io_locked_def entry_at_def [symmetric] Let_def)
      ultimately show thesis
        using granted by blast
    qed
  qed
qed

lemma holding_put:
  assumes "handle_at s k = None"
  shows "holding (s\<lparr>io_locks := ls, io_handles := om_put k \<lparr>hi_path = q, hi_mode = n\<rparr> (io_handles s)\<rparr>) p m =
    (if p = q \<and> m = n then insert k (holding s p m) else holding s p m)"
  using assms by (auto simp: holding_def)

lemma holding_del:
  "holding (s\<lparr>io_handles := om_del k (io_handles s), io_locks := ls\<rparr>) p m = holding s p m - {k}"
  by (auto simp: holding_def)

lemma io_inv_grant:
  assumes inv: "io_inv s n" and k: "n < k"
    and free: "\<forall>h i. handle_at s h = Some i \<longrightarrow> overlaps p (hi_path i) \<longrightarrow> \<not> clash mode (hi_mode i)"
  shows "io_inv (s\<lparr>io_locks := om_put p (hold_entry k mode (entry_at s p)) (io_locks s),
                 io_handles := om_put k \<lparr>hi_path = p, hi_mode = mode\<rparr> (io_handles s)\<rparr>) k"
    (is "io_inv ?s _")
proof -
  have new: "handle_at s k = None"
    using inv k by (force simp: io_inv_def)
  have fresh: "k \<notin> holding s q m" for q m
    using new by (simp add: holding_def)
  have at: "entry_at ?s q = (if q = p then hold_entry k mode (entry_at s p) else entry_at s q)" for q
    by (simp add: entry_at_def)
  have readers: "io_readers (entry_at s q) = card (holding s q ModeRead)"
    and writer: "(io_writer (entry_at s q) = Some h) = (h \<in> holding s q ModeWrite)" for q h
    using inv by (simp_all add: io_inv_def)
  have none: "holding s p ModeWrite = {}"
    using free by (force simp: holding_def overlaps_def clash_def)
  show ?thesis
  proof (rule io_invI)
    show "io_readers (entry_at ?s q) = card (holding ?s q ModeRead)" for q
      unfolding at holding_put [OF new] by (cases mode) (simp_all add: hold_entry_def readers fresh)
    show "(io_writer (entry_at ?s q) = Some h) = (h \<in> holding ?s q ModeWrite)" for q h
      unfolding at holding_put [OF new] using none by (cases mode) (auto simp: hold_entry_def writer)
    have "\<not> is_idle (hold_entry k mode (entry_at s p))"
      by (cases mode) (simp_all add: hold_entry_def is_idle_def)
    then show "\<not> is_idle e" if "map_of (io_locks ?s) q = Some e" for q e
      using that io_invD(7) [OF inv] by (auto split: if_split_asm)
    show "\<not> clash (hi_mode i) (hi_mode j)"
      if "handle_at ?s h = Some i" "handle_at ?s g = Some j" "h \<noteq> g" "overlaps (hi_path i) (hi_path j)" for h g i j
      using that io_invD(8) [OF inv] free overlaps_sym by (auto simp: clash_def split: if_split_asm)
    show "1 \<le> h \<and> h \<le> k" if "handle_at ?s h = Some i" for h i
      using that k io_invD(3,4) [OF inv] by (auto split: if_split_asm) (meson le_trans less_imp_le)
  qed (use inv in \<open>simp_all add: io_invD\<close>)
qed

lemma io_inv_release:
  assumes inv: "io_inv s n"
  shows "io_inv (snd (release_io k s)) n \<and>
    io_handles (snd (release_io k s)) = om_del k (io_handles s) \<and> (fst (release_io k s) \<longleftrightarrow> handle_at s k \<noteq> None)"
proof (cases "handle_at s k")
  case None
  then have "om_del k (io_handles s) = io_handles s"
    by (intro om_ext) (auto simp: io_invD [OF inv] fun_upd_idem)
  then show ?thesis
    using None inv by (simp add: release_io_def)
next
  case (Some i)
  obtain p mode where i: "i = \<lparr>hi_path = p, hi_mode = mode\<rparr>"
    by (cases i) auto
  then have held: "k \<in> holding s p mode"
    using Some by (simp add: holding_def)
  have only: "k \<in> holding s q m \<longleftrightarrow> q = p \<and> m = mode" for q m
    using Some by (auto simp: holding_def i)
  have single: "h = k" if "mode = ModeWrite" "h \<in> holding s p ModeWrite" for h
    using that held io_invD(6) [OF inv, of p h] io_invD(6) [OF inv, of p k] by simp
  let ?e = "release_entry k mode (entry_at s p)"
  have "entry_at s p \<noteq> io_entry_default"
    using held io_invD(5,6) [OF inv, of p] by (cases mode) (auto simp: io_entry_default_def card_gt_0_iff dest!: sym [of 0])
  then obtain e where e: "map_of (io_locks s) p = Some e" "entry_at s p = e"
    by (cases "map_of (io_locks s) p") (auto simp: entry_at_def)
  define s' where "s' = s\<lparr>io_handles := om_del k (io_handles s),
      io_locks := (if is_idle ?e then om_del p (io_locks s) else om_put p ?e (io_locks s))\<rparr>"
  have run: "release_io k s = (True, s')"
    using Some e by (simp add: release_io_def i s'_def Let_def)
  have at: "entry_at s' q = (if q = p then ?e else entry_at s q)" for q
    by (auto simp: s'_def entry_at_def is_idle_def io_entry_default_def)
  have hold: "holding s' q m = holding s q m - {k}" for q m
    by (auto simp: s'_def holding_def)
  have "io_inv s' n"
  proof (rule io_invI)
    show "io_readers (entry_at s' q) = card (holding s' q ModeRead)" for q
      unfolding at hold using only io_invD(5) [OF inv] held
      by (cases mode) (auto simp: release_entry_def card_Diff_singleton)
    show "(io_writer (entry_at s' q) = Some h) = (h \<in> holding s' q ModeWrite)" for q h
      unfolding at hold using only io_invD(6) [OF inv] held single
      by (cases mode) (auto simp: release_entry_def)
    show "\<not> is_idle e" if "map_of (io_locks s') q = Some e" for q e
      using that io_invD(7) [OF inv] by (auto simp: s'_def split: if_split_asm)
    show "\<not> clash (hi_mode i) (hi_mode j)"
      if "handle_at s' h = Some i" "handle_at s' g = Some j" "h \<noteq> g" "overlaps (hi_path i) (hi_path j)" for h g i j
      using that io_invD(8) [OF inv] by (auto simp: s'_def split: if_split_asm)
    show "1 \<le> h \<and> h \<le> n" if "handle_at s' h = Some i" for h i
      using that io_invD(3,4) [OF inv] by (auto simp: s'_def split: if_split_asm)
  qed (use inv in \<open>auto simp: s'_def io_invD\<close>)
  then show ?thesis
    using Some by (simp add: run) (simp add: s'_def)
qed

section \<open>Runs\<close>

abbreviation manager_ok :: "LockManager \<Rightarrow> bool" where
  "manager_ok lm \<equiv> io_inv (lm_io lm) (lm_next_handle lm)"

lemma try_acquire_ok:
  assumes "manager_ok lm"
  shows "manager_ok (snd (try_acquire p mode lm))"
proof (cases rule: try_acquire_io_locked_cases [OF assms, where p = p and mode = mode, case_names blocked granted])
  case (blocked h i)
  then show ?thesis
    using assms by (simp add: try_acquire_def)
next
  case granted
  then show ?thesis
    using io_inv_grant [OF assms, of "lm_next_handle lm + 1", OF _ granted(2)] by (simp add: try_acquire_def)
qed

lemma io_step_ok:
  assumes "io_step y y'" and "manager_ok (is_manager y)"
  shows "manager_ok (is_manager y')"
  using assms(1)
proof cases
  case (called t path mode timeout_ms r lm)
  then show ?thesis
    using try_acquire_ok [OF assms(2), of "normalize_path path" mode]
    by (auto simp: acquire_fast_def split: prod.split_asm option.split_asm if_split_asm)
next
  case (waits t p m past_deadline r lm)
  then show ?thesis
    using assms(2) by (auto simp: begin_wait_def Let_def split: if_split_asm)
next
  case (retries t p m timed_out r lm)
  then show ?thesis
    using try_acquire_ok [OF assms(2), of p m]
    by (auto simp: after_wait_def split: prod.split_asm option.split_asm if_split_asm)
next
  case (releases handle released lm)
  then show ?thesis
    using io_inv_release [OF assms(2), of handle] by (auto simp: do_release_def split: prod.split_asm)
qed (use assms(2) in simp)

lemma io_reach_ok: "io_step\<^sup>*\<^sup>* io_system_new y \<Longrightarrow> manager_ok (is_manager y)"
proof (induction rule: rtranclp_induct)
  case base
  show ?case
    by (simp add: io_system_new_def lock_manager_new_def io_inv_def entry_at_def io_entry_default_def holding_def)
qed (rule io_step_ok)

text \<open>Two readers of one directory, and a writer of a file elsewhere.\<close>

definition three_calls :: "IoSystem \<Rightarrow> IoSystem" where
  "three_calls y =
     (let call = (\<lambda>path mode y. y\<lparr>is_manager := snd (acquire_fast path mode 0 (is_manager y))\<rparr>)
      in call ''/b/c'' ModeWrite (call ''/a//x/'' ModeRead (call ''/a'' ModeRead y)))"

lemma call_reached:
  assumes "is_threads y = (\<lambda>_. Running)"
  shows "io_step y (y\<lparr>is_manager := snd (acquire_fast path mode 0 (is_manager y))\<rparr>)"
proof -
  obtain r lm where run: "acquire_fast path mode 0 (is_manager y) = (r, lm)"
    by fastforce
  then obtain h where "r = Some h"
    by (auto simp: acquire_fast_def split: prod.split_asm option.split_asm)
  then have "io_step y (y\<lparr>is_manager := lm, is_threads := (is_threads y)(0 := Running)\<rparr>)"
    using io_step.called [OF _ run, of 0] assms by simp
  moreover have "(is_threads y)(0 := Running) = is_threads y"
    using assms by auto
  ultimately show ?thesis
    using run by simp
qed

lemma three_calls_reached: "io_step\<^sup>*\<^sup>* io_system_new (three_calls io_system_new)"
  unfolding three_calls_def Let_def
  by (intro rtranclp.rtrancl_into_rtrancl [where r = io_step, rotated, OF call_reached] rtranclp.rtrancl_refl)
    (simp_all add: io_system_new_def)

section \<open>Properties\<close>

text \<open>
  C11.  Whatever calls, waits, wake-ups and releases of any number of threads ran, two
  handles that are held at the same time on one path, or on a path and a path
  below it, are both for reading.
\<close>

theorem io_locks_exclusive:
  assumes "io_step\<^sup>*\<^sup>* io_system_new y"
    and "map_of (io_handles (lm_io (is_manager y))) h = Some i" and "map_of (io_handles (lm_io (is_manager y))) k = Some j"
    and "h \<noteq> k" and "overlaps (hi_path i) (hi_path j)"
  shows "hi_mode i = ModeRead \<and> hi_mode j = ModeRead"
proof -
  have "\<not> clash (hi_mode i) (hi_mode j)"
    using io_reach_ok [OF assms(1)] assms(2-5) by (rule io_invD(8))
  then show ?thesis
    by (cases "hi_mode i"; cases "hi_mode j") (simp_all add: clash_def)
qed

theorem io_locks_exclusive_witness:
  "\<exists>i j. map_of (io_handles (lm_io (is_manager (three_calls io_system_new)))) 1 = Some i \<and>
     map_of (io_handles (lm_io (is_manager (three_calls io_system_new)))) 2 = Some j \<and>
     overlaps (hi_path i) (hi_path j) \<and> hi_mode i = ModeRead \<and> hi_mode j = ModeRead"
proof -
  let ?hs = "map_of (io_handles (lm_io (is_manager (three_calls io_system_new))))"
  have "case (?hs 1, ?hs 2) of
      (Some i, Some j) \<Rightarrow> hi_path i = ''/a'' \<and> hi_path j = ''/a/x''
    | _ \<Rightarrow> False"
    by code_simp
  then obtain i j where ij: "?hs 1 = Some i" "?hs 2 = Some j" "hi_path i = ''/a''" "hi_path j = ''/a/x''"
    by (auto split: option.split_asm)
  moreover have "overlaps ''/a'' ''/a/x''"
    by (auto simp: overlaps_def ancestors_iff)
  ultimately show ?thesis
    using io_locks_exclusive [OF three_calls_reached ij(1,2)] by auto
qed

text \<open>
  C14.  An attempt is refused exactly when a handle is held on an overlapping path and
  one of the two is for writing; otherwise it returns the next handle, which is
  then held on the normalised path, and every other handle stays as it was.
\<close>

theorem io_acquire_refused_iff:
  assumes "io_step\<^sup>*\<^sup>* io_system_new y" and "acquire_fast path mode 0 (is_manager y) = (r, lm)"
  shows "if \<exists>h i. map_of (io_handles (lm_io (is_manager y))) h = Some i \<and> overlaps (normalize_path path) (hi_path i) \<and>
           (mode = ModeWrite \<or> hi_mode i = ModeWrite)
         then r = Some 0 \<and> lm_io lm = lm_io (is_manager y)
         else r = Some (lm_next_handle (is_manager y) + 1) \<and>
           map_of (io_handles (lm_io lm)) = (map_of (io_handles (lm_io (is_manager y))))
             (lm_next_handle (is_manager y) + 1 \<mapsto> \<lparr>hi_path = normalize_path path, hi_mode = mode\<rparr>)"
proof -
  let ?lm = "is_manager y" and ?p = "normalize_path path"
  note ok = io_reach_ok [OF assms(1)]
  show ?thesis
  proof (cases rule: try_acquire_io_locked_cases [OF ok, where p = ?p and mode = mode, case_names blocked granted])
    case (blocked h i)
    have "overlaps ?p (hi_path i)"
      using blocked(3) below_normal [OF normal_normalize] by (auto simp: overlaps_def)
    then show ?thesis
      using blocked assms(2) by (auto simp: acquire_fast_def try_acquire_def clash_def)
  next
    case granted
    then show ?thesis
      using assms(2) by (auto simp: acquire_fast_def try_acquire_def clash_def)
  qed
qed

theorem io_acquire_refused_iff_witness:
  "fst (acquire_fast ''/a/x/y'' ModeWrite 0 (is_manager (three_calls io_system_new))) = Some 0 \<and>
   fst (acquire_fast ''/b'' ModeRead 0 (is_manager (three_calls io_system_new))) = Some 0 \<and>
   fst (acquire_fast ''/a/y'' ModeRead 0 (is_manager (three_calls io_system_new))) = Some 4"
proof -
  let ?lm = "is_manager (three_calls io_system_new)"
  let ?hs = "[(1 :: nat, \<lparr>hi_path = ''/a'', hi_mode = ModeRead\<rparr>), (2, \<lparr>hi_path = ''/a/x'', hi_mode = ModeRead\<rparr>),
      (3, \<lparr>hi_path = ''/b/c'', hi_mode = ModeWrite\<rparr>)]"
  have hs: "io_handles (lm_io ?lm) = ?hs" and n: "lm_next_handle ?lm = 3"
    by code_simp+
  have paths: "normalize_path ''/a/x/y'' = ''/a/x/y''" "normalize_path ''/b'' = ''/b''" "normalize_path ''/a/y'' = ''/a/y''"
    by code_simp+
  note rule = io_acquire_refused_iff [OF three_calls_reached prod.collapse [symmetric], unfolded hs n]
  have "\<exists>h i. map_of ?hs h = Some i \<and> overlaps ''/a/x/y'' (hi_path i)"
    by (intro exI [of _ 1] exI [of _ "\<lparr>hi_path = ''/a'', hi_mode = ModeRead\<rparr>"]) (auto simp: overlaps_def ancestors_iff)
  moreover have "\<exists>h i. map_of ?hs h = Some i \<and> overlaps ''/b'' (hi_path i) \<and> hi_mode i = ModeWrite"
    by (intro exI [of _ 3] exI [of _ "\<lparr>hi_path = ''/b/c'', hi_mode = ModeWrite\<rparr>"]) (auto simp: overlaps_def ancestors_iff)
  moreover have "\<not> overlaps ''/a/y'' ''/b/c''"
    by (auto simp: overlaps_def ancestors_iff Cons_eq_append_conv)
  ultimately show ?thesis
    using rule [of "''/a/x/y''" ModeWrite] rule [of "''/b''" ModeRead] rule [of "''/a/y''" ModeRead]
    by (auto simp: paths split: if_split_asm)
qed

text \<open>
  C40.  A wake-up can be lost.  A thread whose first attempt fails leaves the mutex
  before it waits; a release in between wakes nobody, and the thread then sleeps
  although nothing is held, so that no release can wake it and only its time-out
  can.
\<close>

theorem io_wakeup_lost:
  "\<exists>y. io_step\<^sup>*\<^sup>* io_system_new y \<and> is_threads y 2 = Waiting ''/a'' ModeWrite \<and>
     io_handles (lm_io (is_manager y)) = [] \<and> (\<forall>handle. \<not> fst (do_release handle (is_manager y)))"
proof -
  define lm1 where "lm1 = snd (acquire_fast ''/a'' ModeWrite 0 lock_manager_new)"
  define lm2 where "lm2 = snd (acquire_fast ''/a'' ModeWrite 50 lm1)"
  define lm3 where "lm3 = snd (do_release 1 lm2)"
  define lm4 where "lm4 = snd (begin_wait False lm3)"
  let ?run = "\<lambda>_. Running" and ?loop = "(\<lambda>_. Running)(2 := Looping ''/a'' ModeWrite)"
  have runs: "fst (acquire_fast ''/a'' ModeWrite 0 lock_manager_new) = Some 1"
    "fst (acquire_fast ''/a'' ModeWrite 50 lm1) = None" "fst (do_release 1 lm2)" "fst (begin_wait False lm3) = None"
    "normalize_path ''/a'' = ''/a''" "io_handles (lm_io lm4) = []"
    unfolding lm4_def lm3_def lm2_def lm1_def by code_simp+
  have same: "notify_all ?loop = ?loop"
    by (auto simp: notify_all_def)
  have s1: "io_step io_system_new \<lparr>is_manager = lm1, is_threads = ?run\<rparr>"
    using call_reached [of io_system_new "''/a''" ModeWrite] by (simp add: io_system_new_def lm1_def)
  have s2: "io_step \<lparr>is_manager = lm1, is_threads = ?run\<rparr> \<lparr>is_manager = lm2, is_threads = ?loop\<rparr>"
    using io_step.called [of "\<lparr>is_manager = lm1, is_threads = ?run\<rparr>" 2 "''/a''" ModeWrite 50 None lm2] runs(2,5)
    by (simp add: lm2_def prod_eq_iff)
  have s3: "io_step \<lparr>is_manager = lm2, is_threads = ?loop\<rparr> \<lparr>is_manager = lm3, is_threads = ?loop\<rparr>"
    using io_step.releases [of 1 "\<lparr>is_manager = lm2, is_threads = ?loop\<rparr>" True lm3] runs(3)
    by (simp add: lm3_def prod_eq_iff same)
  have s4: "io_step \<lparr>is_manager = lm3, is_threads = ?loop\<rparr>
      \<lparr>is_manager = lm4, is_threads = ?loop(2 := Waiting ''/a'' ModeWrite)\<rparr>"
    using io_step.waits [of "\<lparr>is_manager = lm3, is_threads = ?loop\<rparr>" 2 "''/a''" ModeWrite False None lm4] runs(4)
    by (simp add: lm4_def prod_eq_iff)
  have "io_step\<^sup>*\<^sup>* io_system_new \<lparr>is_manager = lm4, is_threads = ?loop(2 := Waiting ''/a'' ModeWrite)\<rparr>"
    by (rule converse_rtranclp_into_rtranclp [where r = io_step, OF s1], rule converse_rtranclp_into_rtranclp [where r = io_step, OF s2],
        rule converse_rtranclp_into_rtranclp [where r = io_step, OF s3], rule r_into_rtranclp, rule s4)
  then show ?thesis
    using runs(6) by (intro exI [of _ "\<lparr>is_manager = lm4, is_threads = ?loop(2 := Waiting ''/a'' ModeWrite)\<rparr>"])
      (simp add: do_release_def release_io_def)
qed

text \<open>
  The short cut of the normalisation for paths without two slashes in a row
  gives what the general case gives; the result has no two slashes in a row and
  no slash at the end, the root apart, and normalising it again changes nothing.
\<close>

theorem normalize_path_canonical:
  "normalize_path path = (if path = [] then ''/'' else trim_slash (collapse_slashes False path)) \<and>
   (\<nexists>a b. normalize_path path = a @ ''//'' @ b) \<and> (\<forall>q. normalize_path path = q @ ''/'' \<longrightarrow> q = []) \<and>
   normalize_path (normalize_path path) = normalize_path path"
proof (intro conjI)
  note norm = normal_normalize [of path, unfolded normal_def]
  show "normalize_path path = (if path = [] then ''/'' else trim_slash (collapse_slashes False path))"
    by (simp add: normalize_path_def collapse_slashes_id)
  show "\<nexists>a b. normalize_path path = a @ ''//'' @ b"
    using norm unfolding has_double_slash_iff by blast
  show "\<forall>q. normalize_path path = q @ ''/'' \<longrightarrow> q = []"
    using norm by (auto simp: ends_with_iff)
  show "normalize_path (normalize_path path) = normalize_path path"
    by (rule normalize_normal) (rule normal_normalize)
qed

end
