(* ===== verification/Spec2Isabelle.thy ===== *)
theory Spec2Isabelle
  imports Lock_State Rebac_Expand Rebac_Interned Rebac_Enforce Pipe_Ring Stream_Buffer Replication_Log Raft_Storage Vfs_Router Wal_Stream Machine_Types
  Zone_Replica Ec_Replication Io_Lock
begin

text \<open>
  \<^bold>\<open>Verification of the core of the Nexus virtual file system.\<close>

  The program is a Rust workspace.  A node runs a kernel
  (\<^verbatim>\<open>rust/kernel\<close>) whose system calls resolve a path through a mount table, pass a
  permission gate, and reach files, pipes and streams.  Zones are replicated
  between nodes by raft (\<^verbatim>\<open>rust/raft\<close>): each zone has a log, a state machine
  with metadata, advisory locks, durable streams and control state, and a
  second, eventually consistent write path with its own log.  Access is decided
  by relationship tuples (\<^verbatim>\<open>rust/lib/src/rebac\<close>, \<^verbatim>\<open>rust/rebac\<close>).  Ids, paths,
  credentials and the lock table are shared contracts (\<^verbatim>\<open>rust/contracts\<close>).

  \<^bold>\<open>Conventions.\<close>  Strings are the lists of their UTF-8 bytes, so
  the lexicographic order of the library is the order of \<^verbatim>\<open>BTreeMap<String, _>\<close>
  and of a redb tree; both are association lists in strictly ascending key
  order (\<^theory_text>\<open>omap\<close> of \<^verbatim>\<open>Nexus_Prelude\<close>).  A hash map is a map, a 32- or 64-bit
  integer a word where its width matters.  A slice out of range panics in Rust
  and is \<^term>\<open>None\<close> here (\<^verbatim>\<open>Byte_Codec\<close>).  Errors are values: each enum of the
  source is a datatype, each \<^verbatim>\<open>Result\<close> a sum.  The wall clock, the string
  interner and the object store of a cold tier are arguments.

  \<^bold>\<open>Theories.\<close>
  \<^item> \<^verbatim>\<open>Nexus_Prelude\<close>: machine types, string operations, the ordered map with its
    interface \<^theory_text>\<open>kv_map\<close>, and the interfaces \<^theory_text>\<open>transition_system\<close> (an invariant kept by
    every operation holds in every reached state) and \<^theory_text>\<open>key_codec\<close>.  \<^verbatim>\<open>Byte_Codec\<close>,
    \<^verbatim>\<open>Text_Format\<close>: big- and little-endian integers, slices, UTF-8, decimal text,
    with their round trips and orders.
  \<^item> \<^verbatim>\<open>Lock_State\<close> (\<^verbatim>\<open>contracts/src/lock_state.rs\<close>): every operation of the advisory
    lock table.  Reached tables are well formed and no two held paths lie one
    above the other; the exact condition under which an acquire succeeds; a lock on
    a path with a trailing slash refuses its own holder.
  \<^item> \<^verbatim>\<open>Contracts\<close> (\<^verbatim>\<open>zone_id.rs\<close>, \<^verbatim>\<open>zone_path.rs\<close>, \<^verbatim>\<open>zone_wire_path.rs\<close>,
    \<^verbatim>\<open>operation_context.rs\<close>, \<^verbatim>\<open>agent_context.rs\<close>, \<^verbatim>\<open>kernel/src/kernel/mod.rs\<close>): validators
    characterised by what they accept; an agent acts only as its owner and in a
    zone it may use.
  \<^item> \<^verbatim>\<open>Rebac_Graph\<close>, \<^verbatim>\<open>Memo_Search\<close>, \<^verbatim>\<open>Rebac_Check\<close> (\<^verbatim>\<open>lib/src/types.rs\<close>,
    \<^verbatim>\<open>lib/src/rebac/mod.rs\<close>): the tuple graph and the evaluator with its memo cache,
    visited set and depth bound.  The specification is the inductive relation
    \<^const>\<open>derivable\<close> on tuples and namespace rules; the evaluator is sound for it under
    any sound cache, and complete for a fresh cache below the depth bound
    \<^const>\<open>MAX_DEPTH\<close> of the code.  \<^verbatim>\<open>Memo_Search\<close> proves this once for an abstract search
    (\<^theory_text>\<open>memo_search\<close>); the string and the interned evaluator are its two instances.
  \<^item> \<^verbatim>\<open>Rebac_Interned\<close> (\<^verbatim>\<open>lib/src/rebac/graph.rs\<close>): the interned evaluator gives the
    answers of the string evaluator.  \<^verbatim>\<open>Rebac_Expand\<close>: expansion to subjects, closure
    of relation names and object listing, sound and complete.
  \<^item> \<^verbatim>\<open>Rebac_Store\<close> (\<^verbatim>\<open>rebac/src/tuple_key.rs\<close>, \<^verbatim>\<open>store.rs\<close>, \<^verbatim>\<open>inmem.rs\<close>): key codec and
    stores.  \<^verbatim>\<open>Rebac_Enforce\<close> (\<^verbatim>\<open>graph_cache.rs\<close>, \<^verbatim>\<open>permission_provider.rs\<close>,
    \<^verbatim>\<open>list_zones.rs\<close>, \<^verbatim>\<open>permission/src/zone_perms.rs\<close>, \<^verbatim>\<open>kernel/src/core/dispatch/mod.rs\<close>):
    the per-zone graph cache as interleaved phases of readers and writers
    (\<^const>\<open>cache_step\<close>), over any store with a revision (\<^theory_text>\<open>revisioned_store\<close>); a hit is fresh;
    a check outside system calls is allowed only by a derivable relation and a
    failing store denies.
  \<^item> \<^verbatim>\<open>Pipe_Ring\<close> and \<^verbatim>\<open>Stream_Buffer\<close> (\<^verbatim>\<open>kernel/src/core/pipe\<close>, \<^verbatim>\<open>core/stream\<close>): the ring
    refines a bounded queue (\<^theory_text>\<open>fifo_channel\<close>), messages leave in the order they came; the
    stream gives every reader the appended records at the returned offsets.
  \<^item> \<^verbatim>\<open>Replication_Log\<close> (\<^verbatim>\<open>raft/src/raft/replication_log.rs\<close>): interleavings of appends,
    acknowledgements, compaction and restarts never reuse a token, and a drain
    returns exactly the unreplicated entries.  \<^verbatim>\<open>Raft_Storage\<close>
    (\<^verbatim>\<open>raft/src/raft/storage.rs\<close>): the stored log refines a list with an offset.
  \<^item> \<^verbatim>\<open>Vfs_Router\<close> (\<^verbatim>\<open>kernel/src/core/vfs_router.rs\<close>): a route is the longest mounted prefix;
    subtree projection is injective and invertible.
  \<^item> \<^verbatim>\<open>State_Command\<close>, \<^verbatim>\<open>Stream_Log\<close> (\<^verbatim>\<open>raft/src/raft/state_machine.rs\<close> and its
    submodules): commands and their classification; the appliers of the
    stream commands refine one append-only log per stream.  \<^verbatim>\<open>Wal_Stream\<close>
    (\<^verbatim>\<open>kernel/src/core/stream/wal.rs\<close>, \<^verbatim>\<open>federation/cold_segment.rs\<close>): what a reader gets
    under every interleaving of appends, seals, trims, reclamation and cold reads
    (\<^const>\<open>wal_step\<close>) is the log, from the retention floor on.

  \<^item> \<^verbatim>\<open>Io_Lock\<close> (\<^verbatim>\<open>kernel/src/core/lock/mod.rs\<close>, \<^verbatim>\<open>locks.rs\<close>): the reader-writer locks of a
    node over the path hierarchy and the blocking acquire, as steps of any number
    of threads (\<^const>\<open>io_step\<close>).  The table always is the handles, two overlapping
    handles are both readers, an attempt is refused exactly for a conflicting
    handle, and a wake-up between the first attempt and the wait is lost.
  \<^item> \<^verbatim>\<open>Record_Control\<close>, \<^verbatim>\<open>Metadata_Rename\<close> (\<^verbatim>\<open>state_machine/conditional_metadata.rs\<close>,
    \<^verbatim>\<open>record_guard.rs\<close>, \<^verbatim>\<open>metadata_rename.rs\<close>): revision tokens and their allocator, protection
    policies, the binding, retirement and admission of guarded records, and the
    subtree rename, each inside one transaction (the option monad, where \<^term>\<open>None\<close> is a
    storage error that stops the replica).  \<^verbatim>\<open>Wire_Version\<close>: the hand-written scan that
    reads the version of a stored image, exact on well-formed images, wrong for
    some and without end for others.
  \<^item> \<^verbatim>\<open>State_Machine\<close> (\<^verbatim>\<open>raft/src/raft/state_machine.rs\<close>): every command of the log, the
    local and the peer write path, and snapshots.  \<^verbatim>\<open>Record_Safety\<close>: a revision names
    one image for ever, and a retired owner freezes its record, in every reachable
    state.  \<^verbatim>\<open>Machine_Types\<close>: the rows of reachable tables are well typed, so that a
    committed command of the protocol always applies; counters stay in their bounds.
  \<^item> \<^verbatim>\<open>Index_Marker\<close>, \<^verbatim>\<open>Zone_Replica\<close> (\<^verbatim>\<open>raft/src/raft/node.rs\<close>, \<^verbatim>\<open>zone_registry.rs\<close>,
    \<^verbatim>\<open>zone_manager.rs\<close>): a replica that applies committed entries, snapshots, compacts,
    installs snapshots of others and restarts (\<^const>\<open>replica_step\<close>, \<^const>\<open>cluster_step\<close>).  While
    each compaction cuts at the index raft-rs has applied, its state is that of
    the log; without that, a lock is lost, and the mount count and local writes
    do not survive a snapshot.
  \<^item> \<^verbatim>\<open>Ec_Write\<close> (\<^verbatim>\<open>node.rs\<close>) and \<^verbatim>\<open>Ec_Replication\<close> (\<^verbatim>\<open>transport/transport_loop.rs\<close>,
    \<^verbatim>\<open>transport/server.rs\<close>): eventually consistent writes.  Sets converge under any order and
    repetition, deletions do not; a token reported as committed is held by a
    majority, under loss, restart and state transfer (\<^const>\<open>ec_step\<close>), when appends do not
    overlap, and may be lost when they do.

  \<^bold>\<open>Bounds and termination.\<close>  Every recursion is structural or has a measure; the
  evaluators recurse to the code's own depth bound, and loops over a buffer are
  bounded by its length.  The version scan, which may not end, is a partial
  function with the value \<^term>\<open>None\<close>.  No fuel is added to what the code has.  Sequence
  numbers are natural numbers that every stored form truncates to eight bytes.

  \<^bold>\<open>Not modelled.\<close>  The consensus library raft-rs and the asynchronous tasks around it,
  the gRPC transports, certificate issuance, connectors,
  search, agent processes and the binaries are input and output over
  third-party crates.  The system call layer, the dispatcher and the managers
  are concurrent registries of drivers injected at run time; the parts of them
  that decide (path validation, routing, the permission gate) are modelled.
  Locks inside a component are not modelled: each operation is one step, as the
  mutex of the source makes it, and where the source releases the mutex between
  phases (graph cache, replication log, WAL stream, blocking acquire) the phases
  are separate steps.
\<close>

end
